(* ===== verification/Go_Prelude.thy ===== *)
theory Go_Prelude
  imports Main "HOL-Library.Word" "HOL-Library.Char_ord" "HOL-Library.List_Lexorder"
begin

text \<open>
  The vocabulary that every component theory shares: bytes and fixed-width Go integers, Go
  errors and panics as values, slicing with Go's bounds checks, big-endian integers
  (\<open>encoding/binary\<close>), the functions of package \<open>strings\<close> that the sources call, and
  \<open>io.ReadFull\<close> on a stream.  The facts about them are collected in \<open>go_simps\<close> (rewriting)
  and \<open>go_intros\<close> (bounds and well-formedness), which the component proofs pass to the
  simplifier.
\<close>

named_theorems go_simps
named_theorems go_intros

section \<open>Go values\<close>

type_synonym byte = "8 word"
type_synonym u16 = "16 word"
type_synonym u32 = "32 word"
type_synonym u64 = "64 word"

text \<open>
  Every error the modelled code can return, and a panic, is a value; \<open>Inl\<close> carries it.
  \<open>Err\<close> keeps the message of \<open>errors.New\<close> (in the codecs its constant part).
\<close>

datatype go_error = EOF | UnexpectedEOF | ErrBufferFull | ErrNoClue | ErrRouteDropped
  | Err string | GoPanic string

type_synonym 'a res = "go_error + 'a"

fun panics :: "'a res \<Rightarrow> bool" where
  "panics (Inl (GoPanic _)) = True"
| "panics _ = False"

fun is_ok :: "'a res \<Rightarrow> bool" where
  "is_ok (Inr _) = True"
| "is_ok (Inl _) = False"

lemma is_ok_iff: "is_ok r \<longleftrightarrow> (\<exists>a. r = Inr a)"
  by (cases r) auto

lemma map_sum_Inr_iff: "map_sum f g r = Inr y \<longleftrightarrow> (\<exists>x. r = Inr x \<and> y = g x)"
  by (cases r) auto

lemma is_ok_not_panics: "is_ok r \<Longrightarrow> \<not> panics r"
  by (cases r) auto

subsection \<open>Signed 32-bit arithmetic\<close>

text \<open>
  \<open>int32\<close> values are integers; \<open>i32\<close> is the two's complement wrap-around Go applies to
  the result of an operation.
\<close>

definition i32 :: "int \<Rightarrow> int" where
  "i32 x = (x + 2 ^ 31) mod 2 ^ 32 - 2 ^ 31"

lemma i32_id [go_simps]: "- (2 ^ 31) \<le> x \<Longrightarrow> x < 2 ^ 31 \<Longrightarrow> i32 x = x"
  by (simp add: i32_def)

lemma i32_range [go_intros]: "- (2 ^ 31) \<le> i32 x \<and> i32 x < 2 ^ 31"
proof -
  have "0 \<le> (x + 2 ^ 31) mod 2 ^ 32" "(x + 2 ^ 31) mod 2 ^ 32 < (2 :: int) ^ 32"
    by (simp_all add: pos_mod_bound)
  then show ?thesis by (simp add: i32_def)
qed

lemma unat_lt: "unat (w :: 'a :: len word) < 2 ^ LENGTH('a)"
  by (rule unsigned_less)

lemma unat_ucast_u16_u32 [simp]: "unat (ucast (p :: u16) :: u32) = unat p"
  using unat_lt [of p] by (simp add: unsigned_ucast_eq take_bit_nat_eq_self)

lemma ucast_u16_u32_u16 [simp]: "ucast (ucast (p :: u16) :: u32) = p"
  by (rule bit_word_eqI) (simp add: bit_ucast_iff bit_imp_le_length)

lemma unat_ucast_u32_u16: "\<not> 65535 < (v :: u32) \<Longrightarrow> unat (ucast v :: u16) = unat v"
  by (simp add: unsigned_ucast_eq take_bit_nat_eq_self word_less_nat_alt)

section \<open>Slices\<close>

text \<open>\<open>copy(dst, src)\<close>: the new contents of \<open>dst\<close> and the number of bytes copied.\<close>

definition go_copy :: "'a list \<Rightarrow> 'a list \<Rightarrow> 'a list \<times> nat" where
  "go_copy dst src =
     (let n = min (length dst) (length src) in (take n src @ drop n dst, n))"

lemma go_copy_length [simp]: "length (fst (go_copy dst src)) = length dst"
  by (simp add: go_copy_def Let_def)

lemma go_copy_count [simp]: "snd (go_copy dst src) = min (length dst) (length src)"
  by (simp add: go_copy_def Let_def)

text \<open>Overwrite a segment of an array in place.\<close>

definition overwrite :: "nat \<Rightarrow> 'a list \<Rightarrow> 'a list \<Rightarrow> 'a list" where
  "overwrite i xs ys = take i ys @ xs @ drop (i + length xs) ys"

lemma overwrite_length [simp]: "i + length xs \<le> length ys \<Longrightarrow> length (overwrite i xs ys) = length ys"
  by (simp add: overwrite_def)

lemma take_overwrite [simp]: "j \<le> i \<Longrightarrow> i \<le> length ys \<Longrightarrow> take j (overwrite i xs ys) = take j ys"
  by (simp add: overwrite_def min_def)

lemma overwrite_Nil [simp]: "i \<le> length ys \<Longrightarrow> overwrite i [] ys = ys"
  by (simp add: overwrite_def)

text \<open>The segment \<open>xs[i:j]\<close> of an array; the bounds are checked by the caller.\<close>

definition segment :: "nat \<Rightarrow> nat \<Rightarrow> 'a list \<Rightarrow> 'a list" where
  "segment i j xs = drop i (take j xs)"

lemma segment_length [simp]: "j \<le> length xs \<Longrightarrow> length (segment i j xs) = j - i"
  by (simp add: segment_def)

lemma segment_empty [simp]: "j \<le> i \<Longrightarrow> segment i j xs = []"
  by (simp add: segment_def)

lemma segment_append: "i \<le> j \<Longrightarrow> j \<le> k \<Longrightarrow> segment i k xs = segment i j xs @ segment j k xs"
proof (rule nth_equalityI, goal_cases)
  case 1
  then show ?case by (simp add: segment_def min_def)
next
  case (2 n)
  then show ?case
    by (auto simp: segment_def nth_append min_def add.commute split: if_splits)
qed

lemma segment_overwrite_before [simp]:
  "j \<le> k \<Longrightarrow> k \<le> length xs \<Longrightarrow> segment i j (overwrite k ys xs) = segment i j xs"
  by (simp add: segment_def)

lemma segment_overwrite_at [simp]:
  "k + length ys \<le> length xs \<Longrightarrow> j = k + length ys \<Longrightarrow> segment k j (overwrite k ys xs) = ys"
  by (simp add: segment_def overwrite_def)

lemma segment_overwrite:
  assumes "i \<le> k" "k + length d \<le> j" "j \<le> length xs"
  shows "segment i j (overwrite k d xs) = segment i k xs @ d @ segment (k + length d) j xs"
proof -
  have "segment i j (overwrite k d xs) =
      segment i k (overwrite k d xs) @ segment k (k + length d) (overwrite k d xs) @ segment (k + length d) j (overwrite k d xs)"
    using assms by (simp add: segment_append [of i k j] segment_append [of k "k + length d" j])
  moreover have "segment (k + length d) j (overwrite k d xs) = segment (k + length d) j xs"
    using assms by (simp add: segment_def overwrite_def drop_take)
  ultimately show ?thesis using assms by simp
qed

lemma segment_take: "i + n \<le> j \<Longrightarrow> take n (segment i j xs) = segment i (i + n) xs"
  by (simp add: segment_def take_drop min_def add.commute)

lemma segment_drop: "drop n (segment i j xs) = segment (i + n) j xs"
  by (simp add: segment_def add.commute)

lemma segment_nth: "n < j - i \<Longrightarrow> j \<le> length xs \<Longrightarrow> segment i j xs ! n = xs ! (i + n)"
  by (simp add: segment_def)

section \<open>Big-endian integers\<close>

fun be_decode_acc :: "nat \<Rightarrow> byte list \<Rightarrow> nat" where
  "be_decode_acc a [] = a"
| "be_decode_acc a (b # bs) = be_decode_acc (a * 256 + unat b) bs"

definition be_decode :: "byte list \<Rightarrow> nat" where
  "be_decode = be_decode_acc 0"

fun be_encode :: "nat \<Rightarrow> nat \<Rightarrow> byte list" where
  "be_encode 0 v = []"
| "be_encode (Suc n) v = be_encode n (v div 256) @ [of_nat v]"

lemma be_encode_length [simp]: "length (be_encode n v) = n"
  by (induction n arbitrary: v) auto

lemma be_decode_acc_append:
  "be_decode_acc a (xs @ [b]) = be_decode_acc a xs * 256 + unat b"
  by (induction xs arbitrary: a) auto

lemma unat_byte_of_nat: "unat (of_nat v :: byte) = v mod 256"
  by (simp add: unat_of_nat)

lemma be_decode_encode [go_simps]: "be_decode (be_encode n v) = v mod 256 ^ n"
proof (induction n arbitrary: v)
  case 0
  then show ?case by (simp add: be_decode_def)
next
  case (Suc n)
  have "be_decode (be_encode (Suc n) v) = (v div 256 mod 256 ^ n) * 256 + v mod 256"
    using Suc by (simp add: be_decode_def be_decode_acc_append unat_byte_of_nat)
  also have "\<dots> = v mod (256 * 256 ^ n)"
    by (simp add: mod_mult2_eq)
  finally show ?case by simp
qed

lemma be_encode_decode [go_simps]: "length bs = n \<Longrightarrow> be_encode n (be_decode bs) = bs"
proof (induction n arbitrary: bs)
  case 0
  then show ?case by simp
next
  case (Suc n)
  then obtain xs b where bs: "bs = xs @ [b]" "length xs = n"
    by (metis append_butlast_last_id length_0_conv length_butlast diff_Suc_1 nat.distinct(1))
  have d: "be_decode bs = be_decode xs * 256 + unat b"
    by (simp add: bs be_decode_def be_decode_acc_append)
  have lt: "unat b < 256" using unat_lt [of b] by simp
  have "(256 :: byte) = 0" by simp
  then have "(of_nat (be_decode xs * 256 + unat b) :: byte) = b"
    by (simp only: of_nat_add of_nat_mult of_nat_numeral mult_zero_right add_0_left) simp
  then show ?case
    using Suc.IH [OF bs(2)] lt by (simp add: d [unfolded bs(1)] bs(1) del: of_nat_add of_nat_mult)
qed

lemma be_decode_bound: "be_decode bs < 256 ^ length bs"
proof -
  have "be_decode bs = be_decode (be_encode (length bs) (be_decode bs))"
    by (simp add: be_encode_decode)
  also have "\<dots> < 256 ^ length bs" by (simp add: be_decode_encode)
  finally show ?thesis .
qed

text \<open>\<open>binary.BigEndian.PutUint16\<close> and \<open>Uint16\<close>, and the 32 and 64 bit versions.\<close>

definition put_u16 :: "u16 \<Rightarrow> byte list" where
  "put_u16 w = be_encode 2 (unat w)"

definition get_u16 :: "byte list \<Rightarrow> u16" where
  "get_u16 bs = of_nat (be_decode bs)"

definition put_u32 :: "u32 \<Rightarrow> byte list" where
  "put_u32 w = be_encode 4 (unat w)"

definition get_u32 :: "byte list \<Rightarrow> u32" where
  "get_u32 bs = of_nat (be_decode bs)"

definition put_u64 :: "u64 \<Rightarrow> byte list" where
  "put_u64 w = be_encode 8 (unat w)"

definition get_u64 :: "byte list \<Rightarrow> u64" where
  "get_u64 bs = of_nat (be_decode bs)"

lemma put_lengths [simp]:
  "length (put_u16 w) = 2" "length (put_u32 x) = 4" "length (put_u64 y) = 8"
  by (simp_all add: put_u16_def put_u32_def put_u64_def)

lemma get_put_u16 [simp]: "get_u16 (put_u16 w) = w"
  using unat_lt [of w] by (simp add: get_u16_def put_u16_def be_decode_encode)

lemma get_put_u32 [simp]: "get_u32 (put_u32 w) = w"
  using unat_lt [of w] by (simp add: get_u32_def put_u32_def be_decode_encode)

lemma get_put_u64 [simp]: "get_u64 (put_u64 w) = w"
  using unat_lt [of w] by (simp add: get_u64_def put_u64_def be_decode_encode)

lemma put_get_u16: "length bs = 2 \<Longrightarrow> put_u16 (get_u16 bs) = bs"
  using be_decode_bound [of bs]
  by (simp add: get_u16_def put_u16_def unat_of_nat be_encode_decode)

lemma put_get_u32: "length bs = 4 \<Longrightarrow> put_u32 (get_u32 bs) = bs"
  using be_decode_bound [of bs]
  by (simp add: get_u32_def put_u32_def unat_of_nat be_encode_decode)

section \<open>Streams\<close>

text \<open>
  An \<open>io.Reader\<close> is the list of bytes it still delivers before \<open>io.EOF\<close>.  \<open>io.ReadFull\<close>
  reads exactly \<open>n\<close> bytes; it fails with \<open>io.EOF\<close> when nothing could be read and with
  \<open>io.ErrUnexpectedEOF\<close> when the stream ends inside the bytes asked for.
\<close>

definition read_full :: "nat \<Rightarrow> byte list \<Rightarrow> (byte list \<times> byte list) res" where
  "read_full n s =
     (if n \<le> length s then Inr (take n s, drop n s)
      else if s = [] then Inl EOF else Inl UnexpectedEOF)"

lemma read_full_append [simp]: "length xs = n \<Longrightarrow> read_full n (xs @ s) = Inr (xs, s)"
  by (simp add: read_full_def)

lemma read_full_ok_iff [simp]:
  "read_full n s = Inr (xs, s') \<longleftrightarrow> n \<le> length s \<and> xs = take n s \<and> s' = drop n s"
  by (auto simp: read_full_def)

lemma read_full_not_panics [simp]: "\<not> panics (read_full n s)"
  by (simp add: read_full_def)

section \<open>Strings\<close>

text \<open>A Go string is a sequence of bytes; \<open>bytes_of\<close> and \<open>string_of\<close> are its conversions.\<close>

definition byte_of_char :: "char \<Rightarrow> byte" where
  "byte_of_char c = of_nat (of_char c)"

definition char_of_byte :: "byte \<Rightarrow> char" where
  "char_of_byte b = char_of (unat b)"

definition bytes_of :: "string \<Rightarrow> byte list" where
  "bytes_of s = map byte_of_char s"

definition string_of :: "byte list \<Rightarrow> string" where
  "string_of bs = map char_of_byte bs"

lemma of_char_lt_256: "of_char c < (256 :: nat)"
  by (rule nat_of_char_less_256)

lemma char_byte_inverse [simp]: "char_of_byte (byte_of_char c) = c"
  using of_char_lt_256 [of c]
  by (simp add: char_of_byte_def byte_of_char_def unat_of_nat)

lemma byte_char_inverse [simp]: "byte_of_char (char_of_byte b) = b"
proof -
  have "unat b < 256" using unat_lt [of b] by simp
  then show ?thesis
    by (simp add: char_of_byte_def byte_of_char_def)
qed

lemma string_of_bytes_of [simp]: "string_of (bytes_of s) = s"
  by (induction s) (simp_all add: string_of_def bytes_of_def)

lemma bytes_of_string_of [simp]: "bytes_of (string_of bs) = bs"
  by (induction bs) (simp_all add: string_of_def bytes_of_def)

lemma bytes_of_length [simp]: "length (bytes_of s) = length s"
  by (simp add: bytes_of_def)

lemma string_of_length [simp]: "length (string_of bs) = length bs"
  by (simp add: string_of_def)

text \<open>\<open>strings.HasPrefix\<close>, \<open>HasSuffix\<close>, \<open>ToLower\<close> (on ASCII), \<open>LastIndexByte\<close>, \<open>Index\<close>.\<close>

definition has_prefix :: "'a list \<Rightarrow> 'a list \<Rightarrow> bool" where
  "has_prefix s p \<longleftrightarrow> take (length p) s = p"

definition has_suffix :: "'a list \<Rightarrow> 'a list \<Rightarrow> bool" where
  "has_suffix s p \<longleftrightarrow> length p \<le> length s \<and> drop (length s - length p) s = p"

lemma has_prefix_iff: "has_prefix s p \<longleftrightarrow> (\<exists>r. s = p @ r)"
  by (auto simp: has_prefix_def) (metis append_take_drop_id)

lemma has_suffix_iff: "has_suffix s p \<longleftrightarrow> (\<exists>r. s = r @ p)"
  by (auto simp: has_suffix_def) (metis append_take_drop_id)

fun contains_sub :: "'a list \<Rightarrow> 'a list \<Rightarrow> bool" where
  "contains_sub [] p = (p = [])"
| "contains_sub (c # s) p = (has_prefix (c # s) p \<or> contains_sub s p)"

lemma contains_sub_iff: "contains_sub s p \<longleftrightarrow> (\<exists>a b. s = a @ p @ b)"
proof (induction s)
  case Nil
  then show ?case by auto
next
  case (Cons c s)
  show ?case
    unfolding contains_sub.simps has_prefix_iff Cons.IH
    by (metis append_Cons append_Nil append_eq_Cons_conv)
qed

end
