(* ===== verification/Go_Net.thy ===== *)
theory Go_Net
  imports Go_Prelude
begin

text \<open>
  The functions of Go's standard library that \<open>common/net\<close> builds on: \<open>strconv.Itoa\<close> and
  \<open>ParseUint\<close>, \<open>strings.TrimSpace\<close>, \<open>net.ParseIP\<close> (that is \<open>netip.ParseAddr\<close> without a
  zone), \<open>net.IP.String\<close> and \<open>net.SplitHostPort\<close>.
\<close>

section \<open>Decimal numbers\<close>

definition digit_char :: "nat \<Rightarrow> char" where
  "digit_char d = char_of (48 + d)"

definition is_digit :: "char \<Rightarrow> bool" where
  "is_digit c \<longleftrightarrow> 48 \<le> (of_char c :: nat) \<and> (of_char c :: nat) \<le> 57"

definition digit_val :: "char \<Rightarrow> nat" where
  "digit_val c = of_char c - 48"

fun itoa :: "nat \<Rightarrow> string" where
  "itoa n = (if n < 10 then [digit_char n] else itoa (n div 10) @ [digit_char (n mod 10)])"

declare itoa.simps [simp del]

definition dec_val :: "string \<Rightarrow> nat" where
  "dec_val s = foldl (\<lambda>a c. a * 10 + digit_val c) 0 s"

text \<open>\<open>strconv.ParseUint(s, 10, 32)\<close>; every error is the same for the callers here.\<close>

definition parse_uint32 :: "string \<Rightarrow> u32 option" where
  "parse_uint32 s =
     (if s \<noteq> [] \<and> list_all is_digit s \<and> dec_val s < 2 ^ 32 then Some (of_nat (dec_val s)) else None)"

lemma digit_char_props [simp]:
  assumes "d < 10"
  shows "is_digit (digit_char d)" "digit_val (digit_char d) = d"
  using assms by (simp_all add: is_digit_def digit_val_def digit_char_def)

lemma dec_val_snoc [simp]: "dec_val (s @ [c]) = dec_val s * 10 + digit_val c"
  by (simp add: dec_val_def)

lemma itoa_props: "itoa n \<noteq> [] \<and> list_all is_digit (itoa n) \<and> dec_val (itoa n) = n"
proof (induction n rule: itoa.induct)
  case (1 n)
  show ?case
  proof (cases "n < 10")
    case True
    then show ?thesis by (subst (1 2 3) itoa.simps) (simp add: dec_val_def)
  next
    case False
    with 1 show ?thesis by (subst (1 2 3) itoa.simps) simp
  qed
qed

lemma itoa_nonempty [simp]: "itoa n \<noteq> []"
  and itoa_digits [simp]: "list_all is_digit (itoa n)"
  and dec_val_itoa [simp]: "dec_val (itoa n) = n"
  using itoa_props by auto

lemma parse_uint32_itoa [go_simps]: "n < 2 ^ 32 \<Longrightarrow> parse_uint32 (itoa n) = Some (of_nat n)"
  by (simp add: parse_uint32_def)

lemma digit_not_in_itoa: "\<not> is_digit c \<Longrightarrow> c \<notin> set (itoa n)"
  using itoa_digits [of n] by (auto simp: list_all_iff)

section \<open>Byte searches\<close>

fun index_byte :: "'a list \<Rightarrow> 'a \<Rightarrow> nat option" where
  "index_byte [] c = None"
| "index_byte (x # xs) c = (if x = c then Some 0 else map_option Suc (index_byte xs c))"

definition last_index_byte :: "'a list \<Rightarrow> 'a \<Rightarrow> nat option" where
  "last_index_byte s c = map_option (\<lambda>i. length s - 1 - i) (index_byte (rev s) c)"

lemma index_byte_None [simp]: "index_byte s c = None \<longleftrightarrow> c \<notin> set s"
  by (induction s) auto

lemma index_byte_append [simp]:
  "c \<notin> set xs \<Longrightarrow> index_byte (xs @ c # ys) c = Some (length xs)"
  by (induction xs) auto

lemma last_index_byte_append:
  assumes "c \<notin> set ys"
  shows "last_index_byte (xs @ c # ys) c = Some (length xs)"
proof -
  have "index_byte (rev (xs @ c # ys)) c = Some (length ys)"
    using index_byte_append [of c "rev ys" "rev xs"] assms by simp
  then show ?thesis by (simp add: last_index_byte_def)
qed

lemma last_index_byte_None [simp]: "last_index_byte s c = None \<longleftrightarrow> c \<notin> set s"
  by (simp add: last_index_byte_def)

section \<open>TrimSpace\<close>

text \<open>
  The UTF-8 encodings of the code points with \<open>unicode.IsSpace\<close>; trimming removes them from
  both ends as long as there is one.
\<close>

definition utf8_spaces :: "string list" where
  "utf8_spaces = map (map (char_of :: nat \<Rightarrow> char))
     ([[9], [10], [11], [12], [13], [32], [0xC2, 0x85], [0xC2, 0xA0], [0xE1, 0x9A, 0x80]]
      @ map (\<lambda>i. [0xE2, 0x80, 0x80 + i]) [0..<11]
      @ [[0xE2, 0x80, 0xA8], [0xE2, 0x80, 0xA9], [0xE2, 0x80, 0xAF], [0xE2, 0x81, 0x9F],
         [0xE3, 0x80, 0x80]])"

fun strip_any :: "string list \<Rightarrow> string \<Rightarrow> string option" where
  "strip_any [] s = None"
| "strip_any (p # ps) s = (if p \<noteq> [] \<and> has_prefix s p then Some (drop (length p) s) else strip_any ps s)"

lemma strip_any_shorter: "strip_any ps s = Some s' \<Longrightarrow> length s' < length s"
  by (induction ps) (auto simp: has_prefix_iff split: if_splits)

function trim_left :: "string list \<Rightarrow> string \<Rightarrow> string" where
  "trim_left ps s = (case strip_any ps s of None \<Rightarrow> s | Some s' \<Rightarrow> trim_left ps s')"
  by pat_completeness auto
termination
  by (relation "measure (\<lambda>(ps, s). length s)") (auto dest: strip_any_shorter)

declare trim_left.simps [simp del]

definition trim_space :: "string \<Rightarrow> string" where
  "trim_space s = rev (trim_left (map rev utf8_spaces) (rev (trim_left utf8_spaces s)))"

lemma trim_left_id: "strip_any ps s = None \<Longrightarrow> trim_left ps s = s"
  by (subst trim_left.simps) simp

section \<open>ParseIP\<close>

fun v4_loop :: "string \<Rightarrow> nat \<Rightarrow> nat \<Rightarrow> byte list \<Rightarrow> byte list option" where
  "v4_loop [] val digLen fields =
     (if length fields < 3 then None else Some (fields @ [of_nat val]))"
| "v4_loop (c # s) val digLen fields =
     (if is_digit c then
        (if digLen = 1 \<and> val = 0 then None
         else let val' = val * 10 + digit_val c
              in if val' > 255 then None else v4_loop s val' (Suc digLen) fields)
      else if c = CHR ''.'' then
        (if digLen = 0 \<or> s = [] then None
         else if length fields = 3 then None
         else v4_loop s 0 0 (fields @ [of_nat val]))
      else None)"

definition parse_ipv4 :: "string \<Rightarrow> byte list option" where
  "parse_ipv4 s = v4_loop s 0 0 []"

definition is_hex :: "char \<Rightarrow> bool" where
  "is_hex c \<longleftrightarrow> is_digit c \<or> (97 \<le> (of_char c :: nat) \<and> (of_char c :: nat) \<le> 102)
     \<or> (65 \<le> (of_char c :: nat) \<and> (of_char c :: nat) \<le> 70)"

definition hex_val :: "char \<Rightarrow> nat" where
  "hex_val c = (if is_digit c then digit_val c
     else if 97 \<le> (of_char c :: nat) then of_char c - 87 else of_char c - 55)"

text \<open>
  The loop over hexadecimal groups.  \<open>k\<close> counts the groups that still fit; \<open>acc\<close> holds the
  bytes written so far, \<open>ell\<close> the position of the ellipsis.  The result is what is left of the
  string, the bytes and the ellipsis.
\<close>

fun v6_loop :: "nat \<Rightarrow> string \<Rightarrow> byte list \<Rightarrow> nat option \<Rightarrow> (string \<times> byte list \<times> nat option) option"
where
  "v6_loop 0 s acc ell = Some (s, acc, ell)"
| "v6_loop (Suc k) s acc ell =
     (let h = takeWhile is_hex s; r = dropWhile is_hex s;
          v = foldl (\<lambda>a c. a * 16 + hex_val c) 0 h
      in if h = [] \<or> length h > 4 then None
         else if r \<noteq> [] \<and> hd r = CHR ''.'' then
           (if ell = None \<and> length acc \<noteq> 12 then None
            else if length acc + 4 > 16 then None
            else (case v4_loop s 0 0 [] of None \<Rightarrow> None | Some f \<Rightarrow> Some ([], acc @ f, ell)))
         else
           let acc' = acc @ [of_nat (v div 256), of_nat v]
           in if r = [] then Some ([], acc', ell)
              else if hd r \<noteq> CHR '':'' then None
              else if tl r = [] then None
              else if hd (tl r) = CHR '':'' then
                (if ell \<noteq> None then None
                 else if tl (tl r) = [] then Some ([], acc', Some (length acc'))
                 else v6_loop k (tl (tl r)) acc' (Some (length acc')))
              else v6_loop k (tl r) acc' ell)"

definition parse_ipv6 :: "string \<Rightarrow> byte list option" where
  "parse_ipv6 s =
     (if CHR ''%'' \<in> set s then None
      else if s = ''::'' then Some (replicate 16 0)
      else
        let lead = has_prefix s ''::'';
            s' = (if lead then drop 2 s else s)
        in case v6_loop 8 s' [] (if lead then Some 0 else None) of
             None \<Rightarrow> None
           | Some (r, ip, ell) \<Rightarrow>
               if r \<noteq> [] then None
               else if length ip < 16 then
                 (case ell of None \<Rightarrow> None
                  | Some e \<Rightarrow> Some (take e ip @ replicate (16 - length ip) 0 @ drop e ip))
               else if ell \<noteq> None then None else Some ip)"

text \<open>
  \<open>net.ParseIP\<close> returns the 16-byte form (IPv4 as \<open>::ffff:a.b.c.d\<close>), and nil for every
  string that is no IP address or has a zone.
\<close>

definition v4_in_v6_prefix :: "byte list" where
  "v4_in_v6_prefix = replicate 10 0 @ [255, 255]"

definition parse_ip :: "string \<Rightarrow> byte list option" where
  "parse_ip s =
     (case dropWhile (\<lambda>c. c \<notin> {CHR ''.'', CHR '':'', CHR ''%''}) s of
        [] \<Rightarrow> None
      | c # _ \<Rightarrow>
          if c = CHR ''.'' then map_option (\<lambda>f. v4_in_v6_prefix @ f) (parse_ipv4 s)
          else if c = CHR '':'' then parse_ipv6 s
          else None)"

section \<open>IP.String\<close>

fun itoa16 :: "nat \<Rightarrow> string" where
  "itoa16 n = (let d = (\<lambda>k. if k < 10 then digit_char k else char_of (87 + k)) in
     if n < 16 then [d n] else itoa16 (n div 16) @ [d (n mod 16)])"

declare itoa16.simps [simp del]

fun join_sep :: "string \<Rightarrow> string list \<Rightarrow> string" where
  "join_sep sep [] = []"
| "join_sep sep [s] = s"
| "join_sep sep (s # ss) = s @ sep @ join_sep sep ss"

definition ipv4_string :: "byte list \<Rightarrow> string" where
  "ipv4_string ip = join_sep ''.'' (map (\<lambda>b. itoa (unat b)) ip)"

fun v6_groups :: "byte list \<Rightarrow> nat list" where
  "v6_groups (a # b # r) = (unat a * 256 + unat b) # v6_groups r"
| "v6_groups _ = []"

text \<open>The first longest run of at least two zero groups: its start and end.\<close>

fun zero_run :: "nat list \<Rightarrow> nat list \<Rightarrow> nat \<times> nat \<Rightarrow> nat \<times> nat" where
  "zero_run gs [] best = best"
| "zero_run gs (i # is) best =
     (let l = length (takeWhile (\<lambda>g. g = 0) (drop i gs))
      in zero_run gs is (if 2 \<le> l \<and> l > snd best - fst best then (i, i + l) else best))"

definition ipv6_string :: "byte list \<Rightarrow> string" where
  "ipv6_string ip =
     (let gs = v6_groups ip; (zs, ze) = zero_run gs [0..<8] (255, 255);
          hex = (\<lambda>l. join_sep '':'' (map itoa16 l))
      in if zs < 8 then hex (take zs gs) @ ''::'' @ hex (drop ze gs) else hex gs)"

text \<open>\<open>net.IP.String\<close> on a 4-byte or 16-byte address.\<close>

definition ip_string :: "byte list \<Rightarrow> string" where
  "ip_string ip =
     (if length ip = 4 then ipv4_string ip
      else if take 12 ip = v4_in_v6_prefix then ipv4_string (drop 12 ip)
      else ipv6_string ip)"

section \<open>SplitHostPort\<close>

definition split_host_port :: "string \<Rightarrow> (string \<times> string) res" where
  "split_host_port s =
     (case last_index_byte s CHR '':'' of
        None \<Rightarrow> Inl (Err ''missing port in address'')
      | Some i \<Rightarrow>
          if hd s = CHR ''['' then
            (case index_byte s CHR '']'' of
               None \<Rightarrow> Inl (Err ''missing ']' in address'')
             | Some e \<Rightarrow>
                 if e + 1 = length s then Inl (Err ''missing port in address'')
                 else if e + 1 \<noteq> i then
                   (if s ! (e + 1) = CHR '':'' then Inl (Err ''too many colons in address'')
                    else Inl (Err ''missing port in address''))
                 else if CHR ''['' \<in> set (drop 1 s) then Inl (Err ''unexpected '[' in address'')
                 else if CHR '']'' \<in> set (drop (e + 1) s) then Inl (Err ''unexpected ']' in address'')
                 else Inr (segment 1 e s, drop (i + 1) s))
          else if CHR '':'' \<in> set (take i s) then Inl (Err ''too many colons in address'')
          else if CHR ''['' \<in> set s then Inl (Err ''unexpected '[' in address'')
          else if CHR '']'' \<in> set s then Inl (Err ''unexpected ']' in address'')
          else Inr (take i s, drop (i + 1) s))"

section \<open>Facts\<close>

lemma v4_loop_digits:
  assumes "n < 256"
  shows "v4_loop (itoa n @ s) 0 0 fields = v4_loop s n (length (itoa n)) fields"
proof -
  consider (a) "n < 10" | (b) "10 \<le> n" "n < 100" | (c) "100 \<le> n" "n < 256"
    using assms by linarith
  then show ?thesis
  proof cases
    case a
    then show ?thesis by (simp add: itoa.simps [of n])
  next
    case b
    then have "itoa n = [digit_char (n div 10), digit_char (n mod 10)]"
      by (simp add: itoa.simps [of n] itoa.simps [of "n div 10"])
    moreover have "0 < n div 10" "n div 10 < 10" using b by (simp_all add: div_greater_zero_iff)
    ultimately show ?thesis using b by (simp add: Let_def)
  next
    case c
    then have hundreds: "n div 10 div 10 < 10" by (simp add: div_mult2_eq [symmetric])
    with c have e: "itoa n = [digit_char (n div 10 div 10), digit_char (n div 10 mod 10), digit_char (n mod 10)]"
      by (simp add: itoa.simps [of n] itoa.simps [of "n div 10"] itoa.simps [of "n div 10 div 10"])
    have "n div 10 < 256" "0 < n div 10 div 10" using c by (simp_all add: div_mult2_eq [symmetric] div_greater_zero_iff)
    moreover have "n div 10 div 10 * 10 + n div 10 mod 10 = n div 10" by simp
    ultimately show ?thesis using c hundreds by (simp add: e Let_def)
  qed
qed

lemma dot_not_digit [simp]: "\<not> is_digit CHR ''.''"
  by (simp add: is_digit_def)

lemma parse_ipv4_string:
  assumes "length ip = 4"
  shows "parse_ipv4 (ipv4_string ip) = Some ip"
proof -
  obtain a b c d where ip: "ip = [a, b, c, d]"
    using assms by (auto simp: numeral_eq_Suc length_Suc_conv)
  have lt: "unat (x :: byte) < 256" for x using unat_lt [of x] by simp
  have step: "v4_loop (itoa (unat x) @ CHR ''.'' # s) 0 0 fs = v4_loop s 0 0 (fs @ [x])"
    if "s \<noteq> []" "length fs < 3" for x :: byte and s fs
    using that by (simp add: v4_loop_digits lt)
  have last: "v4_loop (itoa (unat x)) 0 0 fs = Some (fs @ [x])" if "length fs = 3" for x :: byte and fs
    using that v4_loop_digits [OF lt, of x "[]" fs] by simp
  show ?thesis
    by (simp add: ip ipv4_string_def parse_ipv4_def step last)
qed

lemma split_host_port_plain [go_simps]:
  assumes "set h \<inter> set '':[]'' = {}" "set p \<inter> set '':[]'' = {}"
  shows "split_host_port (h @ CHR '':'' # p) = Inr (h, p)"
proof -
  have "last_index_byte (h @ CHR '':'' # p) CHR '':'' = Some (length h)"
    using assms by (intro last_index_byte_append) auto
  moreover have "hd (h @ CHR '':'' # p) \<noteq> CHR ''[''"
    using assms by (cases h) auto
  ultimately show ?thesis
    using assms by (auto simp: split_host_port_def)
qed

lemma v4_loop_length: "v4_loop s v d fs = Some ip \<Longrightarrow> length fs \<le> 3 \<Longrightarrow> length ip = 4"
  by (induction s v d fs rule: v4_loop.induct) (auto simp: Let_def split: if_splits)

lemma parse_ip_ipv4_string:
  assumes "length ip = 4"
  shows "parse_ip (ipv4_string ip) = Some (v4_in_v6_prefix @ ip)"
proof -
  obtain a b c d where ip: "ip = [a, b, c, d]"
    using assms by (auto simp: numeral_eq_Suc length_Suc_conv)
  have "dropWhile (\<lambda>c. c \<notin> {CHR ''.'', CHR '':'', CHR ''%''}) (ipv4_string ip)
      = CHR ''.'' # (itoa (unat b) @ ''.'' @ itoa (unat c) @ ''.'' @ itoa (unat d))"
  proof -
    have "\<forall>x \<in> set (itoa (unat a)). x \<notin> {CHR ''.'', CHR '':'', CHR ''%''}"
      using itoa_digits [of "unat a"] by (auto simp: list_all_iff is_digit_def)
    then show ?thesis by (simp add: ip ipv4_string_def dropWhile_append2)
  qed
  then show ?thesis using parse_ipv4_string [OF assms] by (simp add: parse_ip_def)
qed

end
