(* ===== verification/Net_Address.thy ===== *)
theory Net_Address
  imports Go_Net
begin

text \<open>
  Package \<open>common/net\<close>: addresses (\<open>address.go\<close>), ports and port ranges (\<open>port.go\<close>), networks
  (\<open>network.go\<close>, \<open>network.pb.go\<close>) and destinations (\<open>destination.go\<close>).  A nil \<open>Address\<close> is
  \<open>None\<close>; a method that panics returns \<open>Inl (GoPanic _)\<close>.
\<close>

section \<open>Addresses\<close>

text \<open>\<open>AddressFamily\<close> is a byte; the code uses three values, and 255 for \<open>afInvalid\<close>.\<close>

type_synonym AddressFamily = byte

definition AddressFamilyIPv4 :: AddressFamily where "AddressFamilyIPv4 = 0"
definition AddressFamilyIPv6 :: AddressFamily where "AddressFamilyIPv6 = 1"
definition AddressFamilyDomain :: AddressFamily where "AddressFamilyDomain = 2"

lemmas family_defs = AddressFamilyIPv4_def AddressFamilyIPv6_def AddressFamilyDomain_def

definition IsIPv4 :: "AddressFamily \<Rightarrow> bool" where "IsIPv4 af \<longleftrightarrow> af = AddressFamilyIPv4"
definition IsIPv6 :: "AddressFamily \<Rightarrow> bool" where "IsIPv6 af \<longleftrightarrow> af = AddressFamilyIPv6"
definition IsIP :: "AddressFamily \<Rightarrow> bool" where
  "IsIP af \<longleftrightarrow> af = AddressFamilyIPv4 \<or> af = AddressFamilyIPv6"
definition IsDomain :: "AddressFamily \<Rightarrow> bool" where "IsDomain af \<longleftrightarrow> af = AddressFamilyDomain"

text \<open>The three implementations of the interface \<open>Address\<close>.\<close>

datatype address = ipv4Address "byte list" | ipv6Address "byte list" | domainAddress string

fun addr_IP :: "address \<Rightarrow> byte list res" where
  "addr_IP (ipv4Address a) = Inr a"
| "addr_IP (ipv6Address a) = Inr a"
| "addr_IP (domainAddress d) = Inl (GoPanic ''Calling IP() on a DomainAddress.'')"

fun addr_Domain :: "address \<Rightarrow> string res" where
  "addr_Domain (ipv4Address a) = Inl (GoPanic ''Calling Domain() on an IPv4Address.'')"
| "addr_Domain (ipv6Address a) = Inl (GoPanic ''Calling Domain() on an IPv6Address.'')"
| "addr_Domain (domainAddress d) = Inr d"

fun addr_Family :: "address \<Rightarrow> AddressFamily" where
  "addr_Family (ipv4Address a) = AddressFamilyIPv4"
| "addr_Family (ipv6Address a) = AddressFamilyIPv6"
| "addr_Family (domainAddress d) = AddressFamilyDomain"

fun addr_String :: "address \<Rightarrow> string" where
  "addr_String (ipv4Address a) = ip_string a"
| "addr_String (ipv6Address a) = ''['' @ ip_string a @ '']''"
| "addr_String (domainAddress d) = d"

definition isAlphaNum :: "char \<Rightarrow> bool" where
  "isAlphaNum c \<longleftrightarrow> (let n = (of_char c :: nat) in
     (48 \<le> n \<and> n \<le> 57) \<or> (97 \<le> n \<and> n \<le> 122) \<or> (65 \<le> n \<and> n \<le> 90))"

function IPAddress :: "byte list \<Rightarrow> address option" where
  "IPAddress ip =
     (if length ip = 4 then Some (ipv4Address ip)
      else if length ip = 16 then
        (if take 10 ip = replicate 10 0 \<and> ip ! 10 = 0xff \<and> ip ! 11 = 0xff
         then IPAddress (segment 12 16 ip)
         else Some (ipv6Address ip))
      else None)"
  by pat_completeness auto
termination by (relation "measure length") auto

declare IPAddress.simps [simp del]

definition DomainAddress :: "string \<Rightarrow> address" where
  "DomainAddress d = domainAddress d"

text \<open>
  \<open>ParseAddress\<close>.  The option is the one of \<open>IPAddress\<close>, which yields nil on an odd length.
\<close>

definition ParseAddress :: "string \<Rightarrow> address option" where
  "ParseAddress addr0 =
     (let addr1 = (if addr0 \<noteq> [] \<and> hd addr0 = CHR ''['' \<and> last addr0 = CHR '']''
                   then segment 1 (length addr0 - 1) addr0 else addr0);
          addr = (if addr1 \<noteq> [] \<and> (\<not> isAlphaNum (hd addr1) \<or> \<not> isAlphaNum (last addr1))
                  then trim_space addr1 else addr1)
      in case parse_ip addr of
           Some ip \<Rightarrow> IPAddress ip
         | None \<Rightarrow> Some (DomainAddress addr))"

text \<open>The protobuf message \<open>IPOrDomain\<close> (its oneof unset is \<open>NoAddress\<close>) and its conversions.\<close>

datatype IPOrDomain = IPOrDomain_Ip "byte list" | IPOrDomain_Domain string | NoAddress

fun AsAddress :: "IPOrDomain option \<Rightarrow> address option res" where
  "AsAddress None = Inr None"
| "AsAddress (Some (IPOrDomain_Ip ip)) = Inr (IPAddress ip)"
| "AsAddress (Some (IPOrDomain_Domain d)) = Inr (Some (DomainAddress d))"
| "AsAddress (Some NoAddress) = Inl (GoPanic ''Common|Net: Invalid address.'')"

definition NewIPOrDomain :: "address \<Rightarrow> IPOrDomain res" where
  "NewIPOrDomain addr =
     (if addr_Family addr = AddressFamilyDomain then
        (case addr_Domain addr of Inl e \<Rightarrow> Inl e | Inr d \<Rightarrow> Inr (IPOrDomain_Domain d))
      else if addr_Family addr = AddressFamilyIPv4 \<or> addr_Family addr = AddressFamilyIPv6 then
        (case addr_IP addr of Inl e \<Rightarrow> Inl e | Inr ip \<Rightarrow> Inr (IPOrDomain_Ip ip))
      else Inl (GoPanic ''Unknown Address type.''))"

text \<open>
  What \<open>IPAddress\<close> guarantees of the fixed-size arrays: 4 bytes, or 16 bytes that are not an
  IPv4-mapped address.
\<close>

definition v4_mapped :: "byte list \<Rightarrow> bool" where
  "v4_mapped ip \<longleftrightarrow> take 10 ip = replicate 10 0 \<and> ip ! 10 = 0xff \<and> ip ! 11 = 0xff"

fun addr_wf :: "address \<Rightarrow> bool" where
  "addr_wf (ipv4Address a) = (length a = 4)"
| "addr_wf (ipv6Address a) = (length a = 16 \<and> \<not> v4_mapped a)"
| "addr_wf (domainAddress d) = True"

lemma IPAddress_4 [go_simps]: "length ip = 4 \<Longrightarrow> IPAddress ip = Some (ipv4Address ip)"
  by (simp add: IPAddress.simps)

lemma IPAddress_16 [go_simps]:
  "length ip = 16 \<Longrightarrow> IPAddress ip =
     Some (if v4_mapped ip then ipv4Address (drop 12 ip) else ipv6Address ip)"
  by (subst IPAddress.simps) (simp add: v4_mapped_def IPAddress_4 segment_def)

lemma IPAddress_other: "length ip \<noteq> 4 \<Longrightarrow> length ip \<noteq> 16 \<Longrightarrow> IPAddress ip = None"
  by (subst IPAddress.simps) simp

lemma IPAddress_wf: "IPAddress ip = Some a \<Longrightarrow> addr_wf a"
  by (cases "length ip = 4"; cases "length ip = 16")
     (auto simp: IPAddress_4 IPAddress_16 IPAddress_other)

lemma IPAddress_family: "IPAddress ip = Some a \<Longrightarrow> IsIP (addr_Family a)"
  by (cases "length ip = 4"; cases "length ip = 16")
     (auto simp: IPAddress_4 IPAddress_16 IPAddress_other IsIP_def)

lemma IPAddress_addr_IP: "addr_wf a \<Longrightarrow> addr_IP a = Inr ip \<Longrightarrow> IPAddress ip = Some a"
  by (cases a) (auto simp: IPAddress_4 IPAddress_16)

section \<open>Ports\<close>

type_synonym Port = u16

definition PortFromBytes :: "byte list \<Rightarrow> Port res" where
  "PortFromBytes bs =
     (if length bs < 2 then Inl (GoPanic ''index out of range'') else Inr (get_u16 (take 2 bs)))"

definition PortFromInt :: "u32 \<Rightarrow> Port res" where
  "PortFromInt val = (if val > 65535 then Inl (Err ''invalid port range: '') else Inr (ucast val))"

definition PortFromString :: "string \<Rightarrow> Port res" where
  "PortFromString s =
     (case parse_uint32 s of
        None \<Rightarrow> Inl (Err ''invalid port range: '')
      | Some val \<Rightarrow> PortFromInt val)"

definition Port_String :: "Port \<Rightarrow> string" where
  "Port_String p = itoa (unat p)"

record PortRange =
  From :: u32
  To :: u32

definition FromPort :: "PortRange \<Rightarrow> Port" where "FromPort p = ucast (From p)"
definition ToPort :: "PortRange \<Rightarrow> Port" where "ToPort p = ucast (To p)"

definition PortRange_Contains :: "PortRange \<Rightarrow> Port \<Rightarrow> bool" where
  "PortRange_Contains p port \<longleftrightarrow> FromPort p \<le> port \<and> port \<le> ToPort p"

definition SinglePortRange :: "Port \<Rightarrow> PortRange" where
  "SinglePortRange p = \<lparr>From = ucast p, To = ucast p\<rparr>"

record MemoryPortRange =
  mFrom :: Port
  mTo :: Port

definition MemoryPortRange_Contains :: "MemoryPortRange \<Rightarrow> Port \<Rightarrow> bool" where
  "MemoryPortRange_Contains r port \<longleftrightarrow> mFrom r \<le> port \<and> port \<le> mTo r"

type_synonym MemoryPortList = "MemoryPortRange list"

definition PortListFromProto :: "PortRange list \<Rightarrow> MemoryPortList" where
  "PortListFromProto l = map (\<lambda>r. \<lparr>mFrom = ucast (From r), mTo = ucast (To r)\<rparr>) l"

fun MemoryPortList_Contains :: "MemoryPortList \<Rightarrow> Port \<Rightarrow> bool" where
  "MemoryPortList_Contains [] port = False"
| "MemoryPortList_Contains (pr # mpl) port =
     (if MemoryPortRange_Contains pr port then True else MemoryPortList_Contains mpl port)"

text \<open>
  \<open>PortList.Ports\<close> counts \<open>i\<close> from \<open>From\<close> to \<open>To\<close> in \<open>uint32\<close>.  For \<open>To = 2^32 - 1\<close> the
  increment wraps and the loop does not end, which is \<open>None\<close> here.
\<close>

partial_function (option) ports_loop :: "u32 \<Rightarrow> u32 \<Rightarrow> u32 list \<Rightarrow> u32 list option" where
  "ports_loop i to acc = (if i \<le> to then ports_loop (i + 1) to (acc @ [i]) else Some acc)"

fun Ports :: "PortRange list \<Rightarrow> u32 list \<Rightarrow> u32 list option" where
  "Ports [] acc = Some acc"
| "Ports (r # rs) acc = (case ports_loop (From r) (To r) acc of None \<Rightarrow> None | Some acc' \<Rightarrow> Ports rs acc')"

section \<open>Networks and destinations\<close>

datatype Network = Network_Unknown | Network_TCP | Network_UDP | Network_UNIX

text \<open>The numbers of \<open>network.pb.go\<close>.\<close>

fun network_int :: "Network \<Rightarrow> nat" where
  "network_int Network_Unknown = 0"
| "network_int Network_TCP = 2"
| "network_int Network_UDP = 3"
| "network_int Network_UNIX = 4"

fun SystemString :: "Network \<Rightarrow> string" where
  "SystemString Network_TCP = ''tcp''"
| "SystemString Network_UDP = ''udp''"
| "SystemString Network_UNIX = ''unix''"
| "SystemString Network_Unknown = ''unknown''"

fun HasNetwork :: "Network list \<Rightarrow> Network \<Rightarrow> bool" where
  "HasNetwork [] network = False"
| "HasNetwork (value # list) network = (if value = network then True else HasNetwork list network)"

text \<open>A destination; its \<open>Address\<close> is nil (\<open>None\<close>) in the zero value.\<close>

record Destination =
  Address :: "address option"
  dPort :: Port
  dNetwork :: Network

definition zero_Destination :: Destination where
  "zero_Destination = \<lparr>Address = None, dPort = 0, dNetwork = Network_Unknown\<rparr>"

definition TCPDestination :: "address option \<Rightarrow> Port \<Rightarrow> Destination" where
  "TCPDestination a p = \<lparr>Address = a, dPort = p, dNetwork = Network_TCP\<rparr>"

definition UDPDestination :: "address option \<Rightarrow> Port \<Rightarrow> Destination" where
  "UDPDestination a p = \<lparr>Address = a, dPort = p, dNetwork = Network_UDP\<rparr>"

definition UnixDestination :: "address option \<Rightarrow> Destination" where
  "UnixDestination a = \<lparr>Address = a, dPort = 0, dNetwork = Network_UNIX\<rparr>"

text \<open>\<open>net.Addr\<close> as the code switches on it: TCP, UDP, Unix, or another type.\<close>

datatype net_Addr = TCPAddr "byte list" int | UDPAddr "byte list" int | UnixAddr string string | OtherAddr

fun DestinationFromAddr :: "net_Addr \<Rightarrow> Destination res" where
  "DestinationFromAddr (TCPAddr ip port) = Inr (TCPDestination (IPAddress ip) (of_int port))"
| "DestinationFromAddr (UDPAddr ip port) = Inr (UDPDestination (IPAddress ip) (of_int port))"
| "DestinationFromAddr (UnixAddr name net) = Inr (UnixDestination (Some (DomainAddress name)))"
| "DestinationFromAddr OtherAddr = Inl (GoPanic ''Net: Unknown address type.'')"

definition ParseDestination :: "string \<Rightarrow> Destination res" where
  "ParseDestination dest0 =
     (let d0 = \<lparr>Address = Some (ipv4Address [0, 0, 0, 0]), dPort = 0, dNetwork = Network_Unknown\<rparr>
      in if has_prefix dest0 ''unix:'' then Inr (UnixDestination (Some (DomainAddress (drop 5 dest0))))
      else
        let (d1, dest) =
          (if has_prefix dest0 ''tcp:'' then (d0\<lparr>dNetwork := Network_TCP\<rparr>, drop 4 dest0)
           else if has_prefix dest0 ''udp:'' then (d0\<lparr>dNetwork := Network_UDP\<rparr>, drop 4 dest0)
           else (d0, dest0))
        in case split_host_port dest of
             Inl e \<Rightarrow> Inl e
           | Inr (hstr, pstr) \<Rightarrow>
               let d2 = (if hstr \<noteq> [] then d1\<lparr>Address := ParseAddress hstr\<rparr> else d1)
               in if pstr \<noteq> [] then
                    (case PortFromString pstr of
                       Inl e \<Rightarrow> Inl e
                     | Inr port \<Rightarrow> Inr (d2\<lparr>dPort := port\<rparr>))
                  else Inr d2)"

text \<open>A method call on a nil address panics.\<close>

definition nil_deref :: go_error where
  "nil_deref = GoPanic ''invalid memory address or nil pointer dereference''"

definition NetAddr :: "Destination \<Rightarrow> string res" where
  "NetAddr d =
     (if dNetwork d = Network_TCP \<or> dNetwork d = Network_UDP then
        (case Address d of None \<Rightarrow> Inl nil_deref
         | Some a \<Rightarrow> Inr (addr_String a @ '':'' @ Port_String (dPort d)))
      else if dNetwork d = Network_UNIX then
        (case Address d of None \<Rightarrow> Inl nil_deref | Some a \<Rightarrow> Inr (addr_String a))
      else Inr [])"

definition RawNetAddr :: "Destination \<Rightarrow> net_Addr option res" where
  "RawNetAddr d =
     (case dNetwork d of
        Network_TCP \<Rightarrow>
          (case Address d of None \<Rightarrow> Inl nil_deref
           | Some a \<Rightarrow> if IsIP (addr_Family a)
               then (case addr_IP a of Inl e \<Rightarrow> Inl e | Inr ip \<Rightarrow> Inr (Some (TCPAddr ip (uint (dPort d)))))
               else Inr None)
      | Network_UDP \<Rightarrow>
          (case Address d of None \<Rightarrow> Inl nil_deref
           | Some a \<Rightarrow> if IsIP (addr_Family a)
               then (case addr_IP a of Inl e \<Rightarrow> Inl e | Inr ip \<Rightarrow> Inr (Some (UDPAddr ip (uint (dPort d)))))
               else Inr None)
      | Network_UNIX \<Rightarrow>
          (case Address d of None \<Rightarrow> Inl nil_deref
           | Some a \<Rightarrow> if IsDomain (addr_Family a)
               then Inr (Some (UnixAddr (addr_String a) (SystemString (dNetwork d))))
               else Inr None)
      | Network_Unknown \<Rightarrow> Inr None)"

definition Destination_String :: "Destination \<Rightarrow> string res" where
  "Destination_String d =
     (let prefix = (case dNetwork d of Network_TCP \<Rightarrow> ''tcp:'' | Network_UDP \<Rightarrow> ''udp:''
                    | Network_UNIX \<Rightarrow> ''unix:'' | Network_Unknown \<Rightarrow> ''unknown:'')
      in case NetAddr d of Inl e \<Rightarrow> Inl e | Inr s \<Rightarrow> Inr (prefix @ s))"

definition IsValid :: "Destination \<Rightarrow> bool" where
  "IsValid d \<longleftrightarrow> dNetwork d \<noteq> Network_Unknown"

record Endpoint =
  eNetwork :: Network
  eAddress :: "IPOrDomain option"
  ePort :: u32

definition AsDestination :: "Endpoint \<Rightarrow> Destination res" where
  "AsDestination p =
     (case AsAddress (eAddress p) of
        Inl e \<Rightarrow> Inl e
      | Inr a \<Rightarrow> Inr \<lparr>Address = a, dPort = ucast (ePort p), dNetwork = eNetwork p\<rparr>)"

section \<open>Properties of ports\<close>

lemma PortFromString_String: "PortFromString (Port_String p) = Inr p"
proof -
  have lt: "unat p < 65536" using unat_lt [of p] by simp
  then have "parse_uint32 (itoa (unat p)) = Some (of_nat (unat p))"
    by (intro parse_uint32_itoa) simp
  moreover have "\<not> (ucast p :: u32) > 65535"
    using lt by (simp add: word_less_nat_alt)
  ultimately show ?thesis
    by (simp add: PortFromString_def Port_String_def PortFromInt_def)
qed

lemma PortFromInt_exact: "PortFromInt v = Inr p \<Longrightarrow> unat p = unat v"
  by (auto simp: PortFromInt_def unat_ucast_u32_u16 split: if_splits)

lemma MemoryPortList_Contains_iff:
  "MemoryPortList_Contains l p \<longleftrightarrow> (\<exists>r \<in> set l. mFrom r \<le> p \<and> p \<le> mTo r)"
  by (induction l) (auto simp: MemoryPortRange_Contains_def)

lemma ports_loop_stops:
  assumes "to < - 1"
  shows "ports_loop i to acc = Some (acc @ map of_nat [unat i ..< Suc (unat to)])"
proof (induction "Suc (unat to) - unat i" arbitrary: i acc)
  case 0
  then have "\<not> i \<le> to" by (simp add: word_le_nat_alt)
  with 0 show ?case by (subst ports_loop.simps) simp
next
  case (Suc n)
  then have le: "i \<le> to" by (simp add: word_le_nat_alt)
  have inc: "unat (i + 1) = Suc (unat i)"
  proof -
    have "i < - 1" using le assms by (rule order.strict_trans1)
    then have "i \<noteq> - 1" by auto
    then have "1 + i \<noteq> 0" by (simp add: eq_neg_iff_add_eq_0 add.commute)
    then show ?thesis using unatSuc [of i] by (simp add: add.commute)
  qed
  have "ports_loop (i + 1) to (acc @ [i]) =
      Some ((acc @ [i]) @ map of_nat [unat (i + 1) ..< Suc (unat to)])"
    using Suc.hyps(2) inc by (intro Suc.hyps(1)) simp
  moreover have "[unat i ..< Suc (unat to)] = unat i # [Suc (unat i) ..< Suc (unat to)]"
    using le by (simp add: word_le_nat_alt upt_conv_Cons del: upt_Suc)
  ultimately show ?case
    using le inc by (subst ports_loop.simps) (simp del: upt_Suc)
qed

lemma ports_loop_diverges: "ports_loop i (- 1) acc = None"
proof (rule ccontr)
  assume "ports_loop i (- 1) acc \<noteq> None"
  then obtain r where ret: "ports_loop i (- 1) acc = Some r" by blast
  have "- 1 \<noteq> (- 1 :: u32)"
  proof (rule ports_loop.raw_induct [where P = "\<lambda>i to acc r. to \<noteq> - 1", OF _ ret])
    fix f and i to :: u32 and acc r
    assume "\<And>i to acc r. f i to acc = Some r \<Longrightarrow> to \<noteq> - 1"
      and "(if i \<le> to then f (i + 1) to (acc @ [i]) else Some acc) = Some r"
    then show "to \<noteq> - 1" using word_order.extremum [of i] by (auto split: if_splits)
  qed
  then show False by simp
qed

section \<open>Properties of addresses and destinations\<close>

lemma NewIPOrDomain_AsAddress:
  assumes "addr_wf a"
  shows "\<exists>m. NewIPOrDomain a = Inr m \<and> AsAddress (Some m) = Inr (Some a)"
  using assms
  by (cases a) (simp_all add: NewIPOrDomain_def family_defs IPAddress_4 IPAddress_16 DomainAddress_def)

lemma itoa_ends: "isAlphaNum (hd (itoa n)) \<and> isAlphaNum (last (itoa n))"
proof -
  have "is_digit (hd (itoa n))" "is_digit (last (itoa n))"
    using itoa_digits [of n] by (auto simp: list_all_iff)
  then show ?thesis by (simp add: is_digit_def isAlphaNum_def)
qed

lemma ParseAddress_plain:
  assumes "s \<noteq> []" "isAlphaNum (hd s)" "isAlphaNum (last s)"
  shows "ParseAddress s =
    (case parse_ip s of Some ip \<Rightarrow> IPAddress ip | None \<Rightarrow> Some (DomainAddress s))"
proof -
  have "hd s \<noteq> CHR ''[''" using assms(2) by (auto simp: isAlphaNum_def)
  then show ?thesis using assms by (simp add: ParseAddress_def Let_def)
qed

lemma ipv4_string_ends:
  assumes "length ip = 4"
  shows "ipv4_string ip \<noteq> []" "isAlphaNum (hd (ipv4_string ip))" "isAlphaNum (last (ipv4_string ip))"
proof -
  obtain a b c d where ip: "ip = [a, b, c, d]"
    using assms by (auto simp: numeral_eq_Suc length_Suc_conv)
  show "ipv4_string ip \<noteq> []" by (simp add: ip ipv4_string_def)
  show "isAlphaNum (hd (ipv4_string ip))"
    using itoa_ends [of "unat a"] by (simp add: ip ipv4_string_def)
  show "isAlphaNum (last (ipv4_string ip))"
    using itoa_ends [of "unat d"] by (simp add: ip ipv4_string_def)
qed

lemma ParseAddress_ipv4:
  assumes "length ip = 4"
  shows "ParseAddress (ipv4_string ip) = Some (ipv4Address ip)"
proof -
  have "v4_mapped (v4_in_v6_prefix @ ip)"
    by (simp add: v4_mapped_def v4_in_v6_prefix_def nth_append numeral_eq_Suc)
  moreover have "length (v4_in_v6_prefix @ ip) = 16" "drop 12 (v4_in_v6_prefix @ ip) = ip"
    using assms by (simp_all add: v4_in_v6_prefix_def)
  ultimately have "IPAddress (v4_in_v6_prefix @ ip) = Some (ipv4Address ip)"
    by (simp only: IPAddress_16 if_True)
  then show ?thesis
    using parse_ip_ipv4_string [OF assms]
    by (simp add: ParseAddress_plain ipv4_string_ends [OF assms])
qed

lemma v4_chars:
  assumes "length ip = 4"
  shows "set (ipv4_string ip) \<inter> set '':[]'' = {}"
proof -
  obtain a b c d where ip: "ip = [a, b, c, d]"
    using assms by (auto simp: numeral_eq_Suc length_Suc_conv)
  have "c \<notin> set (itoa n)" if "c \<in> set '':[]''" for c n
    using that by (intro digit_not_in_itoa) (auto simp: is_digit_def)
  then show ?thesis by (auto simp: ip ipv4_string_def)
qed

text \<open>
  The destinations whose text form names them uniquely: a TCP or UDP destination with an IPv4
  address or with a domain that is not the text of an IP address, starts and ends with a letter
  or digit and has no colon or bracket; and every Unix destination.
\<close>

definition plain_domain :: "string \<Rightarrow> bool" where
  "plain_domain d \<longleftrightarrow> d \<noteq> [] \<and> isAlphaNum (hd d) \<and> isAlphaNum (last d)
     \<and> set d \<inter> set '':[]'' = {} \<and> parse_ip d = None"

fun plain_addr :: "address \<Rightarrow> bool" where
  "plain_addr (ipv4Address a) = (length a = 4)"
| "plain_addr (ipv6Address a) = False"
| "plain_addr (domainAddress d) = plain_domain d"

definition plain_destination :: "Destination \<Rightarrow> bool" where
  "plain_destination d \<longleftrightarrow>
     (case dNetwork d of
        Network_Unknown \<Rightarrow> False
      | Network_UNIX \<Rightarrow> (\<exists>n. Address d = Some (domainAddress n)) \<and> dPort d = 0
      | _ \<Rightarrow> (\<exists>a. Address d = Some a \<and> plain_addr a))"

lemma plain_addr_text:
  assumes "plain_addr a"
  shows "addr_String a \<noteq> [] \<and> set (addr_String a) \<inter> set '':[]'' = {}
    \<and> ParseAddress (addr_String a) = Some a"
proof (cases a)
  case (ipv4Address ip)
  with assms have len: "length ip = 4" by simp
  have "addr_String a = ipv4_string ip" by (simp add: ipv4Address len ip_string_def)
  then show ?thesis
    using ipv4_string_ends(1) [OF len] v4_chars [OF len] ParseAddress_ipv4 [OF len] ipv4Address
    by simp
next
  case (ipv6Address ip)
  with assms show ?thesis by simp
next
  case (domainAddress d)
  with assms have d: "d \<noteq> []" "isAlphaNum (hd d)" "isAlphaNum (last d)"
    "set d \<inter> set '':[]'' = {}" "parse_ip d = None"
    by (simp_all only: plain_addr.simps plain_domain_def simp_thms)
  show ?thesis
    using d ParseAddress_plain [OF d(1-3)] domainAddress by (simp add: DomainAddress_def)
qed

lemma Port_String_chars: "set (Port_String p) \<inter> set '':[]'' = {}"
  using digit_not_in_itoa [of _ "unat p"] by (auto simp: Port_String_def is_digit_def)

lemma split_plain_dest:
  "plain_addr a \<Longrightarrow>
     split_host_port (addr_String a @ CHR '':'' # Port_String p) = Inr (addr_String a, Port_String p)"
  by (intro split_host_port_plain plain_addr_text [THEN conjunct2, THEN conjunct1] Port_String_chars)

text \<open>
  C17: printing a destination and parsing the text gives the destination back, for TCP and UDP
  destinations with an IPv4 address or an ordinary domain name and for every Unix destination.
\<close>

theorem ParseDestination_String:
  assumes "plain_destination d"
  shows "\<exists>s. Destination_String d = Inr s \<and> ParseDestination s = Inr d"
proof -
  have port: "Port_String (dPort d) \<noteq> []" by (simp add: Port_String_def)
  consider (net) a where "dNetwork d = Network_TCP \<or> dNetwork d = Network_UDP" "Address d = Some a" "plain_addr a"
    | (unix) n where "dNetwork d = Network_UNIX" "Address d = Some (domainAddress n)" "dPort d = 0"
    using assms by (auto simp: plain_destination_def split: Network.splits)
  then show ?thesis
  proof cases
    case net
    then show ?thesis
      using plain_addr_text [OF net(3)] port
      by (auto simp: Destination_String_def NetAddr_def ParseDestination_def has_prefix_def Let_def
            split_plain_dest PortFromString_String)
  next
    case unix
    then show ?thesis
      by (auto simp: Destination_String_def NetAddr_def ParseDestination_def has_prefix_def
            UnixDestination_def DomainAddress_def)
  qed
qed

theorem ParseDestination_String_witness:
  "plain_destination \<lparr>Address = Some (domainAddress ''a.io''), dPort = 443, dNetwork = Network_TCP\<rparr>
   \<and> (\<exists>s. Destination_String \<lparr>Address = Some (domainAddress ''a.io''), dPort = 443, dNetwork = Network_TCP\<rparr> = Inr s
        \<and> ParseDestination s = Inr \<lparr>Address = Some (domainAddress ''a.io''), dPort = 443, dNetwork = Network_TCP\<rparr>)"
proof -
  have "plain_destination \<lparr>Address = Some (domainAddress ''a.io''), dPort = 443, dNetwork = Network_TCP\<rparr>"
    by (simp add: plain_destination_def plain_domain_def parse_ip_def parse_ipv4_def isAlphaNum_def is_digit_def)
  then show ?thesis using ParseDestination_String by blast
qed

text \<open>
  C18: \<open>PortList.Ports\<close> on one range: when the upper bound is below the largest \<open>uint32\<close> it
  returns exactly the numbers of the range in order, and when the upper bound is the largest
  \<open>uint32\<close> the loop never ends.
\<close>

theorem Ports_single_range:
  "Ports [r] [] =
     (if To r = - 1 then None else Some (map of_nat [unat (From r) ..< Suc (unat (To r))]))"
proof (cases "To r = - 1")
  case True
  then show ?thesis by (simp add: ports_loop_diverges)
next
  case False
  then have "To r < - 1" using word_order.not_eq_extremum by blast
  then show ?thesis using False by (simp add: ports_loop_stops del: upt_Suc)
qed

end
