(* ===== verification/Buf.thy ===== *)
theory Buf
  imports Net_Address
begin

text \<open>
  \<open>common/buf/buffer.go\<close>: the recyclable byte buffer.  The Go slice \<open>v\<close> is its backing
  array up to its capacity (field \<open>buf_v\<close>) together with its length (\<open>buf_vlen\<close>); a nil slice is the
  empty array.  \<open>buf_start\<close> and \<open>buf_end\<close> are \<open>int32\<close>, with the wrap-around \<open>i32\<close> at every operation.
  An operation returns \<open>Inl (GoPanic _)\<close> where Go panics; an error value it returns beside a
  changed buffer is an option in its result.  What the byte pool hands out is an argument of
  the functions that allocate, so nothing depends on the old contents of recycled memory.
\<close>

datatype ownership = managed | unmanaged | bytespools

record Buffer =
  buf_v :: "byte list"
  buf_vlen :: int
  buf_start :: int
  buf_end :: int
  buf_owner :: ownership
  buf_UDP :: "Destination option"

definition Size :: nat where "Size = 8192"

section \<open>Slicing with bounds checks\<close>

definition go_slice :: "byte list \<Rightarrow> int \<Rightarrow> int \<Rightarrow> byte list res" where
  "go_slice xs i j =
     (if 0 \<le> i \<and> i \<le> j \<and> j \<le> int (length xs) then Inr (segment (nat i) (nat j) xs)
      else Inl (GoPanic ''slice bounds out of range''))"

definition go_index :: "byte list \<Rightarrow> int \<Rightarrow> int \<Rightarrow> byte res" where
  "go_index xs n i =
     (if 0 \<le> i \<and> i < n then Inr (xs ! nat i) else Inl (GoPanic ''index out of range''))"

section \<open>Creating and releasing\<close>

definition New :: "byte list \<Rightarrow> Buffer" where
  "New p = \<lparr>buf_v = (if Size \<le> length p then p else replicate Size 0), buf_vlen = int Size,
            buf_start = 0, buf_end = 0, buf_owner = managed, buf_UDP = None\<rparr>"

definition NewExisted :: "byte list \<Rightarrow> int \<Rightarrow> Buffer res" where
  "NewExisted b oLen =
     (if length b < Size then Inl (GoPanic ''Invalid buffer'')
      else Inr \<lparr>buf_v = b, buf_vlen = (if oLen < int Size then int Size else oLen),
                buf_start = 0, buf_end = i32 oLen, buf_owner = managed, buf_UDP = None\<rparr>)"

definition FromBytes :: "byte list \<Rightarrow> int \<Rightarrow> Buffer" where
  "FromBytes b len =
     \<lparr>buf_v = b, buf_vlen = len, buf_start = 0, buf_end = i32 len, buf_owner = unmanaged, buf_UDP = None\<rparr>"

text \<open>\<open>NewWithSize\<close>: \<open>p\<close> and \<open>len\<close> are the slice \<open>bytespool.Alloc(size)\<close> returns.\<close>

definition NewWithSize :: "byte list \<Rightarrow> int \<Rightarrow> Buffer" where
  "NewWithSize p len =
     \<lparr>buf_v = p, buf_vlen = len, buf_start = 0, buf_end = 0, buf_owner = bytespools, buf_UDP = None\<rparr>"

definition Buffer_Clear :: "Buffer \<Rightarrow> Buffer" where
  "Buffer_Clear b = b\<lparr>buf_start := 0, buf_end := 0\<rparr>"

definition Release :: "Buffer \<Rightarrow> Buffer" where
  "Release b =
     (if buf_v b = [] \<or> buf_owner b = unmanaged then b
      else (Buffer_Clear (b\<lparr>buf_v := [], buf_vlen := 0\<rparr>))\<lparr>buf_UDP := None\<rparr>)"

section \<open>Reading the contents\<close>

definition Buffer_Len :: "Buffer \<Rightarrow> int" where
  "Buffer_Len b = i32 (buf_end b - buf_start b)"

definition Cap :: "Buffer \<Rightarrow> int" where
  "Cap b = i32 (buf_vlen b)"

definition Available :: "Buffer \<Rightarrow> int" where
  "Available b = i32 (i32 (buf_vlen b) - buf_end b)"

definition Buffer_IsEmpty :: "Buffer \<Rightarrow> bool" where
  "Buffer_IsEmpty b \<longleftrightarrow> Buffer_Len b = 0"

definition IsFull :: "Buffer \<Rightarrow> bool" where
  "IsFull b \<longleftrightarrow> buf_end b = i32 (buf_vlen b)"

definition Byte :: "Buffer \<Rightarrow> int \<Rightarrow> byte res" where
  "Byte b index = go_index (buf_v b) (buf_vlen b) (i32 (buf_start b + index))"

definition SetByte :: "Buffer \<Rightarrow> int \<Rightarrow> byte \<Rightarrow> Buffer res" where
  "SetByte b index value =
     (let i = i32 (buf_start b + index) in
      if 0 \<le> i \<and> i < buf_vlen b then Inr (b\<lparr>buf_v := (buf_v b)[nat i := value]\<rparr>)
      else Inl (GoPanic ''index out of range''))"

definition Bytes :: "Buffer \<Rightarrow> byte list res" where
  "Bytes b = go_slice (buf_v b) (buf_start b) (buf_end b)"

definition BytesRange :: "Buffer \<Rightarrow> int \<Rightarrow> int \<Rightarrow> byte list res" where
  "BytesRange b from0 to0 =
     (let from = (if from0 < 0 then i32 (from0 + Buffer_Len b) else from0);
          to = (if to0 < 0 then i32 (to0 + Buffer_Len b) else to0)
      in go_slice (buf_v b) (i32 (buf_start b + from)) (i32 (buf_start b + to)))"

definition BytesFrom :: "Buffer \<Rightarrow> int \<Rightarrow> byte list res" where
  "BytesFrom b from0 =
     (let from = (if from0 < 0 then i32 (from0 + Buffer_Len b) else from0)
      in go_slice (buf_v b) (i32 (buf_start b + from)) (buf_end b))"

definition BytesTo :: "Buffer \<Rightarrow> int \<Rightarrow> byte list res" where
  "BytesTo b to0 =
     (let to1 = (if to0 < 0 then i32 (to0 + Buffer_Len b) else to0);
          to = (if to1 < 0 then 0 else to1)
      in go_slice (buf_v b) (buf_start b) (i32 (buf_start b + to)))"

section \<open>Changing the window\<close>

definition clear_range :: "int \<Rightarrow> int \<Rightarrow> byte list \<Rightarrow> byte list" where
  "clear_range i j xs = overwrite (nat i) (replicate (nat (j - i)) 0) xs"

text \<open>\<open>Extend\<close> returns the buffer and the extended part, which it has cleared.\<close>

definition Extend :: "Buffer \<Rightarrow> int \<Rightarrow> (Buffer \<times> byte list) res" where
  "Extend b n =
     (let e = i32 (buf_end b + n) in
      if e > i32 (buf_vlen b) then Inl (GoPanic ''extending out of bound'')
      else case go_slice (buf_v b) (buf_end b) e of
             Inl p \<Rightarrow> Inl p
           | Inr ext \<Rightarrow> Inr (b\<lparr>buf_v := clear_range (buf_end b) e (buf_v b), buf_end := e\<rparr>, replicate (length ext) 0))"

definition Check :: "Buffer \<Rightarrow> Buffer" where
  "Check b =
     (let s0 = (if buf_start b < 0 then 0 else buf_start b);
          e = (if buf_end b < 0 then 0 else buf_end b)
      in b\<lparr>buf_start := (if s0 > e then e else s0), buf_end := e\<rparr>)"

definition Resize :: "Buffer \<Rightarrow> int \<Rightarrow> int \<Rightarrow> Buffer res" where
  "Resize b from0 to0 =
     (let oldEnd = buf_end b;
          from = (if from0 < 0 then i32 (from0 + Buffer_Len b) else from0);
          to = (if to0 < 0 then i32 (to0 + Buffer_Len b) else to0)
      in if to < from then Inl (GoPanic ''Invalid slice'')
         else
           let b1 = Check (b\<lparr>buf_end := i32 (buf_start b + to), buf_start := i32 (buf_start b + from)\<rparr>)
           in if buf_end b1 > oldEnd then
                (case go_slice (buf_v b1) oldEnd (buf_end b1) of
                   Inl p \<Rightarrow> Inl p
                 | Inr _ \<Rightarrow> Inr (b1\<lparr>buf_v := clear_range oldEnd (buf_end b1) (buf_v b1)\<rparr>))
              else Inr b1)"

definition Advance :: "Buffer \<Rightarrow> int \<Rightarrow> Buffer" where
  "Advance b from0 =
     (let from = (if from0 < 0 then i32 (from0 + Buffer_Len b) else from0)
      in Check (b\<lparr>buf_start := i32 (buf_start b + from)\<rparr>))"

section \<open>Writing and reading\<close>

text \<open>The result of \<open>Write\<close>: the buffer, the number of bytes written, and the error if any.\<close>

definition Buffer_Write :: "Buffer \<Rightarrow> byte list \<Rightarrow> (Buffer \<times> nat \<times> go_error option) res" where
  "Buffer_Write b data =
     (if buf_vlen b < buf_end b then Inl (GoPanic ''slice bounds out of range'')
      else case go_slice (buf_v b) (buf_end b) (buf_vlen b) of
        Inl p \<Rightarrow> Inl p
      | Inr dst \<Rightarrow>
          let nBytes = min (length dst) (length data)
          in Inr (b\<lparr>buf_v := overwrite (nat (buf_end b)) (take nBytes data) (buf_v b),
                    buf_end := i32 (buf_end b + i32 (int nBytes))\<rparr>,
                  nBytes, if nBytes < length data then Some ErrBufferFull else None))"

definition Buffer_WriteByte :: "Buffer \<Rightarrow> byte \<Rightarrow> (Buffer \<times> go_error option) res" where
  "Buffer_WriteByte b x =
     (if IsFull b then Inr (b, Some ErrBufferFull)
      else if 0 \<le> buf_end b \<and> buf_end b < buf_vlen b
           then Inr (b\<lparr>buf_v := (buf_v b)[nat (buf_end b) := x], buf_end := i32 (buf_end b + 1)\<rparr>, None)
           else Inl (GoPanic ''index out of range''))"

definition WriteString :: "Buffer \<Rightarrow> string \<Rightarrow> (Buffer \<times> nat \<times> go_error option) res" where
  "WriteString b s = Buffer_Write b (bytes_of s)"

definition Buffer_ReadByte :: "Buffer \<Rightarrow> (Buffer \<times> byte \<times> go_error option) res" where
  "Buffer_ReadByte b =
     (if buf_start b = buf_end b then Inr (b, 0, Some EOF)
      else case go_index (buf_v b) (buf_vlen b) (buf_start b) of
             Inl p \<Rightarrow> Inl p
           | Inr nb \<Rightarrow> Inr (b\<lparr>buf_start := i32 (buf_start b + 1)\<rparr>, nb, None))"

definition Buffer_ReadBytes :: "Buffer \<Rightarrow> int \<Rightarrow> (Buffer \<times> byte list \<times> go_error option) res" where
  "Buffer_ReadBytes b len =
     (if i32 (buf_end b - buf_start b) < len then Inr (b, [], Some EOF)
      else case go_slice (buf_v b) (buf_start b) (i32 (buf_start b + len)) of
             Inl p \<Rightarrow> Inl p
           | Inr nb \<Rightarrow> Inr (b\<lparr>buf_start := i32 (buf_start b + len)\<rparr>, nb, None))"

text \<open>\<open>Read(data)\<close> into a slice of \<open>room\<close> bytes: the buffer and the bytes copied to its front.\<close>

definition Buffer_Read :: "Buffer \<Rightarrow> nat \<Rightarrow> (Buffer \<times> byte list \<times> go_error option) res" where
  "Buffer_Read b room =
     (if Buffer_Len b = 0 then Inr (b, [], Some EOF)
      else case go_slice (buf_v b) (buf_start b) (buf_end b) of
        Inl p \<Rightarrow> Inl p
      | Inr src \<Rightarrow>
          let got = take room src; nBytes = int (length got)
          in if i32 nBytes = Buffer_Len b then Inr (Buffer_Clear b, got, None)
             else Inr (b\<lparr>buf_start := i32 (buf_start b + i32 nBytes)\<rparr>, got, None))"

text \<open>
  \<open>ReadFrom(reader)\<close> for any \<open>io.Reader\<close>: \<open>rd\<close> is its \<open>Read\<close>, which gets the room it may
  fill and returns the new reader state, at most that many bytes, and an error.
\<close>

definition Buffer_ReadFrom ::
  "Buffer \<Rightarrow> ('s \<Rightarrow> nat \<Rightarrow> 's \<times> byte list \<times> go_error option) \<Rightarrow> 's
     \<Rightarrow> (Buffer \<times> 's \<times> nat \<times> go_error option) res" where
  "Buffer_ReadFrom b rd s =
     (if buf_vlen b < buf_end b then Inl (GoPanic ''slice bounds out of range'')
      else case go_slice (buf_v b) (buf_end b) (buf_vlen b) of
        Inl p \<Rightarrow> Inl p
      | Inr dst \<Rightarrow>
          let (s', got, err) = rd s (length dst); n = length got
          in Inr (b\<lparr>buf_v := overwrite (nat (buf_end b)) got (buf_v b), buf_end := i32 (buf_end b + i32 (int n))\<rparr>,
                  s', n, err))"

definition ReadFullFrom ::
  "Buffer \<Rightarrow> byte list \<Rightarrow> int \<Rightarrow> (Buffer \<times> byte list \<times> nat \<times> go_error option) res" where
  "ReadFullFrom b reader sz =
     (let e = i32 (buf_end b + sz) in
      if e > i32 (buf_vlen b) then Inr (b, reader, 0, Some (Err ''out of bound: ''))
      else case go_slice (buf_v b) (buf_end b) e of
        Inl p \<Rightarrow> Inl p
      | Inr dst \<Rightarrow>
          let want = length dst; got = take want reader; n = length got;
              err = (if n = want then None else if n = 0 then Some EOF else Some UnexpectedEOF)
          in Inr (b\<lparr>buf_v := overwrite (nat (buf_end b)) got (buf_v b), buf_end := i32 (buf_end b + i32 (int n))\<rparr>,
                  drop want reader, n, err))"

definition Buffer_String :: "Buffer \<Rightarrow> string res" where
  "Buffer_String b = (case Bytes b of Inl p \<Rightarrow> Inl p | Inr bs \<Rightarrow> Inr (string_of bs))"

section \<open>The invariant\<close>

text \<open>
  The window lies inside the slice, the slice inside its array, and the array is smaller than
  2 GiB, so that no \<open>int32\<close> computation on the window wraps.  \<open>buf_data\<close> is the content.
\<close>

definition buf_wf :: "Buffer \<Rightarrow> bool" where
  "buf_wf b \<longleftrightarrow> 0 \<le> buf_start b \<and> buf_start b \<le> buf_end b \<and> buf_end b \<le> buf_vlen b
     \<and> buf_vlen b \<le> int (length (buf_v b)) \<and> length (buf_v b) < 2 ^ 31"

definition buf_data :: "Buffer \<Rightarrow> byte list" where
  "buf_data b = segment (nat (buf_start b)) (nat (buf_end b)) (buf_v b)"

definition buf_room :: "Buffer \<Rightarrow> nat" where
  "buf_room b = nat (buf_vlen b - buf_end b)"

lemma buf_wfD [go_intros]:
  assumes "buf_wf b"
  shows "0 \<le> buf_start b" "buf_start b \<le> buf_end b" "buf_end b \<le> buf_vlen b" "buf_vlen b \<le> int (length (buf_v b))"
    "buf_vlen b < 2 ^ 31" "0 \<le> buf_end b"
  using assms by (auto simp: buf_wf_def)

text \<open>A well-formed buffer in natural numbers.\<close>

lemma buf_wfE:
  assumes "buf_wf b"
  obtains s e l where "buf_start b = int s" "buf_end b = int e" "buf_vlen b = int l"
    "s \<le> e" "e \<le> l" "l \<le> length (buf_v b)" "length (buf_v b) < 2147483648"
    "buf_data b = segment s e (buf_v b)" "buf_room b = l - e"
proof (rule that [of "nat (buf_start b)" "nat (buf_end b)" "nat (buf_vlen b)"])
qed (use assms in \<open>auto simp: buf_wf_def buf_data_def buf_room_def nat_diff_distrib\<close>)

lemma data_length: "buf_wf b \<Longrightarrow> int (length (buf_data b)) = buf_end b - buf_start b"
  by (erule buf_wfE) simp

lemma Buffer_Len_data [go_simps]: "buf_wf b \<Longrightarrow> Buffer_Len b = int (length (buf_data b))"
  by (erule buf_wfE) (simp add: Buffer_Len_def i32_id)

lemma Buffer_IsEmpty_data [go_simps]: "buf_wf b \<Longrightarrow> Buffer_IsEmpty b \<longleftrightarrow> buf_data b = []"
  by (simp add: Buffer_IsEmpty_def Buffer_Len_data)

lemma IsFull_room [go_simps]: "buf_wf b \<Longrightarrow> IsFull b \<longleftrightarrow> buf_room b = 0"
  by (erule buf_wfE) (auto simp: IsFull_def i32_id)

lemma Available_room [go_simps]: "buf_wf b \<Longrightarrow> Available b = int (buf_room b)"
  by (erule buf_wfE) (simp add: Available_def i32_id of_nat_diff)

lemma Bytes_data [go_simps]: "buf_wf b \<Longrightarrow> Bytes b = Inr (buf_data b)"
  by (erule buf_wfE) (simp add: Bytes_def go_slice_def)

lemma New_fields [simp]:
  "buf_start (New p) = 0" "buf_end (New p) = 0" "buf_vlen (New p) = int Size" "buf_UDP (New p) = None"
  "Size \<le> length (buf_v (New p))"
  by (simp_all add: New_def)

lemma Size_bounds [simp]: "0 < Size" "Size < 2147483648"
  by (simp_all add: Size_def)

lemma New_wf [simp]: "length p < 2 ^ 31 \<Longrightarrow> buf_wf (New p)"
  by (simp add: buf_wf_def) (simp add: New_def)

lemma New_data [simp]: "buf_data (New p) = []" "buf_room (New p) = Size"
  by (simp_all add: buf_data_def buf_room_def)

lemma FromBytes_wf [simp]: "length d < 2 ^ 31 \<Longrightarrow> len = int (length d) \<Longrightarrow> buf_wf (FromBytes d len)"
  by (simp add: buf_wf_def FromBytes_def i32_id)

section \<open>What the operations do to the content\<close>

lemma i32_in [simp]: "0 \<le> x \<Longrightarrow> x < 2147483648 \<Longrightarrow> i32 x = x"
  by (simp add: i32_id)

lemma segment_grow:
  "i \<le> j \<Longrightarrow> j + length ys \<le> length xs \<Longrightarrow>
     segment i (j + length ys) (overwrite j ys xs) = segment i j xs @ ys"
  by (subst segment_append [of i j]) simp_all

lemma append_at_end:
  assumes "buf_wf b" "length d \<le> buf_room b"
  defines "b' \<equiv> b\<lparr>buf_v := overwrite (nat (buf_end b)) d (buf_v b), buf_end := buf_end b + int (length d)\<rparr>"
  shows "buf_wf b'" "buf_data b' = buf_data b @ d" "buf_room b' = buf_room b - length d"
proof -
  from assms(1) obtain s e l where b: "buf_start b = int s" "buf_end b = int e" "buf_vlen b = int l"
    "s \<le> e" "e \<le> l" "l \<le> length (buf_v b)" "length (buf_v b) < 2147483648"
    "buf_data b = segment s e (buf_v b)" "buf_room b = l - e" by (rule buf_wfE)
  have n: "nat (int e + int (length d)) = e + length d" by simp
  show "buf_wf b'" "buf_room b' = buf_room b - length d"
    using assms(2) b by (auto simp: b'_def buf_wf_def buf_room_def)
  show "buf_data b' = buf_data b @ d"
    using assms(2) b by (simp add: b'_def buf_data_def n segment_grow)
qed

lemma wf_end_small:
  assumes "buf_wf b" "n \<le> buf_room b"
  shows "i32 (int n) = int n" "i32 (buf_end b + int n) = buf_end b + int n" "i32 (buf_vlen b) = buf_vlen b"
proof -
  from assms(1) obtain s e l where b: "buf_end b = int e" "buf_vlen b = int l"
    "e \<le> l" "l \<le> length (buf_v b)" "length (buf_v b) < 2147483648" "buf_room b = l - e" by (rule buf_wfE)
  show "i32 (int n) = int n" "i32 (buf_end b + int n) = buf_end b + int n" "i32 (buf_vlen b) = buf_vlen b"
    using b assms(2) by simp_all
qed

lemma go_slice_room:
  assumes "buf_wf b" "n \<le> buf_room b"
  obtains dst where "go_slice (buf_v b) (buf_end b) (buf_end b + int n) = Inr dst" "length dst = n"
proof -
  from assms(1) obtain s e l where b: "buf_end b = int e" "buf_vlen b = int l"
    "e \<le> l" "l \<le> length (buf_v b)" "buf_room b = l - e" by (rule buf_wfE)
  have n: "nat (int e + int n) = e + n" by simp
  show thesis
    using b assms(2) by (intro that [of "segment e (e + n) (buf_v b)"]) (simp_all add: go_slice_def n)
qed

lemma vlen_room: "buf_wf b \<Longrightarrow> buf_vlen b = buf_end b + int (buf_room b) \<and> \<not> buf_vlen b < buf_end b"
  by (erule buf_wfE) simp

lemma Buffer_Write_spec:
  assumes "buf_wf b"
  obtains b' where
    "Buffer_Write b d =
       Inr (b', min (buf_room b) (length d), if buf_room b < length d then Some ErrBufferFull else None)"
    "buf_wf b'" "buf_data b' = buf_data b @ take (buf_room b) d"
    "buf_room b' = buf_room b - length d" "buf_UDP b' = buf_UDP b"
proof -
  define d' where "d' = take (buf_room b) d"
  have len: "length d' = min (buf_room b) (length d)" "length d' \<le> buf_room b"
    and room: "buf_room b - length d' = buf_room b - length d"
    and less: "length d' < length d \<longleftrightarrow> buf_room b < length d"
    and tk: "take (length d') d = d'"
    by (auto simp: d'_def min_def)
  let ?b = "b\<lparr>buf_v := overwrite (nat (buf_end b)) d' (buf_v b), buf_end := buf_end b + int (length d')\<rparr>"
  obtain dst where dst: "go_slice (buf_v b) (buf_end b) (buf_vlen b) = Inr dst" "length dst = buf_room b"
    using go_slice_room [OF assms order.refl] vlen_room [OF assms] by metis
  have "Buffer_Write b d = Inr (?b, length d', if length d' < length d then Some ErrBufferFull else None)"
    using wf_end_small [OF assms len(2)] vlen_room [OF assms, THEN conjunct2]
    by (simp add: Buffer_Write_def Let_def dst tk len(1) [symmetric] del: of_nat_min)
  then show thesis
    using append_at_end [OF assms len(2)] len(1) room less d'_def by (intro that [of ?b]) simp_all
qed

lemma Buffer_WriteByte_spec:
  assumes "buf_wf b" "0 < buf_room b"
  obtains b' where "Buffer_WriteByte b x = Inr (b', None)" "buf_wf b'"
    "buf_data b' = buf_data b @ [x]" "buf_room b' = buf_room b - 1" "buf_UDP b' = buf_UDP b"
proof -
  let ?b = "b\<lparr>buf_v := overwrite (nat (buf_end b)) [x] (buf_v b), buf_end := buf_end b + 1\<rparr>"
  from assms(1) obtain s e l where b: "buf_end b = int e" "buf_vlen b = int l"
    "e \<le> l" "l \<le> length (buf_v b)" "buf_room b = l - e" by (rule buf_wfE)
  then have upd: "(buf_v b)[e := x] = overwrite e [x] (buf_v b)"
    using assms(2) by (simp add: overwrite_def upd_conv_take_nth_drop)
  have "Buffer_WriteByte b x = Inr (?b, None)"
    using assms wf_end_small [OF assms(1), of 1] b upd
    by (simp add: Buffer_WriteByte_def IsFull_room)
  then show thesis
    using append_at_end [OF assms(1), of "[x]"] assms(2) by (intro that [of ?b]) simp_all
qed

lemma Extend_spec:
  assumes "buf_wf b" "n \<le> buf_room b"
  obtains b' where "Extend b (int n) = Inr (b', replicate n 0)" "buf_wf b'"
    "buf_data b' = buf_data b @ replicate n 0" "buf_room b' = buf_room b - n" "buf_UDP b' = buf_UDP b"
proof -
  let ?b = "b\<lparr>buf_v := overwrite (nat (buf_end b)) (replicate n 0) (buf_v b), buf_end := buf_end b + int n\<rparr>"
  obtain dst where "go_slice (buf_v b) (buf_end b) (buf_end b + int n) = Inr dst" "length dst = n"
    using go_slice_room [OF assms] .
  then have "Extend b (int n) = Inr (?b, replicate n 0)"
    using assms(2) wf_end_small [OF assms] vlen_room [OF assms(1)]
    by (simp add: Extend_def Let_def clear_range_def)
  then show thesis
    using append_at_end [OF assms(1), of "replicate n 0"] assms(2) by (intro that [of ?b]) simp_all
qed

text \<open>Dropping a prefix of the content.\<close>

lemma drop_front:
  assumes "buf_wf b" "n \<le> length (buf_data b)"
  defines "b' \<equiv> b\<lparr>buf_start := buf_start b + int n\<rparr>"
  shows "buf_wf b'" "buf_data b' = drop n (buf_data b)" "i32 (buf_start b + int n) = buf_start b + int n"
    "buf_room b' = buf_room b" "i32 (int n) = int n"
proof -
  from assms(1) obtain s e l where b: "buf_start b = int s" "buf_end b = int e" "buf_vlen b = int l"
    "s \<le> e" "e \<le> l" "l \<le> length (buf_v b)" "length (buf_v b) < 2147483648"
    "buf_data b = segment s e (buf_v b)" "buf_room b = l - e" by (rule buf_wfE)
  have n: "nat (int s + int n) = s + n" by simp
  show "buf_wf b'" "i32 (buf_start b + int n) = buf_start b + int n" "i32 (int n) = int n"
    "buf_room b' = buf_room b"
    using assms(2) b by (auto simp: b'_def buf_wf_def buf_room_def)
  show "buf_data b' = drop n (buf_data b)"
    using b by (simp add: b'_def buf_data_def n segment_drop)
qed

lemma Advance_spec:
  assumes "buf_wf b" "n \<le> length (buf_data b)"
  shows "buf_wf (Advance b (int n)) \<and> buf_data (Advance b (int n)) = drop n (buf_data b)
    \<and> buf_UDP (Advance b (int n)) = buf_UDP b \<and> buf_room (Advance b (int n)) = buf_room b"
proof -
  let ?b = "b\<lparr>buf_start := buf_start b + int n\<rparr>"
  have "Advance b (int n) = Check ?b"
    using drop_front(3) [OF assms] by (simp add: Advance_def)
  also have "Check ?b = ?b"
    using buf_wfD(1,2,6) [OF drop_front(1) [OF assms]] by (simp add: Check_def Let_def)
  finally show ?thesis using drop_front [OF assms] by simp
qed

lemma Buffer_ReadByte_spec:
  assumes "buf_wf b"
  shows "case buf_data b of
      [] \<Rightarrow> Buffer_ReadByte b = Inr (b, 0, Some EOF)
    | x # r \<Rightarrow> \<exists>b'. Buffer_ReadByte b = Inr (b', x, None) \<and> buf_wf b' \<and> buf_data b' = r"
proof (cases "buf_data b")
  case Nil
  then have "buf_start b = buf_end b" using data_length [OF assms] by simp
  with Nil show ?thesis by (simp add: Buffer_ReadByte_def)
next
  case (Cons x r)
  from assms obtain s e l where b: "buf_start b = int s" "buf_end b = int e" "buf_vlen b = int l"
    "s \<le> e" "e \<le> l" "l \<le> length (buf_v b)" "buf_data b = segment s e (buf_v b)" by (rule buf_wfE)
  then have lt: "s < e" using Cons by (cases "s = e") auto
  then have "buf_data b ! 0 = buf_v b ! s" using b by (simp add: segment_nth)
  then have "go_index (buf_v b) (buf_vlen b) (buf_start b) = Inr x"
    using b lt Cons by (simp add: go_index_def) (metis nth_Cons_0)
  then show ?thesis
    using lt b(1-6) Cons drop_front [OF assms, of 1] by (simp add: Buffer_ReadByte_def)
qed

lemma Buffer_Clear_spec: "buf_wf b \<Longrightarrow> buf_wf (Buffer_Clear b) \<and> buf_data (Buffer_Clear b) = []"
  by (auto simp: Buffer_Clear_def buf_wf_def buf_data_def)

lemma Buffer_Read_spec:
  assumes "buf_wf b"
  obtains b' where
    "Buffer_Read b n = Inr (b', take n (buf_data b), if buf_data b = [] then Some EOF else None)"
    "buf_wf b'" "buf_data b' = drop n (buf_data b)" "buf_UDP b' = buf_UDP b"
proof -
  have src: "go_slice (buf_v b) (buf_start b) (buf_end b) = Inr (buf_data b)"
    using Bytes_data [OF assms] by (simp add: Bytes_def)
  have len: "i32 (int (length (buf_data b))) = int (length (buf_data b))"
    using drop_front(5) [OF assms order.refl] .
  consider "buf_data b = []" | "buf_data b \<noteq> []" "length (buf_data b) \<le> n" | "buf_data b \<noteq> []" "n < length (buf_data b)"
    by fastforce
  then show thesis
  proof cases
    case 1
    then show ?thesis using assms by (intro that [of b]) (simp_all add: Buffer_Read_def Buffer_Len_data)
  next
    case 2
    then show ?thesis
      using len assms src Buffer_Clear_spec [OF assms]
      by (intro that [of "Buffer_Clear b"])
         (simp_all add: Buffer_Read_def Buffer_Len_data Let_def Buffer_Clear_def)
  next
    case 3
    then show ?thesis
      using len assms src drop_front [OF assms, of n]
      by (intro that [of "b\<lparr>buf_start := buf_start b + int n\<rparr>"])
         (simp_all add: Buffer_Read_def Buffer_Len_data Let_def)
  qed
qed

lemma ReadFullFrom_spec:
  assumes "buf_wf b" "n \<le> buf_room b"
  obtains b' where
    "ReadFullFrom b s (int n) =
       Inr (b', drop n s, min n (length s),
            if n \<le> length s then None else if s = [] then Some EOF else Some UnexpectedEOF)"
    "buf_wf b'" "buf_data b' = buf_data b @ take n s" "buf_room b' = buf_room b - min n (length s)"
    "buf_UDP b' = buf_UDP b"
proof -
  let ?g = "take n s"
  let ?b = "b\<lparr>buf_v := overwrite (nat (buf_end b)) ?g (buf_v b), buf_end := buf_end b + int (length ?g)\<rparr>"
  have le: "length ?g \<le> buf_room b" using assms(2) by simp
  obtain dst where "go_slice (buf_v b) (buf_end b) (buf_end b + int n) = Inr dst" "length dst = n"
    using go_slice_room [OF assms] .
  then have "ReadFullFrom b s (int n) = Inr (?b, drop n s, length ?g,
      if length ?g = n then None else if length ?g = 0 then Some EOF else Some UnexpectedEOF)"
    using assms(2) wf_end_small [OF assms] wf_end_small [OF assms(1) le] vlen_room [OF assms(1)]
    by (simp only: ReadFullFrom_def Let_def) simp
  moreover have "(if length ?g = n then None else if length ?g = 0 then Some EOF else Some UnexpectedEOF)
      = (if n \<le> length s then None else if s = [] then Some EOF else Some UnexpectedEOF)"
    by (auto simp: min_def)
  ultimately show thesis
    using append_at_end [OF assms(1) le] by (intro that [of ?b]) (simp_all add: min.commute)
qed

lemma Buffer_ReadBytes_spec:
  assumes "buf_wf b" "n \<le> length (buf_data b)"
  obtains b' where "Buffer_ReadBytes b (int n) = Inr (b', take n (buf_data b), None)"
    "buf_wf b'" "buf_data b' = drop n (buf_data b)"
proof -
  from assms(1) obtain s e l where b: "buf_start b = int s" "buf_end b = int e" "buf_vlen b = int l"
    "s \<le> e" "e \<le> l" "l \<le> length (buf_v b)" "length (buf_v b) < 2147483648"
    "buf_data b = segment s e (buf_v b)" "buf_room b = l - e" by (rule buf_wfE)
  have n: "nat (int s + int n) = s + n" by simp
  have "go_slice (buf_v b) (int s) (int s + int n) = Inr (take n (buf_data b))"
    using b assms(2) by (simp add: go_slice_def n segment_take)
  moreover have "\<not> i32 (int e - int s) < int n" using b assms(2) by simp
  ultimately show thesis
    using drop_front [OF assms] b(1,2)
    by (intro that [of "b\<lparr>buf_start := buf_start b + int n\<rparr>"]) (simp_all add: Buffer_ReadBytes_def)
qed

lemma Buffer_ReadBytes_short:
  "buf_wf b \<Longrightarrow> length (buf_data b) < n \<Longrightarrow> Buffer_ReadBytes b (int n) = Inr (b, [], Some EOF)"
  using Buffer_Len_data [of b] by (simp add: Buffer_ReadBytes_def Buffer_Len_def)

lemma segment_zeros:
  assumes "e \<le> k" "k \<le> length xs"
  shows "segment i k (overwrite e (replicate (k - e) c) xs) = segment i k (take e xs @ replicate (k - e) c)"
  using assms by (simp add: segment_def overwrite_def)

text \<open>
  \<open>Resize(from, to)\<close> inside the slice: the new content is the segment of the old content padded
  with zeros, so growing a buffer never shows what recycled memory held before.
\<close>

lemma Resize_spec:
  assumes "buf_wf b" "from \<le> to" "to \<le> length (buf_data b) + buf_room b"
  obtains b' where "Resize b (int from) (int to) = Inr b'" "buf_wf b'"
    "buf_data b' = segment from to (buf_data b @ replicate (buf_room b) 0)"
proof -
  from assms(1) obtain s e l where b: "buf_start b = int s" "buf_end b = int e" "buf_vlen b = int l"
    "s \<le> e" "e \<le> l" "l \<le> length (buf_v b)" "length (buf_v b) < 2147483648"
    "buf_data b = segment s e (buf_v b)" "buf_room b = l - e" by (rule buf_wfE)
  have bound: "s + to \<le> l" using assms(3) b by simp
  have n: "nat (int s + int k) = s + k" for k by simp
  let ?b1 = "b\<lparr>buf_end := int s + int to, buf_start := int s + int from\<rparr>"
  have chk: "Check (b\<lparr>buf_end := i32 (buf_start b + int to), buf_start := i32 (buf_start b + int from)\<rparr>) = ?b1"
    using b assms(2) bound by (simp add: Check_def Let_def)
  show thesis
  proof (cases "e < s + to")
    case True
    let ?b2 = "?b1\<lparr>buf_v := overwrite e (replicate (s + to - e) 0) (buf_v b)\<rparr>"
    have "nat (int s + int to - int e) = s + to - e" using True by simp
    then have "Resize b (int from) (int to) = Inr ?b2"
      using True assms(2) bound b chk by (simp add: Resize_def Let_def go_slice_def clear_range_def n)
    moreover have "buf_wf ?b2" using b bound assms(2) True by (simp add: buf_wf_def)
    moreover have "buf_data ?b2 = segment from to (buf_data b @ replicate (buf_room b) 0)"
      using True b bound segment_zeros [of e "s + to" "buf_v b" "s + from" 0]
      by (simp add: buf_data_def n segment_def drop_take) (simp add: add.commute)
    ultimately show ?thesis by (rule that)
  next
    case False
    then have "Resize b (int from) (int to) = Inr ?b1"
      using assms(2) bound b chk by (simp add: Resize_def Let_def)
    moreover have "buf_wf ?b1" using b bound assms(2) by (simp add: buf_wf_def)
    moreover have "buf_data ?b1 = segment from to (buf_data b @ replicate (buf_room b) 0)"
      using False b bound assms(2) by (simp add: buf_data_def n segment_def drop_take) (simp add: add.commute)
    ultimately show ?thesis by (rule that)
  qed
qed

text \<open>
  \<open>io.Writer\<close> as an interface.  A client appends byte strings; as long as there is room a write
  succeeds, appends exactly its argument and uses up that much room.
\<close>

locale io_writer =
  fixes wr :: "'w \<Rightarrow> byte list \<Rightarrow> ('w \<times> nat \<times> go_error option) res"
    and wf :: "'w \<Rightarrow> bool"
    and content :: "'w \<Rightarrow> byte list"
    and space :: "'w \<Rightarrow> nat"
  assumes write_ok: "wf w \<Longrightarrow> length d \<le> space w \<Longrightarrow>
    \<exists>w'. wr w d = Inr (w', length d, None) \<and> wf w' \<and> content w' = content w @ d
      \<and> space w' = space w - length d"

text \<open>Writing several pieces one after the other, stopping at the first error.\<close>

fun write_all :: "('w \<Rightarrow> byte list \<Rightarrow> ('w \<times> nat \<times> go_error option) res) \<Rightarrow> 'w \<Rightarrow> byte list list
    \<Rightarrow> ('w \<times> go_error option) res" where
  "write_all wr w [] = Inr (w, None)"
| "write_all wr w (d # ds) =
     (case wr w d of
        Inl p \<Rightarrow> Inl p
      | Inr (w', n, Some e) \<Rightarrow> Inr (w', Some e)
      | Inr (w', n, None) \<Rightarrow> write_all wr w' ds)"

context io_writer
begin

lemma write_all_ok:
  "wf w \<Longrightarrow> length (concat ds) \<le> space w \<Longrightarrow>
     \<exists>w'. write_all wr w ds = Inr (w', None) \<and> wf w' \<and> content w' = content w @ concat ds
       \<and> space w' = space w - length (concat ds)"
proof (induction ds arbitrary: w)
  case Nil
  then show ?case by simp
next
  case (Cons d ds)
  then obtain w' where w': "wr w d = Inr (w', length d, None)" "wf w'"
      "content w' = content w @ d" "space w' = space w - length d"
    using write_ok [of w d] by auto
  moreover have "length (concat ds) \<le> space w'" using Cons.prems(2) w'(4) by simp
  ultimately show ?case using Cons.IH [of w'] by auto
qed

end

interpretation buffer: io_writer Buffer_Write buf_wf buf_data buf_room
proof unfold_locales
  fix w :: Buffer and d :: "byte list"
  assume wf: "buf_wf w" and fits: "length d \<le> buf_room w"
  from wf obtain w' where
    "Buffer_Write w d = Inr (w', min (buf_room w) (length d), if buf_room w < length d then Some ErrBufferFull else None)"
    "buf_wf w'" "buf_data w' = buf_data w @ take (buf_room w) d" "buf_room w' = buf_room w - length d"
    by (rule Buffer_Write_spec)
  with fits show "\<exists>w'. Buffer_Write w d = Inr (w', length d, None) \<and> buf_wf w'
      \<and> buf_data w' = buf_data w @ d \<and> buf_room w' = buf_room w - length d"
    by (simp add: min_absorb2)
qed

end
