(* ===== verification/Multi_Buffer.thy ===== *)
theory Multi_Buffer
  imports Buf
begin

text \<open>
  \<open>common/buf/multi_buffer.go\<close>: lists of buffers.  A \<open>MultiBuffer\<close> is the list of the buffers
  its slice holds; the elements are never nil.  An operation that consumes a prefix returns the
  rest, as the Go functions return the new slice header.  Where the code allocates,
  \<open>pool k\<close> is the memory the \<open>k\<close>-th \<open>New()\<close> gets.
\<close>

type_synonym MultiBuffer = "Buffer list"

section \<open>Operations\<close>

definition MergeMulti :: "MultiBuffer \<Rightarrow> MultiBuffer \<Rightarrow> MultiBuffer \<times> MultiBuffer" where
  "MergeMulti dest src = (dest @ src, [])"

lemma write_new_count:
  assumes "Buffer_Write (New p) d = Inr (b, n, e)"
  shows "n = min Size (length d)"
  using assms by (auto simp: Buffer_Write_def go_slice_def Let_def split: if_splits)

lemma write_new_progress: "Buffer_Write (New p) (x # d) = Inr (b, n, e) \<Longrightarrow> 0 < n"
  by (drule write_new_count) simp

text \<open>The loop of \<open>MergeBytes\<close> that fills new buffers.\<close>

function merge_new :: "(nat \<Rightarrow> byte list) \<Rightarrow> nat \<Rightarrow> MultiBuffer \<Rightarrow> byte list \<Rightarrow> MultiBuffer res" where
  "merge_new pool k dest [] = Inr dest"
| "merge_new pool k dest (x # xs) =
     (case Buffer_Write (New (pool k)) (x # xs) of
        Inl p \<Rightarrow> Inl p
      | Inr (b, nBytes, _) \<Rightarrow> merge_new pool (Suc k) (dest @ [b]) (drop nBytes (x # xs)))"
  by pat_completeness auto
termination
proof (relation "measure (\<lambda>(pool, k, dest, src). length src)", goal_cases)
  case (2 pool k dest x xs r b y n e)
  then have "0 < n" by (auto dest: write_new_progress)
  then show ?case by simp
qed simp

definition MergeBytes :: "(nat \<Rightarrow> byte list) \<Rightarrow> MultiBuffer \<Rightarrow> byte list \<Rightarrow> MultiBuffer res" where
  "MergeBytes pool dest src =
     (if dest \<noteq> [] \<and> \<not> IsFull (last dest) then
        (case Buffer_Write (last dest) src of
           Inl p \<Rightarrow> Inl p
         | Inr (b, nBytes, _) \<Rightarrow> merge_new pool 0 (butlast dest @ [b]) (drop nBytes src))
      else merge_new pool 0 dest src)"

definition ReleaseMulti :: "MultiBuffer \<Rightarrow> MultiBuffer" where
  "ReleaseMulti mb = []"

text \<open>\<open>Copy\<close> into a slice of \<open>n\<close> bytes: the bytes that reach its front.\<close>

fun MultiBuffer_Copy :: "MultiBuffer \<Rightarrow> nat \<Rightarrow> byte list res" where
  "MultiBuffer_Copy [] n = Inr []"
| "MultiBuffer_Copy (bb # mb) n =
     (case Bytes bb of
        Inl p \<Rightarrow> Inl p
      | Inr bs \<Rightarrow>
          let got = take n bs
          in if i32 (int (length got)) < Buffer_Len bb then Inr got
             else (case MultiBuffer_Copy mb (n - length got) of Inl p \<Rightarrow> Inl p | Inr r \<Rightarrow> Inr (got @ r)))"

text \<open>
  \<open>ReadFrom(reader)\<close>: the loop that fills buffers until the stream ends.  It stops because the
  stream is finite; \<open>fuel\<close> bounds the rounds and \<open>ReadFrom\<close> gives it one more than the stream
  has bytes (\<open>ReadFrom_total\<close> below shows that it is enough).
\<close>

fun read_from_loop :: "nat \<Rightarrow> (nat \<Rightarrow> byte list) \<Rightarrow> nat \<Rightarrow> MultiBuffer \<Rightarrow> byte list
    \<Rightarrow> (MultiBuffer \<times> go_error option) res option" where
  "read_from_loop 0 pool k mb s = None"
| "read_from_loop (Suc fuel) pool k mb s =
     (case ReadFullFrom (New (pool k)) s (int Size) of
        Inl p \<Rightarrow> Some (Inl p)
      | Inr (b, s', n, err) \<Rightarrow>
          let mb' = (if Buffer_IsEmpty b then mb else mb @ [b])
          in case err of
               None \<Rightarrow> read_from_loop fuel pool (Suc k) mb' s'
             | Some e \<Rightarrow> if e = EOF \<or> e = UnexpectedEOF then Some (Inr (mb', None))
                         else Some (Inr (mb', Some e)))"

definition ReadFrom :: "(nat \<Rightarrow> byte list) \<Rightarrow> byte list \<Rightarrow> (MultiBuffer \<times> go_error option) res option" where
  "ReadFrom pool s = read_from_loop (Suc (length s)) pool 0 [] s"

text \<open>\<open>SplitBytes\<close> into a slice of \<open>n\<close> bytes: the rest, and the bytes copied (their number is the second result of the Go function).\<close>

fun SplitBytes :: "MultiBuffer \<Rightarrow> nat \<Rightarrow> (MultiBuffer \<times> byte list) res" where
  "SplitBytes [] n = Inr ([], [])"
| "SplitBytes (pBuffer # mb) n =
     (case Buffer_Read pBuffer n of
        Inl p \<Rightarrow> Inl p
      | Inr (b', got, _) \<Rightarrow>
          if \<not> Buffer_IsEmpty b' then Inr (b' # mb, got)
          else (case SplitBytes mb (n - length got) of
                  Inl p \<Rightarrow> Inl p
                | Inr (rest, r) \<Rightarrow> Inr (rest, got @ r)))"

definition SplitFirst :: "MultiBuffer \<Rightarrow> MultiBuffer \<times> Buffer option" where
  "SplitFirst mb = (case mb of [] \<Rightarrow> ([], None) | b # r \<Rightarrow> (r, Some b))"

definition SplitFirstBytes :: "MultiBuffer \<Rightarrow> nat \<Rightarrow> (MultiBuffer \<times> byte list) res" where
  "SplitFirstBytes mb0 n =
     (case SplitFirst mb0 of
        (mb, None) \<Rightarrow> Inr (mb, [])
      | (mb, Some b) \<Rightarrow> (case Bytes b of Inl p \<Rightarrow> Inl p | Inr bs \<Rightarrow> Inr (mb, take n bs)))"

text \<open>
  \<open>Compact\<close>.  \<open>last.ReadFrom(cur)\<close> reads from a buffer, and \<open>common.Must2\<close> panics on an error.
\<close>

fun compact_loop :: "MultiBuffer \<Rightarrow> Buffer \<Rightarrow> MultiBuffer \<Rightarrow> MultiBuffer res" where
  "compact_loop mb2 lst [] = Inr (mb2 @ [lst])"
| "compact_loop mb2 lst (cur # mb) =
     (if Buffer_Len cur > Available lst then compact_loop (mb2 @ [lst]) cur mb
      else if buf_vlen lst < buf_end lst then Inl (GoPanic ''slice bounds out of range'')
      else case go_slice (buf_v lst) (buf_end lst) (buf_vlen lst) of
        Inl p \<Rightarrow> Inl p
      | Inr dst \<Rightarrow>
          (case Buffer_Read cur (length dst) of
             Inl p \<Rightarrow> Inl p
           | Inr (_, _, Some e) \<Rightarrow> Inl (GoPanic ''Must2'')
           | Inr (_, got, None) \<Rightarrow>
               compact_loop mb2
                 (lst\<lparr>buf_v := overwrite (nat (buf_end lst)) got (buf_v lst),
                      buf_end := i32 (buf_end lst + i32 (int (length got)))\<rparr>) mb))"

definition Compact :: "MultiBuffer \<Rightarrow> MultiBuffer res" where
  "Compact mb = (case mb of [] \<Rightarrow> Inr [] | b # r \<Rightarrow> compact_loop [] b r)"

text \<open>\<open>SplitSize\<close>: the rest, and the beginning of at most \<open>sz\<close> bytes.\<close>

fun split_size_loop :: "int \<Rightarrow> int \<Rightarrow> MultiBuffer \<Rightarrow> MultiBuffer \<Rightarrow> MultiBuffer \<times> MultiBuffer" where
  "split_size_loop sz tot r [] = ([], r)"
| "split_size_loop sz tot r (b # mb) =
     (if i32 (tot + Buffer_Len b) > sz then (b # mb, r)
      else split_size_loop sz (i32 (tot + Buffer_Len b)) (r @ [b]) mb)"

definition SplitSize :: "byte list \<Rightarrow> MultiBuffer \<Rightarrow> int \<Rightarrow> (MultiBuffer \<times> MultiBuffer) res" where
  "SplitSize p mb sz =
     (case mb of
        [] \<Rightarrow> Inr ([], [])
      | b0 # mb' \<Rightarrow>
          if Buffer_Len b0 > sz then
            (case Extend (New p) sz of
               Inl e \<Rightarrow> Inl e
             | Inr (b, ext) \<Rightarrow>
                 (case BytesTo b0 sz of
                    Inl e \<Rightarrow> Inl e
                  | Inr src \<Rightarrow>
                      Inr (Advance b0 sz # mb',
                           [b\<lparr>buf_v := overwrite 0 (take (length ext) src) (buf_v b)\<rparr>])))
          else Inr (split_size_loop sz 0 [] mb))"

definition SplitMulti :: "MultiBuffer \<Rightarrow> int \<Rightarrow> MultiBuffer \<times> MultiBuffer" where
  "SplitMulti mb i =
     (if i < int (length mb) \<and> i \<ge> 0 then (take (nat i) mb, drop (nat i) mb) else (mb, []))"

text \<open>\<open>WriteMultiBuffer(writer, mb)\<close>: the state of the writer, the leftover and the error.\<close>

fun WriteMultiBuffer :: "('w \<Rightarrow> byte list \<Rightarrow> 'w \<times> go_error option) \<Rightarrow> 'w \<Rightarrow> MultiBuffer
    \<Rightarrow> ('w \<times> MultiBuffer \<times> go_error option) res" where
  "WriteMultiBuffer wr w [] = Inr (w, [], None)"
| "WriteMultiBuffer wr w (b # mb) =
     (case Bytes b of
        Inl p \<Rightarrow> Inl p
      | Inr bs \<Rightarrow>
          (case wr w bs of
             (w', Some e) \<Rightarrow> Inr (w', mb, Some e)
           | (w', None) \<Rightarrow> WriteMultiBuffer wr w' mb))"

definition MultiBuffer_Len :: "MultiBuffer \<Rightarrow> int" where
  "MultiBuffer_Len mb = foldl (\<lambda>n b. i32 (n + Buffer_Len b)) 0 mb"

fun MultiBuffer_IsEmpty :: "MultiBuffer \<Rightarrow> bool" where
  "MultiBuffer_IsEmpty [] = True"
| "MultiBuffer_IsEmpty (b # mb) = (if \<not> Buffer_IsEmpty b then False else MultiBuffer_IsEmpty mb)"

text \<open>\<open>ReadAllToBytes\<close>; the outer option is the loop of \<open>ReadFrom\<close> not ending.\<close>

definition ReadAllToBytes :: "(nat \<Rightarrow> byte list) \<Rightarrow> byte list \<Rightarrow> byte list res option" where
  "ReadAllToBytes pool s =
     (case ReadFrom pool s of
        None \<Rightarrow> None
      | Some (Inl p) \<Rightarrow> Some (Inl p)
      | Some (Inr (mb, Some e)) \<Rightarrow> Some (Inl e)
      | Some (Inr (mb, None)) \<Rightarrow>
          if MultiBuffer_Len mb = 0 then Some (Inr [])
          else if MultiBuffer_Len mb < 0 then Some (Inl (GoPanic ''makeslice: len out of range''))
          else (case SplitBytes mb (nat (MultiBuffer_Len mb)) of
                  Inl p \<Rightarrow> Some (Inl p)
                | Inr (_, got) \<Rightarrow> Some (Inr (got @ replicate (nat (MultiBuffer_Len mb) - length got) 0))))"

text \<open>\<open>MultiBufferContainer\<close> is its \<open>MultiBuffer\<close>.\<close>

definition Container_Read :: "MultiBuffer \<Rightarrow> nat \<Rightarrow> (MultiBuffer \<times> byte list \<times> go_error option) res" where
  "Container_Read c n =
     (if MultiBuffer_IsEmpty c then Inr (c, [], Some EOF)
      else case SplitBytes c n of Inl p \<Rightarrow> Inl p | Inr (mb, got) \<Rightarrow> Inr (mb, got, None))"

definition Container_ReadMultiBuffer :: "MultiBuffer \<Rightarrow> MultiBuffer \<times> MultiBuffer" where
  "Container_ReadMultiBuffer c = ([], c)"

definition Container_Write :: "(nat \<Rightarrow> byte list) \<Rightarrow> MultiBuffer \<Rightarrow> byte list \<Rightarrow> (MultiBuffer \<times> nat) res" where
  "Container_Write pool c b =
     (case MergeBytes pool c b of Inl p \<Rightarrow> Inl p | Inr c' \<Rightarrow> Inr (c', length b))"

definition Container_WriteMultiBuffer :: "MultiBuffer \<Rightarrow> MultiBuffer \<Rightarrow> MultiBuffer" where
  "Container_WriteMultiBuffer c b = fst (MergeMulti c b)"

definition Container_Close :: "MultiBuffer \<Rightarrow> MultiBuffer" where
  "Container_Close c = ReleaseMulti c"

section \<open>The content of a MultiBuffer\<close>

definition mb_wf :: "MultiBuffer \<Rightarrow> bool" where
  "mb_wf mb \<longleftrightarrow> list_all buf_wf mb"

definition mb_data :: "MultiBuffer \<Rightarrow> byte list" where
  "mb_data mb = concat (map buf_data mb)"

text \<open>The pool hands out arrays below 2 GiB.\<close>

definition pool_ok :: "(nat \<Rightarrow> byte list) \<Rightarrow> bool" where
  "pool_ok pool \<longleftrightarrow> (\<forall>k. length (pool k) < 2 ^ 31)"

lemma mb_wf_simps [simp]:
  "mb_wf []" "mb_wf (b # mb) \<longleftrightarrow> buf_wf b \<and> mb_wf mb" "mb_wf (xs @ ys) \<longleftrightarrow> mb_wf xs \<and> mb_wf ys"
  by (simp_all add: mb_wf_def)

lemma mb_data_simps [simp]:
  "mb_data [] = []" "mb_data (b # mb) = buf_data b @ mb_data mb" "mb_data (xs @ ys) = mb_data xs @ mb_data ys"
  by (simp_all add: mb_data_def)

lemma MultiBuffer_IsEmpty_data [go_simps]: "mb_wf mb \<Longrightarrow> MultiBuffer_IsEmpty mb \<longleftrightarrow> mb_data mb = []"
  by (induction mb) (auto simp: Buffer_IsEmpty_data)

lemma MultiBuffer_Len_acc:
  assumes "mb_wf mb" "a + length (mb_data mb) < 2147483648"
  shows "foldl (\<lambda>n b. i32 (n + Buffer_Len b)) (int a) mb = int (a + length (mb_data mb))"
  using assms
proof (induction mb arbitrary: a)
  case Nil
  then show ?case by simp
next
  case (Cons b mb)
  have "i32 (int a + Buffer_Len b) = int (a + length (buf_data b))"
    using Cons.prems by (simp add: Buffer_Len_data)
  then show ?case
    using Cons.IH [of "a + length (buf_data b)"] Cons.prems by (simp add: add.assoc del: of_nat_add)
qed

lemma MultiBuffer_Len_data [go_simps]:
  "mb_wf mb \<Longrightarrow> length (mb_data mb) < 2147483648 \<Longrightarrow> MultiBuffer_Len mb = int (length (mb_data mb))"
  using MultiBuffer_Len_acc [of mb 0] by (simp add: MultiBuffer_Len_def)

subsection \<open>MergeBytes\<close>

lemma merge_new_spec:
  assumes "pool_ok pool" "mb_wf dest"
  shows "\<exists>mb. merge_new pool k dest src = Inr mb \<and> mb_wf mb \<and> mb_data mb = mb_data dest @ src"
  using assms
proof (induction pool k dest src rule: merge_new.induct)
  case (1 pool k dest)
  then show ?case by simp
next
  case (2 pool k dest x xs)
  have "buf_wf (New (pool k))" using 2(2) by (simp add: pool_ok_def)
  then obtain b where b: "Buffer_Write (New (pool k)) (x # xs) =
      Inr (b, min Size (length (x # xs)), if Size < length (x # xs) then Some ErrBufferFull else None)"
    "buf_wf b" "buf_data b = take Size (x # xs)"
    by (rule Buffer_Write_spec [where d = "x # xs"]) simp
  have "\<exists>mb. merge_new pool (Suc k) (dest @ [b]) (drop (min Size (length (x # xs))) (x # xs)) = Inr mb
      \<and> mb_wf mb \<and> mb_data mb = mb_data (dest @ [b]) @ drop (min Size (length (x # xs))) (x # xs)"
    using 2(1) [OF b(1) refl refl 2(2)] 2(3) b(2) by simp
  moreover have "take Size (x # xs) @ drop (min Size (length (x # xs))) (x # xs) = x # xs"
    by (simp add: min_def)
  ultimately show ?case using b by auto
qed

lemma MergeBytes_spec:
  assumes "pool_ok pool" "mb_wf dest"
  shows "\<exists>mb. MergeBytes pool dest src = Inr mb \<and> mb_wf mb \<and> mb_data mb = mb_data dest @ src"
proof (cases "dest \<noteq> [] \<and> \<not> IsFull (last dest)")
  case False
  then have "MergeBytes pool dest src = merge_new pool 0 dest src"
    unfolding MergeBytes_def by (rule if_not_P)
  then show ?thesis using merge_new_spec [OF assms] by simp
next
  case True
  then obtain ds b where dest: "dest = ds @ [b]" by (metis append_butlast_last_id)
  with assms(2) have wf: "buf_wf b" "mb_wf ds" by simp_all
  from wf(1) obtain b' where b': "Buffer_Write b src =
      Inr (b', min (buf_room b) (length src), if buf_room b < length src then Some ErrBufferFull else None)"
    "buf_wf b'" "buf_data b' = buf_data b @ take (buf_room b) src"
    by (rule Buffer_Write_spec)
  have "\<exists>mb. merge_new pool 0 (ds @ [b']) (drop (min (buf_room b) (length src)) src) = Inr mb
      \<and> mb_wf mb \<and> mb_data mb = mb_data (ds @ [b']) @ drop (min (buf_room b) (length src)) src"
    using wf b'(2) by (intro merge_new_spec [OF assms(1)]) simp
  moreover have "take (buf_room b) src @ drop (min (buf_room b) (length src)) src = src"
    by (auto simp: min_def)
  ultimately show ?thesis using True b' dest by (auto simp: MergeBytes_def)
qed

subsection \<open>SplitBytes, Copy and ReadFrom\<close>

lemma SplitBytes_spec:
  assumes "mb_wf mb"
  shows "\<exists>rest. SplitBytes mb n = Inr (rest, take n (mb_data mb)) \<and> mb_wf rest
    \<and> mb_data rest = drop n (mb_data mb)"
  using assms
proof (induction mb arbitrary: n)
  case Nil
  then show ?case by simp
next
  case (Cons b mb)
  then have "buf_wf b" by simp
  then obtain b' where b': "Buffer_Read b n = Inr (b', take n (buf_data b), if buf_data b = [] then Some EOF else None)"
    "buf_wf b'" "buf_data b' = drop n (buf_data b)"
    by (rule Buffer_Read_spec)
  show ?case
  proof (cases "n < length (buf_data b)")
    case True
    then show ?thesis using b' Cons.prems by (simp add: Buffer_IsEmpty_data)
  next
    case False
    then show ?thesis
      using b' Cons.prems Cons.IH [of "n - length (buf_data b)"] by (auto simp: Buffer_IsEmpty_data)
  qed
qed

lemma MultiBuffer_Copy_spec:
  "mb_wf mb \<Longrightarrow> MultiBuffer_Copy mb n = Inr (take n (mb_data mb))"
proof (induction mb arbitrary: n)
  case Nil
  then show ?case by simp
next
  case (Cons b mb)
  then have wf: "buf_wf b" by simp
  have len: "i32 (int (length (take n (buf_data b)))) = int (length (take n (buf_data b)))"
    using drop_front(5) [OF wf] by simp
  show ?case
    using Cons wf len by (cases "n < length (buf_data b)") (simp_all add: Bytes_data Buffer_Len_data Let_def)
qed

lemma read_from_loop_spec:
  assumes "pool_ok pool" "mb_wf mb" "length s < fuel"
  shows "\<exists>mb'. read_from_loop fuel pool k mb s = Some (Inr (mb', None)) \<and> mb_wf mb' \<and> mb_data mb' = mb_data mb @ s"
  using assms(2,3)
proof (induction fuel arbitrary: k mb s)
  case 0
  then show ?case by simp
next
  case (Suc fuel)
  have "buf_wf (New (pool k))" "Size \<le> buf_room (New (pool k))" using assms(1) by (simp_all add: pool_ok_def)
  then obtain b where b: "ReadFullFrom (New (pool k)) s (int Size) = Inr (b, drop Size s, min Size (length s),
        if Size \<le> length s then None else if s = [] then Some EOF else Some UnexpectedEOF)"
    "buf_wf b" "buf_data b = take Size s"
    by (rule ReadFullFrom_spec [where s = s]) simp
  let ?mb = "if Buffer_IsEmpty b then mb else mb @ [b]"
  have mb: "mb_wf ?mb" "mb_data ?mb = mb_data mb @ take Size s"
    using b Suc.prems(1) by (simp_all add: Buffer_IsEmpty_data)
  show ?case
  proof (cases "Size \<le> length s")
    case True
    have "length (drop Size s) < fuel" using True Suc.prems(2) Size_bounds(1) unfolding length_drop by linarith
    with Suc.IH [OF mb(1) this, of "Suc k"] show ?thesis
      using True b(1) mb(2) by (auto simp: Let_def)
  next
    case False
    then show ?thesis using b(1) mb by (auto simp: Let_def)
  qed
qed

lemma ReadFrom_total:
  "pool_ok pool \<Longrightarrow> \<exists>mb. ReadFrom pool s = Some (Inr (mb, None)) \<and> mb_wf mb \<and> mb_data mb = s"
  using read_from_loop_spec [of pool "[]" s "Suc (length s)" 0] by (simp add: ReadFrom_def)

subsection \<open>SplitSize\<close>

lemma split_size_loop_spec:
  assumes "mb_wf mb" "length (mb_data r) + length (mb_data mb) < 2147483648" "int (length (mb_data r)) \<le> sz"
  shows "\<exists>rest r'. split_size_loop sz (int (length (mb_data r))) r mb = (rest, r @ r') \<and> mb = r' @ rest
    \<and> int (length (mb_data (r @ r'))) \<le> sz
    \<and> (rest \<noteq> [] \<longrightarrow> sz < int (length (mb_data (r @ r')) + length (buf_data (hd rest))))"
  using assms
proof (induction mb arbitrary: r)
  case Nil
  then show ?case by simp
next
  case (Cons b mb)
  then have b: "Buffer_Len b = int (length (buf_data b))" by (simp add: Buffer_Len_data)
  then have sum: "i32 (int (length (mb_data r)) + Buffer_Len b) = int (length (mb_data (r @ [b])))"
    using Cons.prems by simp
  show ?case
  proof (cases "int (length (mb_data (r @ [b]))) > sz")
    case True
    then show ?thesis using Cons.prems sum by simp
  next
    case False
    have "\<exists>rest r'. split_size_loop sz (int (length (mb_data (r @ [b])))) (r @ [b]) mb = (rest, (r @ [b]) @ r')
        \<and> mb = r' @ rest \<and> int (length (mb_data ((r @ [b]) @ r'))) \<le> sz
        \<and> (rest \<noteq> [] \<longrightarrow> sz < int (length (mb_data ((r @ [b]) @ r')) + length (buf_data (hd rest))))"
      using Cons.prems False by (intro Cons.IH) simp_all
    then obtain rest r' where
      "split_size_loop sz (int (length (mb_data (r @ [b])))) (r @ [b]) mb = (rest, r @ (b # r'))"
      "mb = r' @ rest" "int (length (mb_data (r @ (b # r')))) \<le> sz"
      "rest \<noteq> [] \<longrightarrow> sz < int (length (mb_data (r @ (b # r'))) + length (buf_data (hd rest)))"
      by (simp only: append.assoc append_Cons append_Nil) blast
    then show ?thesis using False sum by (intro exI [of _ rest] exI [of _ "b # r'"]) simp
  qed
qed


lemma SplitSize_small_first:
  assumes "mb_wf mb" "length (mb_data mb) < 2147483648" "mb = b # mb'" "\<not> Buffer_Len b > int n"
  shows "\<exists>rest r. SplitSize p mb (int n) = Inr (rest, r) \<and> mb = r @ rest \<and> r \<noteq> []
    \<and> length (mb_data r) \<le> n
    \<and> (rest \<noteq> [] \<longrightarrow> n < length (mb_data r) + length (buf_data (hd rest)))"
proof -
  have wf: "buf_wf b" using assms(1,3) by simp
  obtain rest r where spl: "split_size_loop (int n) 0 [] mb = (rest, r)" "mb = r @ rest"
    "int (length (mb_data r)) \<le> int n"
    "rest \<noteq> [] \<longrightarrow> int n < int (length (mb_data r) + length (buf_data (hd rest)))"
    using split_size_loop_spec [of mb "[]" "int n"] assms(1,2) by auto
  have "r \<noteq> []"
    using spl(2,4) assms(3,4) wf by (auto simp: Buffer_Len_data)
  moreover have "SplitSize p mb (int n) = Inr (rest, r)"
    using spl(1) assms(3,4) by (simp add: SplitSize_def del: split_size_loop.simps)
  ultimately show ?thesis using spl(2-4) by (metis of_nat_le_iff of_nat_less_iff)
qed

lemma SplitSize_big_first:
  assumes "mb_wf (b0 # mb)" "n < length (buf_data b0)" "n \<le> Size" "length p < 2 ^ 31"
  shows "\<exists>b r. SplitSize p (b0 # mb) (int n) = Inr (b # mb, [r]) \<and> buf_wf b \<and> buf_wf r
    \<and> buf_data r = take n (buf_data b0) \<and> buf_data b = drop n (buf_data b0)"
proof -
  have wf: "buf_wf b0" "buf_wf (New p)" using assms(1,4) by simp_all
  obtain b where ext: "Extend (New p) (int n) = Inr (b, replicate n 0)" "buf_wf b"
      "buf_data b = replicate n 0" "buf_room b = Size - n"
    using Extend_spec [OF wf(2), of n] assms(3) by auto
  have start: "buf_start b = 0"
    using ext(1) by (auto simp: Extend_def Let_def split: if_splits sum.splits)
  have fin: "buf_end b = int n" using data_length [OF ext(2)] ext(3) start by simp
  obtain b0' where "Buffer_ReadBytes b0 (int n) = Inr (b0', take n (buf_data b0), None)"
    using Buffer_ReadBytes_spec [OF wf(1)] assms(2) by (metis less_imp_le)
  then have "go_slice (buf_v b0) (buf_start b0) (i32 (buf_start b0 + int n)) = Inr (take n (buf_data b0))"
    by (auto simp: Buffer_ReadBytes_def split: if_splits sum.splits)
  then have src: "BytesTo b0 (int n) = Inr (take n (buf_data b0))"
    by (simp add: BytesTo_def)
  let ?r = "b\<lparr>buf_v := overwrite 0 (take n (buf_data b0)) (buf_v b)\<rparr>"
  have len: "n \<le> length (buf_v b)" using ext(2) fin by (simp add: buf_wf_def)
  have "buf_wf ?r" "buf_data ?r = take n (buf_data b0)"
    using ext(2) len assms(2) start fin by (simp_all add: buf_wf_def buf_data_def)
  moreover have "SplitSize p (b0 # mb) (int n) = Inr (Advance b0 (int n) # mb, [?r])"
    using assms(2) wf(1) ext(1) src by (simp add: SplitSize_def Buffer_Len_data)
  ultimately show ?thesis
    using Advance_spec [OF wf(1), of n] assms(2) by auto
qed

subsection \<open>Compact\<close>

lemma compact_step:
  assumes "buf_wf lst" "buf_wf cur" "buf_data cur \<noteq> []" "\<not> Buffer_Len cur > Available lst"
  shows "\<exists>lst'. compact_loop mb2 lst (cur # mb) = compact_loop mb2 lst' mb \<and> buf_wf lst'
    \<and> buf_data lst' = buf_data lst @ buf_data cur"
proof -
  have fits: "length (buf_data cur) \<le> buf_room lst"
    using assms by (simp add: Buffer_Len_data Available_room)
  obtain dst where dst: "go_slice (buf_v lst) (buf_end lst) (buf_vlen lst) = Inr dst" "length dst = buf_room lst"
    using go_slice_room [OF assms(1) order.refl] vlen_room [OF assms(1)] by metis
  obtain c' where rd: "Buffer_Read cur (length dst) = Inr (c', take (length dst) (buf_data cur), None)"
    using Buffer_Read_spec [OF assms(2), of "length dst"] assms(3) by auto
  have "take (length dst) (buf_data cur) = buf_data cur" using fits dst(2) by simp
  then show ?thesis
    using assms(4) dst rd fits append_at_end [OF assms(1) fits] wf_end_small [OF assms(1) fits]
      vlen_room [OF assms(1), THEN conjunct2]
    by (intro exI [of _ "lst\<lparr>buf_v := overwrite (nat (buf_end lst)) (buf_data cur) (buf_v lst),
          buf_end := buf_end lst + int (length (buf_data cur))\<rparr>"]) simp
qed

lemma compact_loop_spec:
  assumes "mb_wf mb2" "buf_wf lst" "mb_wf mb" "\<forall>b \<in> set mb. buf_data b \<noteq> []"
  shows "\<exists>mb'. compact_loop mb2 lst mb = Inr mb' \<and> mb_wf mb'
    \<and> mb_data mb' = mb_data mb2 @ buf_data lst @ mb_data mb \<and> length mb' \<le> length mb2 + 1 + length mb"
  using assms
proof (induction mb arbitrary: mb2 lst)
  case Nil
  then show ?case by simp
next
  case (Cons cur mb)
  show ?case
  proof (cases "Buffer_Len cur > Available lst")
    case True
    then show ?thesis using Cons.prems Cons.IH [of "mb2 @ [lst]" cur] by auto
  next
    case False
    then obtain lst' where "compact_loop mb2 lst (cur # mb) = compact_loop mb2 lst' mb"
      "buf_wf lst'" "buf_data lst' = buf_data lst @ buf_data cur"
      using Cons.prems compact_step [of lst cur mb2 mb] by auto
    then show ?thesis using Cons.prems Cons.IH [of mb2 lst'] by auto
  qed
qed

lemma compact_loop_empty_panics:
  assumes "buf_wf lst" "buf_wf cur" "buf_data cur = []"
  shows "panics (compact_loop mb2 lst (cur # mb))"
proof -
  obtain dst where "go_slice (buf_v lst) (buf_end lst) (buf_vlen lst) = Inr dst"
    using go_slice_room [OF assms(1) order.refl] vlen_room [OF assms(1)] by metis
  moreover have "Buffer_Read cur n = Inr (cur, [], Some EOF)" for n
    using assms(2,3) by (simp add: Buffer_Read_def Buffer_Len_data)
  ultimately show ?thesis
    using assms vlen_room [OF assms(1), THEN conjunct2] by (simp add: Buffer_Len_data Available_room)
qed

section \<open>A MultiBuffer as a byte queue\<close>

text \<open>
  The contract of a byte queue: bytes are appended at the end and taken from the front, and an
  empty queue answers a read with \<open>EOF\<close>.
\<close>

locale byte_queue =
  fixes put :: "'q \<Rightarrow> byte list \<Rightarrow> ('q \<times> nat) res"
    and get :: "'q \<Rightarrow> nat \<Rightarrow> ('q \<times> byte list \<times> go_error option) res"
    and ok :: "'q \<Rightarrow> bool"
    and bytes :: "'q \<Rightarrow> byte list"
  assumes put_spec: "ok q \<Longrightarrow> \<exists>q'. put q d = Inr (q', length d) \<and> ok q' \<and> bytes q' = bytes q @ d"
    and get_spec: "ok q \<Longrightarrow>
      \<exists>q'. get q n = Inr (q', take n (bytes q), if bytes q = [] then Some EOF else None)
        \<and> ok q' \<and> bytes q' = drop n (bytes q)"

text \<open>A client's sequence of writes and reads; the result holds everything that was read.\<close>

datatype queue_op = Put "byte list" | Get nat

fun run_queue :: "('q \<Rightarrow> byte list \<Rightarrow> ('q \<times> nat) res) \<Rightarrow> ('q \<Rightarrow> nat \<Rightarrow> ('q \<times> byte list \<times> go_error option) res)
    \<Rightarrow> 'q \<Rightarrow> queue_op list \<Rightarrow> ('q \<times> byte list) res" where
  "run_queue put get q [] = Inr (q, [])"
| "run_queue put get q (Put d # ops) =
     (case put q d of Inl p \<Rightarrow> Inl p | Inr (q', _) \<Rightarrow> run_queue put get q' ops)"
| "run_queue put get q (Get n # ops) =
     (case get q n of
        Inl p \<Rightarrow> Inl p
      | Inr (q', got, _) \<Rightarrow>
          (case run_queue put get q' ops of Inl p \<Rightarrow> Inl p | Inr (q'', r) \<Rightarrow> Inr (q'', got @ r)))"

fun written :: "queue_op list \<Rightarrow> byte list" where
  "written [] = []"
| "written (Put d # ops) = d @ written ops"
| "written (Get n # ops) = written ops"

context byte_queue
begin

lemma run_fifo:
  "ok q \<Longrightarrow> \<exists>q' got. run_queue put get q ops = Inr (q', got) \<and> ok q'
     \<and> got @ bytes q' = bytes q @ written ops"
proof (induction ops arbitrary: q)
  case Nil
  then show ?case by simp
next
  case (Cons op ops)
  show ?case
  proof (cases op)
    case (Put d)
    obtain q' where "put q d = Inr (q', length d)" "ok q'" "bytes q' = bytes q @ d"
      using put_spec [OF Cons.prems] by blast
    then show ?thesis using Cons.IH [of q'] Put by auto
  next
    case (Get n)
    obtain q' where q': "get q n = Inr (q', take n (bytes q), if bytes q = [] then Some EOF else None)"
        "ok q'" "bytes q' = drop n (bytes q)"
      using get_spec [OF Cons.prems] by blast
    obtain q'' got where "run_queue put get q' ops = Inr (q'', got)" "ok q''"
        "got @ bytes q'' = bytes q' @ written ops"
      using Cons.IH [OF q'(2)] by blast
    then show ?thesis
      using q' Get by simp
  qed
qed

end

text \<open>The container together with the memory the pool hands out.\<close>

definition pooled_put :: "(nat \<Rightarrow> byte list) \<times> MultiBuffer \<Rightarrow> byte list
    \<Rightarrow> (((nat \<Rightarrow> byte list) \<times> MultiBuffer) \<times> nat) res" where
  "pooled_put pc d = (case Container_Write (fst pc) (snd pc) d of Inl p \<Rightarrow> Inl p | Inr (c, n) \<Rightarrow> Inr ((fst pc, c), n))"

definition pooled_get :: "(nat \<Rightarrow> byte list) \<times> MultiBuffer \<Rightarrow> nat
    \<Rightarrow> (((nat \<Rightarrow> byte list) \<times> MultiBuffer) \<times> byte list \<times> go_error option) res" where
  "pooled_get pc n = (case Container_Read (snd pc) n of Inl p \<Rightarrow> Inl p | Inr (c, r) \<Rightarrow> Inr ((fst pc, c), r))"

interpretation container: byte_queue pooled_put pooled_get
  "\<lambda>pc. pool_ok (fst pc) \<and> mb_wf (snd pc)" "\<lambda>pc. mb_data (snd pc)"
proof (unfold_locales, goal_cases)
  case (1 q d)
  then show ?case
    using MergeBytes_spec [of "fst q" "snd q" d] by (auto simp: pooled_put_def Container_Write_def)
next
  case (2 q n)
  then show ?case
    using SplitBytes_spec [of "snd q" n]
    by (cases q) (auto simp: pooled_get_def Container_Read_def MultiBuffer_IsEmpty_data)
qed

section \<open>Properties\<close>





text \<open>
  C16: \<open>Compact\<close> keeps the content and never needs more buffers, provided every buffer after the
  first holds at least one byte.
\<close>

theorem Compact_keeps_content:
  assumes "mb_wf mb" "\<forall>b \<in> set (tl mb). buf_data b \<noteq> []"
  shows "\<exists>mb'. Compact mb = Inr mb' \<and> mb_wf mb' \<and> mb_data mb' = mb_data mb \<and> length mb' \<le> length mb"
  using assms compact_loop_spec [of "[]" "hd mb" "tl mb"] by (cases mb) (auto simp: Compact_def)

theorem Compact_keeps_content_witness:
  "\<exists>mb'. Compact [FromBytes [1] 1, FromBytes [2, 3] 2] = Inr mb' \<and> mb_wf mb'
    \<and> mb_data mb' = mb_data [FromBytes [1] 1, FromBytes [2, 3] 2] \<and> length mb' \<le> length [FromBytes [1] 1, FromBytes [2, 3] 2]"
  by (rule Compact_keeps_content) (simp_all add: buf_wf_def buf_data_def FromBytes_def segment_def)

text \<open>
  C27: without that proviso \<open>Compact\<close> panics: an empty buffer in second place makes
  \<open>last.ReadFrom(curr)\<close> return \<open>io.EOF\<close>, which \<open>common.Must2\<close> turns into a panic.
\<close>

theorem Compact_panics_on_empty:
  assumes "buf_wf b" "buf_wf cur" "buf_data cur = []"
  shows "panics (Compact (b # cur # mb))"
  using compact_loop_empty_panics [OF assms] by (simp add: Compact_def)

theorem Compact_panics_on_empty_witness:
  "panics (Compact (FromBytes [1] 1 # New [] # []))"
  by (rule Compact_panics_on_empty) (simp_all add: FromBytes_wf)

end
