(* ===== verification/Address_Parser.thy ===== *)
theory Address_Parser
  imports Buf
begin

text \<open>
  \<open>common/protocol/address.go\<close> and \<open>common/serial/serial.go\<close>: the address serializer that VMess,
  VLESS, Shadowsocks, SOCKS and Mux share.  A reader is the list of bytes it still delivers; the
  staging buffer is a \<open>Buffer\<close>; a writer is any state with a write function, as \<open>io.Writer\<close>
  is an interface.  A call that fails is \<open>Inl\<close> of its error.
\<close>

section \<open>serial.go\<close>

definition ReadUint16 :: "byte list \<Rightarrow> (u16 \<times> byte list) res" where
  "ReadUint16 s = (case read_full 2 s of Inl e \<Rightarrow> Inl e | Inr (b, s') \<Rightarrow> Inr (get_u16 b, s'))"

definition WriteUint16 :: "('w \<Rightarrow> byte list \<Rightarrow> ('w \<times> nat \<times> go_error option) res) \<Rightarrow> 'w \<Rightarrow> u16
    \<Rightarrow> ('w \<times> nat \<times> go_error option) res" where
  "WriteUint16 wr w val = wr w (put_u16 val)"

definition WriteUint64 :: "('w \<Rightarrow> byte list \<Rightarrow> ('w \<times> nat \<times> go_error option) res) \<Rightarrow> 'w \<Rightarrow> u64
    \<Rightarrow> ('w \<times> nat \<times> go_error option) res" where
  "WriteUint64 wr w val = wr w (put_u64 val)"

section \<open>Building a parser\<close>

definition afInvalid :: byte where "afInvalid = 255"

record addressParser =
  addrTypeMap :: "AddressFamily list"
  addrByteMap :: "byte list"
  typeParser :: "(byte \<Rightarrow> byte) option"

text \<open>\<open>option\<close> is the parser under construction with the flag \<open>portFirst\<close>.\<close>

record parser_option = addressParser +
  portFirst :: bool

datatype AddressOption = PortThenAddress | AddressFamilyByte byte AddressFamily
  | WithAddressTypeParser "byte \<Rightarrow> byte"

fun apply_option :: "AddressOption \<Rightarrow> parser_option \<Rightarrow> parser_option res" where
  "apply_option PortThenAddress p = Inr (p\<lparr>portFirst := True\<rparr>)"
| "apply_option (AddressFamilyByte b f) p =
     (if b \<ge> 16 then Inl (GoPanic ''address family byte too big'')
      else if f \<ge> 16 then Inl (GoPanic ''index out of range'')
      else Inr (p\<lparr>addrTypeMap := (addrTypeMap p)[unat b := f], addrByteMap := (addrByteMap p)[unat f := b]\<rparr>))"
| "apply_option (WithAddressTypeParser atp) p = Inr (p\<lparr>typeParser := Some atp\<rparr>)"

fun apply_options :: "AddressOption list \<Rightarrow> parser_option \<Rightarrow> parser_option res" where
  "apply_options [] p = Inr p"
| "apply_options (opt # opts) p = (case apply_option opt p of Inl e \<Rightarrow> Inl e | Inr p' \<Rightarrow> apply_options opts p')"

text \<open>The two implementations of \<open>AddressSerializer\<close>.\<close>

datatype AddressSerializer = portFirstAddressParser addressParser | portLastAddressParser addressParser

definition NewAddressParser :: "AddressOption list \<Rightarrow> AddressSerializer res" where
  "NewAddressParser options =
     (case apply_options options
             \<lparr>addrTypeMap = replicate 16 afInvalid, addrByteMap = replicate 16 afInvalid,
              typeParser = None, portFirst = False\<rparr> of
        Inl e \<Rightarrow> Inl e
      | Inr opt \<Rightarrow>
          let ap = addressParser.truncate opt
          in Inr (if portFirst opt then portFirstAddressParser ap else portLastAddressParser ap))"

section \<open>Reading\<close>

definition readPort :: "Buffer \<Rightarrow> byte list \<Rightarrow> (Buffer \<times> byte list \<times> Port) res" where
  "readPort b s =
     (case ReadFullFrom b s 2 of
        Inl p \<Rightarrow> Inl p
      | Inr (_, _, _, Some e) \<Rightarrow> Inl e
      | Inr (b1, s1, _, None) \<Rightarrow>
          (case BytesFrom b1 (-2) of
             Inl p \<Rightarrow> Inl p
           | Inr bs \<Rightarrow> (case PortFromBytes bs of Inl p \<Rightarrow> Inl p | Inr port \<Rightarrow> Inr (b1, s1, port))))"

definition maybeIPPrefix :: "char \<Rightarrow> bool" where
  "maybeIPPrefix b \<longleftrightarrow> b = CHR ''['' \<or> is_digit b"

text \<open>
  The loop runs over runes; every rune of more than one byte is outside the allowed set, so it
  is the same test on each byte.
\<close>

definition valid_domain_char :: "char \<Rightarrow> bool" where
  "valid_domain_char c \<longleftrightarrow> isAlphaNum c \<or> c = CHR ''-'' \<or> c = CHR ''.'' \<or> c = CHR ''_''"

definition isValidDomain :: "string \<Rightarrow> bool" where
  "isValidDomain d \<longleftrightarrow> list_all valid_domain_char d"

text \<open>Read \<open>n\<close> bytes into the buffer and look at the last \<open>n\<close> bytes of it.\<close>

definition read_last :: "Buffer \<Rightarrow> byte list \<Rightarrow> int \<Rightarrow> (Buffer \<times> byte list \<times> byte list) res" where
  "read_last b s n =
     (case ReadFullFrom b s n of
        Inl p \<Rightarrow> Inl p
      | Inr (_, _, _, Some e) \<Rightarrow> Inl e
      | Inr (b1, s1, _, None) \<Rightarrow>
          (case BytesFrom b1 (- n) of Inl p \<Rightarrow> Inl p | Inr bs \<Rightarrow> Inr (b1, s1, bs)))"

text \<open>Read one byte into the buffer and look at it.\<close>

definition read_one :: "Buffer \<Rightarrow> byte list \<Rightarrow> (Buffer \<times> byte list \<times> byte) res" where
  "read_one b s =
     (case ReadFullFrom b s 1 of
        Inl p \<Rightarrow> Inl p
      | Inr (_, _, _, Some e) \<Rightarrow> Inl e
      | Inr (b1, s1, _, None) \<Rightarrow>
          (case Byte b1 (i32 (Buffer_Len b1 - 1)) of Inl p \<Rightarrow> Inl p | Inr x \<Rightarrow> Inr (b1, s1, x)))"

text \<open>The tail of the domain branch: the name may be an IP in text form, or must be a valid domain.\<close>

definition parse_domain :: "string \<Rightarrow> address option res" where
  "parse_domain domain =
     (let check = (if isValidDomain domain then Inr (Some (DomainAddress domain)) else Inl (Err ''invalid domain name: ''))
      in case domain of
           [] \<Rightarrow> Inl (GoPanic ''index out of range'')
         | c # _ \<Rightarrow>
             if maybeIPPrefix c then
               (case ParseAddress domain of
                  None \<Rightarrow> Inl nil_deref
                | Some a \<Rightarrow> if IsIP (addr_Family a) then Inr (Some a) else check)
             else check)"

definition readAddress :: "addressParser \<Rightarrow> Buffer \<Rightarrow> byte list \<Rightarrow> (Buffer \<times> byte list \<times> address option) res" where
  "readAddress p b s =
     (case read_one b s of
        Inl e \<Rightarrow> Inl e
      | Inr (b1, s1, t0) \<Rightarrow>
          let addrType = (case typeParser p of None \<Rightarrow> t0 | Some f \<Rightarrow> f t0)
          in if addrType \<ge> 16 then Inl (Err ''unknown address type: '')
             else
               let addrFamily = addrTypeMap p ! unat addrType
               in if addrFamily = afInvalid then Inl (Err ''unknown address type: '')
                  else if addrFamily = AddressFamilyIPv4 then
                    (case read_last b1 s1 4 of
                       Inl e \<Rightarrow> Inl e
                     | Inr (b2, s2, ip) \<Rightarrow> Inr (b2, s2, IPAddress ip))
                  else if addrFamily = AddressFamilyIPv6 then
                    (case read_last b1 s1 16 of
                       Inl e \<Rightarrow> Inl e
                     | Inr (b2, s2, ip) \<Rightarrow> Inr (b2, s2, IPAddress ip))
                  else if addrFamily = AddressFamilyDomain then
                    (case read_one b1 s1 of
                       Inl e \<Rightarrow> Inl e
                     | Inr (b2, s2, l) \<Rightarrow>
                         (case read_last b2 s2 (uint l) of
                            Inl e \<Rightarrow> Inl e
                          | Inr (b3, s3, bs) \<Rightarrow>
                              (case parse_domain (string_of bs) of Inl e \<Rightarrow> Inl e | Inr a \<Rightarrow> Inr (b3, s3, a))))
                  else Inl (GoPanic ''impossible case''))"

text \<open>
  \<open>ReadAddressPort(buffer, input)\<close>; without a buffer the call takes one from the pool (\<open>pool\<close> is
  the memory it gets).  The result is the buffer, the rest of the input, the address and the port.
\<close>

definition ReadAddressPort :: "byte list \<Rightarrow> AddressSerializer \<Rightarrow> Buffer option \<Rightarrow> byte list
    \<Rightarrow> (Buffer \<times> byte list \<times> address option \<times> Port) res" where
  "ReadAddressPort pool ser buffer s =
     (let b = (case buffer of None \<Rightarrow> New pool | Some b \<Rightarrow> b)
      in case ser of
           portFirstAddressParser ap \<Rightarrow>
             (case readPort b s of
                Inl e \<Rightarrow> Inl e
              | Inr (b1, s1, port) \<Rightarrow>
                  (case readAddress ap b1 s1 of
                     Inl e \<Rightarrow> Inl e
                   | Inr (b2, s2, addr) \<Rightarrow> Inr (b2, s2, addr, port)))
         | portLastAddressParser ap \<Rightarrow>
             (case readAddress ap b s of
                Inl e \<Rightarrow> Inl e
              | Inr (b1, s1, addr) \<Rightarrow>
                  (case readPort b1 s1 of
                     Inl e \<Rightarrow> Inl e
                   | Inr (b2, s2, port) \<Rightarrow> Inr (b2, s2, addr, port))))"

section \<open>Writing\<close>

definition writePort :: "('w \<Rightarrow> byte list \<Rightarrow> ('w \<times> nat \<times> go_error option) res) \<Rightarrow> 'w \<Rightarrow> Port
    \<Rightarrow> ('w \<times> go_error option) res" where
  "writePort wr w port =
     (case WriteUint16 wr w port of Inl p \<Rightarrow> Inl p | Inr (w', _, e) \<Rightarrow> Inr (w', e))"

definition isDomainTooLong :: "string \<Rightarrow> bool" where
  "isDomainTooLong d \<longleftrightarrow> length d > 256"

definition writeAddress :: "addressParser \<Rightarrow> ('w \<Rightarrow> byte list \<Rightarrow> ('w \<times> nat \<times> go_error option) res) \<Rightarrow> 'w
    \<Rightarrow> address \<Rightarrow> ('w \<times> go_error option) res" where
  "writeAddress p wr w a =
     (let tb = addrByteMap p ! unat (addr_Family a)
      in if tb = afInvalid then Inr (w, Some (Err ''unknown address family''))
         else case a of
           domainAddress d \<Rightarrow>
             if isDomainTooLong d then Inr (w, Some (Err ''Super long domain is not supported: ''))
             else write_all wr w [[tb, of_nat (length d)], bytes_of d]
         | ipv4Address ip \<Rightarrow> write_all wr w [[tb], ip]
         | ipv6Address ip \<Rightarrow> write_all wr w [[tb], ip])"

definition WriteAddressPort :: "AddressSerializer \<Rightarrow> ('w \<Rightarrow> byte list \<Rightarrow> ('w \<times> nat \<times> go_error option) res)
    \<Rightarrow> 'w \<Rightarrow> address \<Rightarrow> Port \<Rightarrow> ('w \<times> go_error option) res" where
  "WriteAddressPort ser wr w addr port =
     (case ser of
        portFirstAddressParser ap \<Rightarrow>
          (case writePort wr w port of
             Inl p \<Rightarrow> Inl p
           | Inr (w', Some e) \<Rightarrow> Inr (w', Some e)
           | Inr (w', None) \<Rightarrow> writeAddress ap wr w' addr)
      | portLastAddressParser ap \<Rightarrow>
          (case writeAddress ap wr w addr of
             Inl p \<Rightarrow> Inl p
           | Inr (w', Some e) \<Rightarrow> Inr (w', Some e)
           | Inr (w', None) \<Rightarrow> writePort wr w' port))"

section \<open>Reading back what was staged\<close>

lemma Byte_data:
  assumes "buf_wf b" "i < length (buf_data b)"
  shows "Byte b (int i) = Inr (buf_data b ! i)"
proof -
  from assms(1) obtain s e l where b: "buf_start b = int s" "buf_end b = int e" "buf_vlen b = int l"
    "s \<le> e" "e \<le> l" "l \<le> length (buf_v b)" "length (buf_v b) < 2147483648"
    "buf_data b = segment s e (buf_v b)" by (rule buf_wfE)
  have "nat (int s + int i) = s + i" by simp
  then show ?thesis using b assms(2) by (simp add: Byte_def go_index_def segment_nth)
qed

lemma BytesFrom_data:
  assumes "buf_wf b" "buf_data b = xs @ ys" "ys \<noteq> []"
  shows "BytesFrom b (- int (length ys)) = Inr ys"
proof -
  from assms(1) obtain s e l where b: "buf_start b = int s" "buf_end b = int e" "buf_vlen b = int l"
    "s \<le> e" "e \<le> l" "l \<le> length (buf_v b)" "length (buf_v b) < 2147483648"
    "buf_data b = segment s e (buf_v b)" by (rule buf_wfE)
  have len: "e = s + length xs + length ys"
    using arg_cong [OF assms(2), of length] b by simp
  have n: "nat (int s + int (length xs)) = s + length xs"
    "nat (int s + int (length xs) + int (length ys)) = s + length xs + length ys" by simp_all
  have "segment (s + length xs) e (buf_v b) = drop (length xs) (buf_data b)"
    using b by (simp add: segment_drop)
  also have "\<dots> = ys" using assms(2) by simp
  finally have "segment (s + length xs) e (buf_v b) = ys" .
  moreover have "i32 (- int (length ys) + Buffer_Len b) = int (length xs)"
    using b len assms(1,2) by (simp add: Buffer_Len_data)
  ultimately show ?thesis
    using b len assms(3) by (simp add: BytesFrom_def Let_def go_slice_def n)
qed

lemma read_one_spec:
  assumes "buf_wf b" "1 \<le> buf_room b"
  shows "\<exists>b'. read_one b (x # r) = Inr (b', r, x) \<and> buf_wf b' \<and> buf_data b' = buf_data b @ [x]
    \<and> buf_room b' = buf_room b - 1"
proof -
  obtain b' where b': "ReadFullFrom b (x # r) 1 = Inr (b', r, 1, None)" "buf_wf b'"
    "buf_data b' = buf_data b @ [x]" "buf_room b' = buf_room b - 1"
    using ReadFullFrom_spec [OF assms, of "x # r"] by auto
  have "Byte b' (int (length (buf_data b))) = Inr x"
    using Byte_data [OF b'(2), of "length (buf_data b)"] b'(3) by simp
  moreover have "i32 (Buffer_Len b' - 1) = int (length (buf_data b))"
    using b' drop_front(5) [OF assms(1) order.refl] by (simp add: Buffer_Len_data)
  ultimately show ?thesis using b' by (simp add: read_one_def)
qed

lemma read_last_spec:
  assumes "buf_wf b" "length d \<le> buf_room b" "d \<noteq> []" "n = int (length d)"
  shows "\<exists>b'. read_last b (d @ r) n = Inr (b', r, d) \<and> buf_wf b' \<and> buf_data b' = buf_data b @ d
    \<and> buf_room b' = buf_room b - length d"
proof -
  obtain b' where b': "ReadFullFrom b (d @ r) n = Inr (b', r, length d, None)" "buf_wf b'"
    "buf_data b' = buf_data b @ d" "buf_room b' = buf_room b - length d"
    using ReadFullFrom_spec [OF assms(1,2), of "d @ r"] assms(4) by auto
  then show ?thesis using BytesFrom_data [OF b'(2,3) assms(3)] assms(4) by (simp add: read_last_def)
qed

lemma put_u16_nonempty: "put_u16 p \<noteq> []"
  using put_lengths(1) [of p] by (metis list.size(3) zero_neq_numeral)

lemma readPort_spec:
  assumes "buf_wf b" "2 \<le> buf_room b"
  shows "\<exists>b'. readPort b (put_u16 p @ r) = Inr (b', r, p) \<and> buf_wf b' \<and> buf_room b' = buf_room b - 2"
proof -
  obtain b' where "read_last b (put_u16 p @ r) 2 = Inr (b', r, put_u16 p)" "buf_wf b'"
    "buf_room b' = buf_room b - 2"
    using read_last_spec [OF assms(1), of "put_u16 p" 2 r] assms(2) by (auto simp: put_u16_nonempty)
  then show ?thesis
    by (auto simp: readPort_def read_last_def PortFromBytes_def split: sum.splits option.splits prod.splits)
qed

section \<open>The configuration of a parser\<close>

text \<open>The family bytes an option list declares, and when a list is a sensible configuration.\<close>

fun family_bytes :: "AddressOption list \<Rightarrow> (byte \<times> AddressFamily) list" where
  "family_bytes [] = []"
| "family_bytes (AddressFamilyByte b f # opts) = (b, f) # family_bytes opts"
| "family_bytes (_ # opts) = family_bytes opts"

fun option_ok :: "AddressOption \<Rightarrow> bool" where
  "option_ok PortThenAddress = True"
| "option_ok (AddressFamilyByte b f) = (b < 16 \<and> f < 16)"
| "option_ok (WithAddressTypeParser atp) = list_all (\<lambda>n. atp (of_nat n) = of_nat n) [0..<16]"

definition options_ok :: "AddressOption list \<Rightarrow> bool" where
  "options_ok opts \<longleftrightarrow> list_all option_ok opts
     \<and> distinct (map fst (family_bytes opts)) \<and> distinct (map snd (family_bytes opts))"

definition type_of :: "('a addressParser_scheme) \<Rightarrow> byte \<Rightarrow> byte" where
  "type_of p t = (case typeParser p of None \<Rightarrow> t | Some f \<Rightarrow> f t)"

definition family_ok :: "('a addressParser_scheme) \<Rightarrow> byte \<times> AddressFamily \<Rightarrow> bool" where
  "family_ok p bf \<longleftrightarrow> (case bf of (b, f) \<Rightarrow>
     b < 16 \<and> f < 16 \<and> addrTypeMap p ! unat b = f \<and> addrByteMap p ! unat f = b)"

definition parser_ok :: "('a addressParser_scheme) \<Rightarrow> bool" where
  "parser_ok p \<longleftrightarrow> length (addrTypeMap p) = 16 \<and> length (addrByteMap p) = 16
     \<and> (\<forall>t < 16. type_of p t = t)"

lemma byte_16:
  assumes "list_all (\<lambda>n. P (of_nat n)) [0..<16]" "t < (16 :: byte)"
  shows "P t"
proof -
  have "unat t \<in> set [0..<16]" using assms(2) by (simp only: set_upt word_less_nat_alt) simp
  then have "P (of_nat (unat t))" using assms(1) unfolding list_all_iff by blast
  then show ?thesis by simp
qed

lemma apply_option_ok:
  assumes "option_ok opt" "parser_ok p" "\<forall>bf \<in> set done. family_ok p bf"
    "\<forall>(b, f) \<in> set (family_bytes [opt]). b \<notin> fst ` set done \<and> f \<notin> snd ` set done"
  shows "\<exists>p'. apply_option opt p = Inr p' \<and> parser_ok p'
    \<and> (\<forall>bf \<in> set (done @ family_bytes [opt]). family_ok p' bf)"
proof (cases opt)
  case PortThenAddress
  then show ?thesis using assms by (auto simp: parser_ok_def type_of_def family_ok_def)
next
  case (WithAddressTypeParser atp)
  then have "\<forall>t < 16. atp t = t"
    using assms(1) byte_16 [of "\<lambda>t. atp t = t"] unfolding WithAddressTypeParser option_ok.simps by blast
  then show ?thesis
    using WithAddressTypeParser assms(2,3) by (auto simp: parser_ok_def type_of_def family_ok_def)
next
  case (AddressFamilyByte b f)
  then have lt: "b < 16" "f < 16" "unat b < 16" "unat f < 16"
    using assms(1) by (simp_all add: word_less_nat_alt)
  let ?p = "p\<lparr>addrTypeMap := (addrTypeMap p)[unat b := f], addrByteMap := (addrByteMap p)[unat f := b]\<rparr>"
  have "family_ok ?p (c, g)" if "(c, g) \<in> set done" for c g
  proof -
    have "c \<noteq> b" "g \<noteq> f" using that assms(4) AddressFamilyByte by force+
    then have "unat b \<noteq> unat c" "unat f \<noteq> unat g" by (simp_all add: word_unat_eq_iff)
    then show ?thesis using that assms(3) by (auto simp: family_ok_def)
  qed
  moreover have "family_ok ?p (b, f)" "parser_ok ?p"
    using lt assms(2) by (simp_all add: parser_ok_def type_of_def family_ok_def)
  ultimately show ?thesis
    using AddressFamilyByte lt by (auto simp: not_le)
qed

lemma apply_options_ok:
  assumes "list_all option_ok opts" "parser_ok p" "\<forall>bf \<in> set done. family_ok p bf"
    "distinct (map fst (done @ family_bytes opts))" "distinct (map snd (done @ family_bytes opts))"
  shows "\<exists>p'. apply_options opts p = Inr p' \<and> parser_ok p'
    \<and> (\<forall>bf \<in> set (done @ family_bytes opts). family_ok p' bf)"
  using assms
proof (induction opts arbitrary: p "done")
  case Nil
  then show ?case by simp
next
  case (Cons opt opts)
  have split: "family_bytes (opt # opts) = family_bytes [opt] @ family_bytes opts" by (cases opt) simp_all
  have fresh: "\<forall>(b, f) \<in> set (family_bytes [opt]). b \<notin> fst ` set done \<and> f \<notin> snd ` set done"
    using Cons.prems(4,5) unfolding split by (cases opt) auto
  obtain p' where p': "apply_option opt p = Inr p'" "parser_ok p'"
      "\<forall>bf \<in> set (done @ family_bytes [opt]). family_ok p' bf"
    using apply_option_ok [OF _ Cons.prems(2,3) fresh] Cons.prems(1) by auto
  then show ?case
    using Cons.IH [OF _ p'(2,3)] Cons.prems unfolding split by simp
qed

text \<open>The parser inside a serializer.\<close>

fun serializer_parser :: "AddressSerializer \<Rightarrow> addressParser" where
  "serializer_parser (portFirstAddressParser ap) = ap"
| "serializer_parser (portLastAddressParser ap) = ap"

lemma NewAddressParser_ok:
  assumes "options_ok opts"
  shows "\<exists>ser. NewAddressParser opts = Inr ser \<and> parser_ok (serializer_parser ser)
    \<and> (\<forall>bf \<in> set (family_bytes opts). family_ok (serializer_parser ser) bf)"
proof -
  let ?o = "\<lparr>addrTypeMap = replicate 16 afInvalid, addrByteMap = replicate 16 afInvalid,
              typeParser = None, portFirst = False\<rparr>"
  have "parser_ok ?o" by (simp add: parser_ok_def type_of_def)
  then obtain p' where p': "apply_options opts ?o = Inr p'" "parser_ok p'"
      "\<forall>bf \<in> set (family_bytes opts). family_ok p' bf"
    using apply_options_ok [of opts ?o "[]"] assms by (auto simp: options_ok_def)
  have "parser_ok (addressParser.truncate p')" "family_ok (addressParser.truncate p') bf = family_ok p' bf" for bf
    using p'(2) by (simp_all add: parser_ok_def family_ok_def type_of_def addressParser.defs)
  then show ?thesis using p' by (simp add: NewAddressParser_def Let_def)
qed

section \<open>Round trip\<close>

fun addr_wire :: "byte \<Rightarrow> address \<Rightarrow> byte list" where
  "addr_wire tb (ipv4Address ip) = tb # ip"
| "addr_wire tb (ipv6Address ip) = tb # ip"
| "addr_wire tb (domainAddress d) = tb # of_nat (length d) # bytes_of d"

text \<open>
  The addresses the format can carry: IP addresses as \<open>IPAddress\<close> builds them, and valid domain
  names of 1 to 255 bytes that are not the text of an IP address.
\<close>

fun wire_addr :: "address \<Rightarrow> bool" where
  "wire_addr (domainAddress d) =
     (d \<noteq> [] \<and> length d \<le> 255 \<and> isValidDomain d
      \<and> (maybeIPPrefix (hd d) \<longrightarrow> (case ParseAddress d of None \<Rightarrow> False | Some a \<Rightarrow> \<not> IsIP (addr_Family a))))"
| "wire_addr a = addr_wf a"

lemma parse_domain_wire: "wire_addr (domainAddress d) \<Longrightarrow> parse_domain d = Inr (Some (domainAddress d))"
  by (auto simp: parse_domain_def Let_def DomainAddress_def split: list.splits option.splits)

lemma addr_wire_length: "wire_addr a \<Longrightarrow> length (addr_wire tb a) \<le> 257"
  by (cases a) auto

lemma byte_valid: "b < 16 \<Longrightarrow> b \<noteq> afInvalid" for b :: byte
  by (auto simp: afInvalid_def)

lemma family_valid: "addr_Family a \<noteq> afInvalid"
  by (cases a) (simp_all add: family_defs afInvalid_def)

lemma read_domain_spec:
  assumes "buf_wf b" "256 \<le> buf_room b" "d \<noteq> []" "length d \<le> 255"
  shows "\<exists>b1 b2. read_one b (of_nat (length d) # bytes_of d @ r) = Inr (b1, bytes_of d @ r, of_nat (length d))
    \<and> read_last b1 (bytes_of d @ r) (uint (of_nat (length d) :: byte)) = Inr (b2, r, bytes_of d)
    \<and> buf_wf b2 \<and> buf_room b2 = buf_room b - (1 + length d)"
proof -
  obtain b1 where b1: "read_one b (of_nat (length d) # bytes_of d @ r) = Inr (b1, bytes_of d @ r, of_nat (length d))"
    "buf_wf b1" "buf_room b1 = buf_room b - 1"
    using read_one_spec [OF assms(1)] assms(2) by fastforce
  have n: "uint (of_nat (length d) :: byte) = int (length (bytes_of d))"
    using assms(4) by (simp add: uint_nat unat_of_nat)
  have "bytes_of d \<noteq> []" "length (bytes_of d) \<le> buf_room b1"
    using assms(2-4) b1(3) by (auto simp: bytes_of_def)
  then show ?thesis
    using read_last_spec [OF b1(2) _ _ n, of r] b1 by auto
qed

lemma readAddress_wire:
  assumes "parser_ok p" "family_ok p (tb, addr_Family a)" "wire_addr a" "buf_wf b" "257 \<le> buf_room b"
  shows "\<exists>b'. readAddress p b (addr_wire tb a @ r) = Inr (b', r, Some a) \<and> buf_wf b'
    \<and> buf_room b' = buf_room b - length (addr_wire tb a)"
proof -
  obtain s where s: "addr_wire tb a = tb # s" by (cases a) simp_all
  obtain b1 where b1: "read_one b (tb # s @ r) = Inr (b1, s @ r, tb)" "buf_wf b1" "buf_room b1 = buf_room b - 1"
    using read_one_spec [OF assms(4)] assms(5) by fastforce
  have t: "(case typeParser p of None \<Rightarrow> tb | Some f \<Rightarrow> f tb) = tb" "\<not> tb \<ge> 16" "addrTypeMap p ! unat tb = addr_Family a"
    using assms(1,2) by (auto simp: parser_ok_def family_ok_def type_of_def)
  note rd = readAddress_def s b1(1) t afInvalid_def
  show ?thesis
  proof (cases a)
    case (ipv4Address ip)
    then have "length s = 4" "s \<noteq> []" and room: "length s \<le> buf_room b1"
      using s assms(3,5) b1(3) by auto
    then show ?thesis
      using read_last_spec [OF b1(2) room, of 4 r] b1(3) ipv4Address s
      by (auto simp: rd IPAddress_4 family_defs)
  next
    case (ipv6Address ip)
    then have "length s = 16" "s \<noteq> []" "\<not> v4_mapped s" and room: "length s \<le> buf_room b1"
      using s assms(3,5) b1(3) by auto
    then show ?thesis
      using read_last_spec [OF b1(2) room, of 16 r] b1(3) ipv6Address s
      by (auto simp: rd IPAddress_16 family_defs)
  next
    case (domainAddress d)
    then have d: "d \<noteq> []" "length d \<le> 255" "s = of_nat (length d) # bytes_of d" using s assms(3) by auto
    have "256 \<le> buf_room b1" using assms(5) b1(3) by simp
    then obtain b2 b3 where "read_one b1 (s @ r) = Inr (b2, bytes_of d @ r, of_nat (length d))"
      "read_last b2 (bytes_of d @ r) (uint (of_nat (length d) :: byte)) = Inr (b3, r, bytes_of d)"
      "buf_wf b3" "buf_room b3 = buf_room b1 - (1 + length d)"
      using read_domain_spec [OF b1(2) _ d(1,2), of r] d(3) by auto
    then show ?thesis
      using parse_domain_wire [of d] assms(3) b1(1,3) domainAddress s d(3)
      by (simp add: rd family_defs del: wire_addr.simps)
  qed
qed

text \<open>Writing through any writer that keeps the contract \<open>io_writer\<close>.\<close>

fun wire_bytes :: "AddressSerializer \<Rightarrow> address \<Rightarrow> Port \<Rightarrow> byte list" where
  "wire_bytes (portFirstAddressParser ap) a port = put_u16 port @ addr_wire (addrByteMap ap ! unat (addr_Family a)) a"
| "wire_bytes (portLastAddressParser ap) a port = addr_wire (addrByteMap ap ! unat (addr_Family a)) a @ put_u16 port"

context io_writer
begin

lemma writeAddress_ok:
  assumes "wf w" "length (addr_wire tb a) \<le> space w" "addrByteMap p ! unat (addr_Family a) = tb"
    "tb \<noteq> afInvalid" "\<And>d. a = domainAddress d \<Longrightarrow> length d \<le> 256"
  shows "\<exists>w'. writeAddress p wr w a = Inr (w', None) \<and> wf w'
    \<and> content w' = content w @ addr_wire tb a \<and> space w' = space w - length (addr_wire tb a)"
proof (cases a)
  case (ipv4Address ip)
  then show ?thesis using write_all_ok [OF assms(1), of "[[tb], ip]"] assms(2-4)
    by (simp add: writeAddress_def)
next
  case (ipv6Address ip)
  then show ?thesis using write_all_ok [OF assms(1), of "[[tb], ip]"] assms(2-4)
    by (simp add: writeAddress_def)
next
  case (domainAddress d)
  then have "\<not> isDomainTooLong d" using assms(5) by (simp add: isDomainTooLong_def)
  then show ?thesis
    using domainAddress write_all_ok [OF assms(1), of "[[tb, of_nat (length d)], bytes_of d]"] assms(2-4)
    by (simp add: writeAddress_def)
qed

lemma writePort_ok:
  assumes "wf w" "2 \<le> space w"
  shows "\<exists>w'. writePort wr w port = Inr (w', None) \<and> wf w' \<and> content w' = content w @ put_u16 port
    \<and> space w' = space w - 2"
  using write_ok [OF assms(1), of "put_u16 port"] assms(2) by (auto simp: writePort_def WriteUint16_def)

lemma WriteAddressPort_ok:
  assumes "wf w" "length (wire_bytes ser a port) \<le> space w"
    "addrByteMap (serializer_parser ser) ! unat (addr_Family a) \<noteq> afInvalid"
    "\<And>d. a = domainAddress d \<Longrightarrow> length d \<le> 256"
  shows "\<exists>w'. WriteAddressPort ser wr w a port = Inr (w', None) \<and> wf w'
    \<and> content w' = content w @ wire_bytes ser a port \<and> space w' = space w - length (wire_bytes ser a port)"
proof (cases ser)
  case (portFirstAddressParser ap)
  obtain w1 where w1: "writePort wr w port = Inr (w1, None)" "wf w1" "content w1 = content w @ put_u16 port"
      "space w1 = space w - 2"
    using writePort_ok [OF assms(1)] assms(2) portFirstAddressParser by fastforce
  have "length (addr_wire (addrByteMap ap ! unat (addr_Family a)) a) \<le> space w1"
    using assms(2) w1(4) portFirstAddressParser by simp
  then obtain w2 where "writeAddress ap wr w1 a = Inr (w2, None)" "wf w2"
      "content w2 = content w1 @ addr_wire (addrByteMap ap ! unat (addr_Family a)) a"
      "space w2 = space w1 - length (addr_wire (addrByteMap ap ! unat (addr_Family a)) a)"
    using writeAddress_ok [OF w1(2) _ refl, of ap a] assms(3,4) portFirstAddressParser by auto
  then show ?thesis using w1 portFirstAddressParser by (simp add: WriteAddressPort_def)
next
  case (portLastAddressParser ap)
  obtain w1 where w1: "writeAddress ap wr w a = Inr (w1, None)" "wf w1"
      "content w1 = content w @ addr_wire (addrByteMap ap ! unat (addr_Family a)) a"
      "space w1 = space w - length (addr_wire (addrByteMap ap ! unat (addr_Family a)) a)"
    using writeAddress_ok [OF assms(1) _ refl, of ap a] assms(2,3,4) portLastAddressParser by auto
  have "2 \<le> space w1" using assms(2) w1(4) portLastAddressParser by simp
  then obtain w2 where "writePort wr w1 port = Inr (w2, None)" "wf w2"
      "content w2 = content w1 @ put_u16 port" "space w2 = space w1 - 2"
    using writePort_ok [OF w1(2), of port] by auto
  then show ?thesis using w1 portLastAddressParser by (simp add: WriteAddressPort_def)
qed

end

lemma ReadAddressPort_wire:
  assumes "parser_ok (serializer_parser ser)" "family_ok (serializer_parser ser) (tb, addr_Family a)"
    "wire_addr a" "length pool < 2 ^ 31"
  shows "\<exists>b. ReadAddressPort pool ser None (wire_bytes ser a port @ r) = Inr (b, r, Some a, port)"
proof -
  have tb: "addrByteMap (serializer_parser ser) ! unat (addr_Family a) = tb"
    using assms(2) by (simp add: family_ok_def)
  have new: "buf_wf (New pool)" "buf_room (New pool) = 8192" using assms(4) by (simp_all add: Size_def)
  have len: "length (addr_wire tb a) \<le> 257" using assms(3) by (rule addr_wire_length)
  show ?thesis
  proof (cases ser)
    case (portFirstAddressParser ap)
    obtain b1 where b1: "readPort (New pool) (put_u16 port @ addr_wire tb a @ r) = Inr (b1, addr_wire tb a @ r, port)"
        "buf_wf b1" "buf_room b1 = 8190"
      using readPort_spec [OF new(1)] new(2) by fastforce
    then show ?thesis
      using readAddress_wire [OF _ _ assms(3) b1(2), of ap tb r] assms(1,2) tb portFirstAddressParser
      by (auto simp: ReadAddressPort_def)
  next
    case (portLastAddressParser ap)
    obtain b1 where b1: "readAddress ap (New pool) (addr_wire tb a @ put_u16 port @ r) = Inr (b1, put_u16 port @ r, Some a)"
        "buf_wf b1" "buf_room b1 = 8192 - length (addr_wire tb a)"
      using readAddress_wire [OF _ _ assms(3) new(1), of ap tb "put_u16 port @ r"] assms(1,2) new(2) portLastAddressParser
      by auto
    have "2 \<le> buf_room b1" using b1(3) len by simp
    then show ?thesis
      using readPort_spec [OF b1(2), of port r] b1(1) tb portLastAddressParser
      by (auto simp: ReadAddressPort_def)
  qed
qed

section \<open>A domain of length zero\<close>

text \<open>The text of an IP address has no characters but hexadecimal digits, dots and colons.\<close>

definition ip_char :: "char \<Rightarrow> bool" where
  "ip_char c \<longleftrightarrow> is_hex c \<or> c = CHR ''.'' \<or> c = CHR '':''"

lemma v4_loop_chars: "v4_loop s v d fs = Some ip \<Longrightarrow> list_all ip_char s"
  by (induction s v d fs rule: v4_loop.induct) (auto simp: Let_def ip_char_def is_hex_def split: if_splits)

lemma hex_then:
  assumes "list_all ip_char (dropWhile is_hex s)"
  shows "list_all ip_char s"
proof -
  have "list_all ip_char (takeWhile is_hex s @ dropWhile is_hex s)"
    unfolding list_all_append using assms by (auto simp: list_all_iff ip_char_def dest: set_takeWhileD)
  then show ?thesis by simp
qed

lemma v6_loop_chars: "v6_loop k s acc ell = Some ([], acc', ell') \<Longrightarrow> list_all ip_char s"
proof (induction k s acc ell rule: v6_loop.induct)
  case (1 s acc ell)
  then show ?case by simp
next
  case (2 k s acc ell)
  show ?case
  proof (rule hex_then, cases "dropWhile is_hex s")
    case (Cons c r)
    consider "c = CHR ''.''" | "c = CHR '':''" "r \<noteq> []"
      using "2.prems" Cons by (auto simp: Let_def split: if_splits)
    then show "list_all ip_char (dropWhile is_hex s)"
    proof cases
      case 1
      then have "list_all ip_char s"
        using "2.prems" Cons by (auto simp: Let_def dest: v4_loop_chars split: if_splits option.splits)
      then show ?thesis by (auto simp: list_all_iff dest: set_dropWhileD)
    next
      case 2
      have "list_all ip_char (if hd r = CHR '':'' then tl r else r)"
        using "2.prems" "2.IH" Cons 2 by (auto simp: Let_def split: if_splits)
      then show ?thesis using Cons 2 by (cases r) (auto simp: ip_char_def split: if_splits)
    qed
  next
    case Nil
    show "list_all ip_char (dropWhile is_hex s)" unfolding Nil by simp
  qed
qed

lemma parse_ip_chars:
  assumes "parse_ip s = Some ip"
  shows "list_all ip_char s"
proof -
  consider "\<exists>f. parse_ipv4 s = Some f" | "parse_ipv6 s = Some ip"
    using assms by (auto simp: parse_ip_def split: list.splits if_splits)
  then show ?thesis
  proof cases
    case 1
    then show ?thesis by (auto simp: parse_ipv4_def dest: v4_loop_chars)
  next
    case 2
    have "list_all ip_char (if has_prefix s ''::'' then drop 2 s else s)"
      using 2 by (auto simp: parse_ipv6_def Let_def ip_char_def dest!: v6_loop_chars split: if_splits option.splits)
    then show ?thesis by (auto simp: has_prefix_iff ip_char_def split: if_splits)
  qed
qed

definition NUL :: char where "NUL = CHR 0x00"

lemma NUL_byte: "char_of_byte 0 = NUL"
  by (simp add: NUL_def char_of_byte_def char_of_def)

lemma NUL_props: "\<not> valid_domain_char NUL" "\<not> ip_char NUL" "NUL \<noteq> CHR '']''" "\<not> maybeIPPrefix NUL"
  by (simp_all add: NUL_def valid_domain_char_def isAlphaNum_def ip_char_def is_hex_def is_digit_def maybeIPPrefix_def)

lemma strip_any_hd: "list_all (\<lambda>p. p \<noteq> [] \<longrightarrow> hd p \<noteq> c) ps \<Longrightarrow> strip_any ps (c # s) = None"
  by (induction ps) (auto simp: has_prefix_iff Cons_eq_append_conv)

lemma space_ends:
  "list_all (\<lambda>p. p \<noteq> [] \<and> (of_char (hd p) \<le> (32 :: nat) \<or> 127 < (of_char (hd p) :: nat)) \<and> last p \<noteq> CHR 0x00) utf8_spaces"
  by code_simp

lemma trim_space_NUL:
  assumes "maybeIPPrefix c"
  shows "trim_space (c # s @ [NUL]) = c # s @ [NUL]"
proof -
  have c: "(32 :: nat) < of_char c" "of_char c \<le> (127 :: nat)"
    using assms by (auto simp: maybeIPPrefix_def is_digit_def)
  have "strip_any utf8_spaces (c # s @ [NUL]) = None"
    using c space_ends by (intro strip_any_hd) (fastforce simp: list_all_iff)
  moreover have "strip_any (map rev utf8_spaces) (NUL # rev s @ [c]) = None"
    using space_ends by (intro strip_any_hd) (auto simp: list_all_iff hd_rev NUL_def)
  ultimately show ?thesis by (simp add: trim_space_def trim_left_id)
qed

lemma parse_domain_NUL: "parse_domain (s @ [NUL]) = Inl (Err ''invalid domain name: '')"
proof -
  have v: "\<not> isValidDomain (s @ [NUL])" by (simp add: isValidDomain_def NUL_props)
  have n: "parse_ip (s @ [NUL]) = None"
    using parse_ip_chars [of "s @ [NUL]"] NUL_props(2) by (cases "parse_ip (s @ [NUL])") auto
  show ?thesis
  proof (cases s)
    case Nil
    then show ?thesis using v NUL_props(4) by (simp add: parse_domain_def)
  next
    case (Cons c r)
    have "ParseAddress (s @ [NUL]) = Some (DomainAddress (s @ [NUL]))" if "maybeIPPrefix c"
      using trim_space_NUL [OF that, of r] n NUL_props(3) Cons by (simp add: ParseAddress_def Let_def)
    then show ?thesis
      using v Cons by (auto simp: parse_domain_def Let_def DomainAddress_def IsIP_def family_defs)
  qed
qed

lemma BytesFrom_0: "buf_wf b \<Longrightarrow> BytesFrom b 0 = Inr (buf_data b)"
  using Bytes_data [of b] buf_wfD [of b] by (simp add: BytesFrom_def Bytes_def)

lemma readAddress_zero_domain:
  assumes "parser_ok p" "family_ok p (tb, AddressFamilyDomain)" "buf_wf b" "2 \<le> buf_room b"
  shows "readAddress p b (tb # 0 # r) = Inl (Err ''invalid domain name: '')"
proof -
  obtain b1 where b1: "read_one b (tb # 0 # r) = Inr (b1, 0 # r, tb)" "buf_wf b1" "buf_room b1 = buf_room b - 1"
      "buf_data b1 = buf_data b @ [tb]"
    using read_one_spec [OF assms(3), of tb "0 # r"] assms(4) by auto
  have "1 \<le> buf_room b1" using assms(4) b1(3) by simp
  then obtain b2 where b2: "read_one b1 (0 # r) = Inr (b2, r, 0)" "buf_wf b2" "buf_data b2 = buf_data b @ [tb, 0]"
    using read_one_spec [OF b1(2), of 0 r] b1(4) by auto
  obtain b3 where b3: "ReadFullFrom b2 r 0 = Inr (b3, r, 0, None)" "buf_wf b3" "buf_data b3 = buf_data b @ [tb, 0]"
    using ReadFullFrom_spec [OF b2(2), of 0 r] b2(3) by auto
  have "read_last b2 r 0 = Inr (b3, r, buf_data b3)"
    using b3 BytesFrom_0 by (simp add: read_last_def)
  moreover have "string_of (buf_data b3) = string_of (buf_data b @ [tb]) @ [NUL]"
    using b3(3) by (simp add: string_of_def NUL_byte)
  moreover have "(case typeParser p of None \<Rightarrow> tb | Some f \<Rightarrow> f tb) = tb" "\<not> tb \<ge> 16"
      "addrTypeMap p ! unat tb = AddressFamilyDomain"
    using assms(1,2) by (auto simp: parser_ok_def family_ok_def type_of_def)
  ultimately show ?thesis
    using b1(1) b2(1) by (simp add: readAddress_def parse_domain_NUL family_defs afInvalid_def)
qed

section \<open>Properties\<close>

text \<open>
  C2: for every configuration whose family bytes are distinct and below 16 and whose type parser keeps
  those bytes, what \<open>WriteAddressPort\<close> writes for an address the format can carry is read back
  by \<open>ReadAddressPort\<close> as the same address and port, and the reader stops exactly at its end.
\<close>

theorem address_round_trip:
  assumes "options_ok opts" "(tb, addr_Family a) \<in> set (family_bytes opts)" "wire_addr a"
    "buf_wf w" "259 \<le> buf_room w" "length pool < 2 ^ 31"
  shows "\<exists>ser w' bs b. NewAddressParser opts = Inr ser
    \<and> WriteAddressPort ser Buffer_Write w a port = Inr (w', None) \<and> buf_wf w' \<and> buf_data w' = buf_data w @ bs
    \<and> ReadAddressPort pool ser None (bs @ rest) = Inr (b, rest, Some a, port)"
proof -
  obtain ser where ser: "NewAddressParser opts = Inr ser" "parser_ok (serializer_parser ser)"
      "family_ok (serializer_parser ser) (tb, addr_Family a)"
    using NewAddressParser_ok [OF assms(1)] assms(2) by blast
  have tb: "addrByteMap (serializer_parser ser) ! unat (addr_Family a) = tb" "tb \<noteq> afInvalid"
    using ser(3) byte_valid by (auto simp: family_ok_def)
  have "length (wire_bytes ser a port) \<le> 259"
    using addr_wire_length [OF assms(3), of tb] tb(1) by (cases ser) simp_all
  then have "length (wire_bytes ser a port) \<le> buf_room w" using assms(5) by simp
  moreover have "length d \<le> 256" if "a = domainAddress d" for d using assms(3) that by simp
  ultimately obtain w' where "WriteAddressPort ser Buffer_Write w a port = Inr (w', None)" "buf_wf w'"
      "buf_data w' = buf_data w @ wire_bytes ser a port"
    using buffer.WriteAddressPort_ok [OF assms(4)] tb by blast
  then show ?thesis using ser ReadAddressPort_wire [OF ser(2,3) assms(3,6)] by blast
qed

theorem address_round_trip_witness:
  "\<exists>ser w' bs b. NewAddressParser
      [AddressFamilyByte 1 AddressFamilyIPv4, AddressFamilyByte 2 AddressFamilyDomain,
       AddressFamilyByte 3 AddressFamilyIPv6, PortThenAddress] = Inr ser
    \<and> WriteAddressPort ser Buffer_Write (New []) (domainAddress ''a.io'') 443 = Inr (w', None)
    \<and> buf_wf w' \<and> buf_data w' = buf_data (New []) @ bs
    \<and> ReadAddressPort [] ser None (bs @ [7]) = Inr (b, [7], Some (domainAddress ''a.io''), 443)"
  by (rule address_round_trip [where tb = 2])
     (simp_all add: options_ok_def family_defs isValidDomain_def valid_domain_char_def isAlphaNum_def
        maybeIPPrefix_def is_digit_def Size_def)

text \<open>
  C28: \<open>isDomainTooLong\<close> lets a domain of 256 bytes through, whose length byte is then 0:
  the write succeeds, and the reader rejects what was written.
\<close>

theorem domain_256_not_readable:
  assumes "options_ok opts" "(tb, AddressFamilyDomain) \<in> set (family_bytes opts)" "length d = 256"
    "buf_wf w" "260 \<le> buf_room w" "length pool < 2 ^ 31"
  shows "\<exists>ser w' bs. NewAddressParser opts = Inr ser
    \<and> WriteAddressPort ser Buffer_Write w (domainAddress d) port = Inr (w', None) \<and> buf_data w' = buf_data w @ bs
    \<and> ReadAddressPort pool ser None (bs @ rest) = Inl (Err ''invalid domain name: '')"
proof -
  let ?a = "domainAddress d"
  obtain ser where ser: "NewAddressParser opts = Inr ser" "parser_ok (serializer_parser ser)"
      "family_ok (serializer_parser ser) (tb, AddressFamilyDomain)"
    using NewAddressParser_ok [OF assms(1)] assms(2) by blast
  have tb: "addrByteMap (serializer_parser ser) ! unat (addr_Family ?a) = tb" "tb \<noteq> afInvalid"
    using ser(3) byte_valid by (auto simp: family_ok_def)
  have "length (wire_bytes ser ?a port) \<le> buf_room w"
    using assms(3,5) by (cases ser) simp_all
  then obtain w' where w': "WriteAddressPort ser Buffer_Write w ?a port = Inr (w', None)"
      "buf_data w' = buf_data w @ wire_bytes ser ?a port"
    using buffer.WriteAddressPort_ok [OF assms(4), of ser ?a port] tb assms(3) by auto
  have new: "buf_wf (New pool)" "2 \<le> buf_room (New pool)" using assms(6) by (simp_all add: Size_def)
  obtain b1 where b1: "readPort (New pool) (put_u16 port @ tb # 0 # bytes_of d @ rest) = Inr (b1, tb # 0 # bytes_of d @ rest, port)"
      "buf_wf b1" "2 \<le> buf_room b1"
    using readPort_spec [OF new, of port "tb # 0 # bytes_of d @ rest"] by (auto simp: Size_def)
  have "(of_nat (length d) :: byte) = 0" using assms(3) by simp
  then have "ReadAddressPort pool ser None (wire_bytes ser ?a port @ rest) = Inl (Err ''invalid domain name: '')"
    using readAddress_zero_domain [OF _ _ b1(2,3), of "serializer_parser ser" tb] b1(1) ser(2,3)
      readAddress_zero_domain [OF _ _ new, of "serializer_parser ser" tb] tb(1)
    by (cases ser) (simp_all add: ReadAddressPort_def)
  then show ?thesis using ser(1) w' by blast
qed

theorem domain_256_not_readable_witness:
  "\<exists>ser w' bs. NewAddressParser [AddressFamilyByte 3 AddressFamilyDomain] = Inr ser
    \<and> WriteAddressPort ser Buffer_Write (New []) (domainAddress (replicate 256 CHR ''a'')) 443 = Inr (w', None)
    \<and> buf_data w' = buf_data (New []) @ bs
    \<and> ReadAddressPort [] ser None (bs @ []) = Inl (Err ''invalid domain name: '')"
  by (rule domain_256_not_readable [where tb = 3])
     (simp_all add: options_ok_def family_defs Size_def)

end
