(* ===== verification/Mux_Frame.thy ===== *)
theory Mux_Frame
  imports Multi_Buffer Address_Parser
begin

text \<open>
  \<open>common/mux/frame.go\<close>, \<open>reader.go\<close> and \<open>writer.go\<close>, with \<open>common/bitmask/byte.go\<close>: the frame
  format of the multiplexing protocol.  \<open>FrameMetadata\<close> has the fields of the Go struct; of
  \<open>session.Inbound\<close> only the two destinations that the frame carries.  The memory of the buffers
  that a function takes from the pool is an argument (\<open>pool k\<close> for the k-th of them).
\<close>

section \<open>bitmask\<close>

unbundle bit_operations_syntax

definition Has :: "byte \<Rightarrow> byte \<Rightarrow> bool" where "Has b bb \<longleftrightarrow> b AND bb \<noteq> 0"
definition Set_bits :: "byte \<Rightarrow> byte \<Rightarrow> byte" where "Set_bits b bb = b OR bb"
definition Clear_bits :: "byte \<Rightarrow> byte \<Rightarrow> byte" where "Clear_bits b bb = b AND NOT bb"
definition Toggle_bits :: "byte \<Rightarrow> byte \<Rightarrow> byte" where "Toggle_bits b bb = b XOR bb"

section \<open>Frame metadata\<close>

definition SessionStatusNew :: byte where "SessionStatusNew = 1"
definition SessionStatusKeep :: byte where "SessionStatusKeep = 2"
definition SessionStatusEnd :: byte where "SessionStatusEnd = 3"
definition SessionStatusKeepAlive :: byte where "SessionStatusKeepAlive = 4"

lemmas status_defs = SessionStatusNew_def SessionStatusKeep_def SessionStatusEnd_def SessionStatusKeepAlive_def

definition OptionData :: byte where "OptionData = 1"
definition OptionError :: byte where "OptionError = 2"

definition TargetNetworkTCP :: byte where "TargetNetworkTCP = 1"
definition TargetNetworkUDP :: byte where "TargetNetworkUDP = 2"

definition addrParser_options :: "AddressOption list" where
  "addrParser_options =
     [AddressFamilyByte 1 AddressFamilyIPv4, AddressFamilyByte 2 AddressFamilyDomain,
      AddressFamilyByte 3 AddressFamilyIPv6, PortThenAddress]"

definition addrParser :: AddressSerializer where
  "addrParser = projr (NewAddressParser addrParser_options)"

record Inbound =
  Source :: Destination
  Local :: Destination

record FrameMetadata =
  Target :: Destination
  SessionID :: u16
  Option :: byte
  SessionStatus :: byte
  GlobalID :: "byte list"
  fInbound :: "Inbound option"

text \<open>\<open>common.Must\<close> panics on an error.\<close>

definition Must :: "('a \<times> go_error option) res \<Rightarrow> 'a res" where
  "Must r = (case r of Inl p \<Rightarrow> Inl p | Inr (a, None) \<Rightarrow> Inr a | Inr (a, Some e) \<Rightarrow> Inl (GoPanic ''Must''))"

text \<open>\<open>addrParser.WriteAddressPort\<close> on a destination, whose address may be nil.\<close>

definition write_dest :: "Buffer \<Rightarrow> Destination \<Rightarrow> (Buffer \<times> go_error option) res" where
  "write_dest b d =
     (case Address d of
        Some a \<Rightarrow> WriteAddressPort addrParser Buffer_Write b a (dPort d)
      | None \<Rightarrow>
          (case writePort Buffer_Write b (dPort d) of
             Inl p \<Rightarrow> Inl p
           | Inr (b', Some e) \<Rightarrow> Inr (b', Some e)
           | Inr (b', None) \<Rightarrow> Inl nil_deref))"

definition is_tcp_udp :: "Destination \<Rightarrow> bool" where
  "is_tcp_udp d \<longleftrightarrow> dNetwork d = Network_TCP \<or> dNetwork d = Network_UDP"

text \<open>The byte \<open>Network - 1\<close> followed by the destination, as for source and local.\<close>

definition write_net_dest :: "Buffer \<Rightarrow> Destination \<Rightarrow> (Buffer \<times> go_error option) res" where
  "write_net_dest b d =
     (case Must (Buffer_WriteByte b (of_nat (network_int (dNetwork d)) - 1)) of
        Inl p \<Rightarrow> Inl p
      | Inr b1 \<Rightarrow> write_dest b1 d)"

definition write_inbound :: "Buffer \<Rightarrow> Inbound \<Rightarrow> (Buffer \<times> go_error option) res" where
  "write_inbound b i =
     (if is_tcp_udp (Source i) then
        (case write_net_dest b (Source i) of
           Inl p \<Rightarrow> Inl p
         | Inr (b1, Some e) \<Rightarrow> Inr (b1, Some e)
         | Inr (b1, None) \<Rightarrow> if is_tcp_udp (Local i) then write_net_dest b1 (Local i) else Inr (b1, None))
      else Inr (b, None))"

text \<open>The part of \<open>WriteTo\<close> for a new session.\<close>

definition write_new :: "FrameMetadata \<Rightarrow> Buffer \<Rightarrow> (Buffer \<times> go_error option) res" where
  "write_new f b =
     (case (if dNetwork (Target f) = Network_TCP then Must (Buffer_WriteByte b TargetNetworkTCP)
            else if dNetwork (Target f) = Network_UDP then Must (Buffer_WriteByte b TargetNetworkUDP)
            else Inr b) of
        Inl p \<Rightarrow> Inl p
      | Inr b1 \<Rightarrow>
          (case write_dest b1 (Target f) of
             Inl p \<Rightarrow> Inl p
           | Inr (b2, Some e) \<Rightarrow> Inr (b2, Some e)
           | Inr (b2, None) \<Rightarrow>
               (case fInbound f of
                  Some i \<Rightarrow> write_inbound b2 i
                | None \<Rightarrow>
                    if buf_UDP b2 \<noteq> None then
                      (case Buffer_Write b2 (GlobalID f) of Inl p \<Rightarrow> Inl p | Inr (b3, _, _) \<Rightarrow> Inr (b3, None))
                    else Inr (b2, None))))"

text \<open>The part for the other frames: errors are not looked at.\<close>

definition write_udp :: "Buffer \<Rightarrow> (Buffer \<times> go_error option) res" where
  "write_udp b =
     (case buf_UDP b of
        None \<Rightarrow> Inr (b, None)
      | Some u \<Rightarrow>
          (case Buffer_WriteByte b TargetNetworkUDP of
             Inl p \<Rightarrow> Inl p
           | Inr (b1, _) \<Rightarrow>
               (case write_dest b1 u of Inl p \<Rightarrow> Inl p | Inr (b2, _) \<Rightarrow> Inr (b2, None))))"

text \<open>
  \<open>WriteTo\<close>.  \<open>lenBytes\<close> and \<open>sessionBytes\<close> are slices of the buffer's memory, so storing into
  them overwrites the two bytes at the position where they were extended.
\<close>

definition put_at :: "int \<Rightarrow> byte list \<Rightarrow> Buffer \<Rightarrow> Buffer" where
  "put_at pos d b = b\<lparr>buf_v := overwrite (nat pos) d (buf_v b)\<rparr>"

definition FrameMetadata_WriteTo :: "FrameMetadata \<Rightarrow> Buffer \<Rightarrow> (Buffer \<times> go_error option) res" where
  "FrameMetadata_WriteTo f b =
     (case Extend b 2 of
        Inl p \<Rightarrow> Inl p
      | Inr (b1, _) \<Rightarrow>
          (case Extend b1 2 of
             Inl p \<Rightarrow> Inl p
           | Inr (b2, _) \<Rightarrow>
               (case Must (Buffer_WriteByte (put_at (buf_end b1) (put_u16 (SessionID f)) b2) (SessionStatus f)) of
                  Inl p \<Rightarrow> Inl p
                | Inr b3 \<Rightarrow>
                    (case Must (Buffer_WriteByte b3 (Option f)) of
                       Inl p \<Rightarrow> Inl p
                     | Inr b4 \<Rightarrow>
                         (case (if SessionStatus f = SessionStatusNew then write_new f b4 else write_udp b4) of
                            Inl p \<Rightarrow> Inl p
                          | Inr (b5, Some e) \<Rightarrow> Inr (b5, Some e)
                          | Inr (b5, None) \<Rightarrow>
                              Inr (put_at (buf_end b) (put_u16 (of_int (i32 (Buffer_Len b5 - Buffer_Len b1)))) b5, None))))))"

section \<open>Reading a frame\<close>

text \<open>A new error on top of an old one; a panic stays a panic.\<close>

fun wrap_err :: "string \<Rightarrow> go_error \<Rightarrow> go_error" where
  "wrap_err msg (GoPanic p) = GoPanic p"
| "wrap_err msg e = Err msg"

text \<open>
  A buffer as an \<open>io.Reader\<close> of which \<open>rest\<close> is still to be read: \<open>Read\<close> moves the start and
  clears the buffer once it has delivered everything (\<open>Buffer_Read_spec\<close>).
\<close>

definition drain_to :: "Buffer \<Rightarrow> byte list \<Rightarrow> Buffer" where
  "drain_to b rest =
     (if rest = [] then Buffer_Clear b else b\<lparr>buf_start := buf_end b - int (length rest)\<rparr>)"

text \<open>\<open>ReadAddressPort(nil, b)\<close> and the switch on the network byte.\<close>

definition read_dest :: "byte list \<Rightarrow> string \<Rightarrow> byte \<Rightarrow> Buffer \<Rightarrow> (Buffer \<times> Destination) res" where
  "read_dest pool pre network b =
     (case Bytes b of
        Inl p \<Rightarrow> Inl p
      | Inr s \<Rightarrow>
          (case ReadAddressPort pool addrParser None s of
             Inl e \<Rightarrow> Inl (wrap_err (pre @ ''failed to parse address and port'') e)
           | Inr (_, rest, addr, port) \<Rightarrow>
               if network = TargetNetworkTCP then Inr (drain_to b rest, TCPDestination addr port)
               else if network = TargetNetworkUDP then Inr (drain_to b rest, UDPDestination addr port)
               else Inl (Err (pre @ ''unknown network type: ''))))"

text \<open>Source and local: absent at the end of the frame or before a zero byte.\<close>

definition read_optional_dest :: "byte list \<Rightarrow> string \<Rightarrow> Buffer \<Rightarrow> (Buffer \<times> Destination) option res" where
  "read_optional_dest pool pre b =
     (if Buffer_Len b = 0 then Inr None
      else case Byte b 0 of
        Inl p \<Rightarrow> Inl p
      | Inr network \<Rightarrow>
          if network = 0 then Inr None
          else (case read_dest pool pre network (Advance b 1) of Inl e \<Rightarrow> Inl e | Inr r \<Rightarrow> Inr (Some r)))"

definition read_inbound :: "(nat \<Rightarrow> byte list) \<Rightarrow> FrameMetadata \<Rightarrow> Buffer \<Rightarrow> FrameMetadata res" where
  "read_inbound pool f b =
     (let i0 = \<lparr>Source = zero_Destination, Local = zero_Destination\<rparr> in
      case read_optional_dest (pool 1) ''reading source: '' b of
        Inl e \<Rightarrow> Inl e
      | Inr None \<Rightarrow> Inr (f\<lparr>fInbound := Some i0\<rparr>)
      | Inr (Some (b1, src)) \<Rightarrow>
          (case read_optional_dest (pool 2) ''reading local: '' b1 of
             Inl e \<Rightarrow> Inl e
           | Inr None \<Rightarrow> Inr (f\<lparr>fInbound := Some (i0\<lparr>Source := src\<rparr>)\<rparr>)
           | Inr (Some (_, loc)) \<Rightarrow> Inr (f\<lparr>fInbound := Some \<lparr>Source = src, Local = loc\<rparr>\<rparr>)))"

definition UnmarshalFromBuffer :: "(nat \<Rightarrow> byte list) \<Rightarrow> FrameMetadata \<Rightarrow> Buffer \<Rightarrow> bool \<Rightarrow> FrameMetadata res" where
  "UnmarshalFromBuffer pool f0 b readSourceAndLocal =
     (if Buffer_Len b < 4 then Inl (Err ''insufficient buffer: '')
      else case BytesTo b 2 of Inl p \<Rightarrow> Inl p | Inr sid \<Rightarrow>
      (case Byte b 2 of Inl p \<Rightarrow> Inl p | Inr status \<Rightarrow>
      (case Byte b 3 of Inl p \<Rightarrow> Inl p | Inr opt \<Rightarrow>
      (let f1 = f0\<lparr>SessionID := get_u16 sid, SessionStatus := status, Option := opt,
                   Target := (Target f0)\<lparr>dNetwork := Network_Unknown\<rparr>\<rparr>;
           has_target = (if status = SessionStatusNew then Inr True
                         else if status = SessionStatusKeep \<and> Buffer_Len b > 4
                         then (case Byte b 4 of Inl p \<Rightarrow> Inl p | Inr x \<Rightarrow> Inr (x = TargetNetworkUDP))
                         else Inr False)
       in case has_target of Inl p \<Rightarrow> Inl p | Inr target \<Rightarrow>
          (case (if \<not> target then Inr (b, f1)
                 else if Buffer_Len b < 8 then Inl (Err ''insufficient buffer: '')
                 else (case Byte b 4 of Inl p \<Rightarrow> Inl p | Inr network \<Rightarrow>
                      (case read_dest (pool 0) [] network (Advance b 5) of
                         Inl e \<Rightarrow> Inl e | Inr (b1, d) \<Rightarrow> Inr (b1, f1\<lparr>Target := d\<rparr>)))) of
             Inl e \<Rightarrow> Inl e
           | Inr (b1, f2) \<Rightarrow>
               if status = SessionStatusNew \<and> readSourceAndLocal then read_inbound pool f2 b1
               else if status = SessionStatusNew \<and> Has opt OptionData
                       \<and> dNetwork (Target f2) = Network_UDP \<and> Buffer_Len b1 \<ge> 8 then
                 (case Bytes b1 of Inl p \<Rightarrow> Inl p
                  | Inr bs \<Rightarrow> Inr (f2\<lparr>GlobalID := fst (go_copy (GlobalID f2) bs)\<rparr>))
               else Inr f2)))))"

definition Unmarshal :: "(nat \<Rightarrow> byte list) \<Rightarrow> FrameMetadata \<Rightarrow> byte list \<Rightarrow> bool \<Rightarrow> (FrameMetadata \<times> byte list) res" where
  "Unmarshal pool f0 s readSourceAndLocal =
     (case ReadUint16 s of
        Inl e \<Rightarrow> Inl e
      | Inr (metaLen, s1) \<Rightarrow>
          if metaLen > 512 then Inl (Err ''invalid metalen '')
          else (case ReadFullFrom (New (pool 3)) s1 (uint metaLen) of
                  Inl p \<Rightarrow> Inl p
                | Inr (_, _, _, Some e) \<Rightarrow> Inl e
                | Inr (b, s2, _, None) \<Rightarrow>
                    (case UnmarshalFromBuffer pool f0 b readSourceAndLocal of
                       Inl e \<Rightarrow> Inl e | Inr f \<Rightarrow> Inr (f, s2))))"

section \<open>The bytes of a frame\<close>

fun family_byte :: "address \<Rightarrow> byte" where
  "family_byte (ipv4Address _) = 1"
| "family_byte (domainAddress _) = 2"
| "family_byte (ipv6Address _) = 3"

definition dest_ok :: "Destination \<Rightarrow> bool" where
  "dest_ok d \<longleftrightarrow> is_tcp_udp d \<and> (case Address d of None \<Rightarrow> False | Some a \<Rightarrow> wire_addr a)"

definition dest_bytes :: "Destination \<Rightarrow> byte list" where
  "dest_bytes d = (case Address d of None \<Rightarrow> [] | Some a \<Rightarrow> put_u16 (dPort d) @ addr_wire (family_byte a) a)"

definition network_byte :: "Destination \<Rightarrow> byte" where
  "network_byte d = (if dNetwork d = Network_TCP then TargetNetworkTCP else TargetNetworkUDP)"

definition inbound_bytes :: "Inbound \<Rightarrow> byte list" where
  "inbound_bytes i =
     (if is_tcp_udp (Source i) then
        network_byte (Source i) # dest_bytes (Source i)
        @ (if is_tcp_udp (Local i) then network_byte (Local i) # dest_bytes (Local i) else [])
      else [])"

definition frame_tail :: "FrameMetadata \<Rightarrow> Destination option \<Rightarrow> byte list" where
  "frame_tail f udp =
     (if SessionStatus f = SessionStatusNew then
        network_byte (Target f) # dest_bytes (Target f)
        @ (case fInbound f of Some i \<Rightarrow> inbound_bytes i | None \<Rightarrow> if udp \<noteq> None then GlobalID f else [])
      else case udp of None \<Rightarrow> [] | Some u \<Rightarrow> TargetNetworkUDP # dest_bytes u)"

definition frame_body :: "FrameMetadata \<Rightarrow> Destination option \<Rightarrow> byte list" where
  "frame_body f udp = put_u16 (SessionID f) @ [SessionStatus f, Option f] @ frame_tail f udp"

text \<open>
  What a frame needs to be encodable: destinations with an address the format can carry, and
  the eight bytes of the global id.
\<close>

definition inbound_ok :: "Inbound \<Rightarrow> bool" where
  "inbound_ok i \<longleftrightarrow> (is_tcp_udp (Source i) \<longrightarrow> dest_ok (Source i)) \<and> (is_tcp_udp (Local i) \<longrightarrow> dest_ok (Local i))"

definition frame_ok :: "FrameMetadata \<Rightarrow> Destination option \<Rightarrow> bool" where
  "frame_ok f udp \<longleftrightarrow> length (GlobalID f) = 8
     \<and> (if SessionStatus f = SessionStatusNew
         then dest_ok (Target f) \<and> (case fInbound f of None \<Rightarrow> True | Some i \<Rightarrow> inbound_ok i)
         else case udp of None \<Rightarrow> True | Some u \<Rightarrow> dest_ok u \<and> dNetwork u = Network_UDP)"

section \<open>The address parser of the package\<close>

lemma addrParser_options_ok: "options_ok addrParser_options"
  by (simp add: options_ok_def addrParser_options_def family_defs)

lemma addrParser_new: "NewAddressParser addrParser_options = Inr addrParser"
  using NewAddressParser_ok [OF addrParser_options_ok] by (auto simp: addrParser_def)

lemma addrParser_ok: "parser_ok (serializer_parser addrParser)"
  "family_ok (serializer_parser addrParser) (family_byte a, addr_Family a)"
proof -
  have "(family_byte a, addr_Family a) \<in> set (family_bytes addrParser_options)"
    by (cases a) (simp_all add: addrParser_options_def)
  then show "parser_ok (serializer_parser addrParser)"
    "family_ok (serializer_parser addrParser) (family_byte a, addr_Family a)"
    using NewAddressParser_ok [OF addrParser_options_ok] addrParser_new by auto
qed

lemma addrParser_first: "\<exists>ap. addrParser = portFirstAddressParser ap"
  using addrParser_new
  by (auto simp: addrParser_def NewAddressParser_def addrParser_options_def Let_def family_defs)

lemma wire_bytes_dest:
  assumes "Address d = Some a"
  shows "wire_bytes addrParser a (dPort d) = dest_bytes d"
proof -
  obtain ap where ap: "addrParser = portFirstAddressParser ap" using addrParser_first by blast
  show ?thesis
    using assms addrParser_ok(2) [of a] unfolding ap by (simp add: dest_bytes_def family_ok_def)
qed

section \<open>Writing\<close>

text \<open>A buffer at a fixed start with a fixed UDP destination: the writer the frame code uses.\<close>

definition buf_at :: "int \<Rightarrow> Destination option \<Rightarrow> Buffer \<Rightarrow> bool" where
  "buf_at st u b \<longleftrightarrow> buf_wf b \<and> buf_start b = st \<and> buf_UDP b = u"

lemma Buffer_Write_start: "Buffer_Write b d = Inr (b', n, e) \<Longrightarrow> buf_start b' = buf_start b"
  by (auto simp: Buffer_Write_def Let_def split: if_splits sum.splits)

lemma Buffer_WriteByte_start: "Buffer_WriteByte b x = Inr (b', e) \<Longrightarrow> buf_start b' = buf_start b"
  by (auto simp: Buffer_WriteByte_def split: if_splits)

lemma Extend_start: "Extend b n = Inr (b', d) \<Longrightarrow> buf_start b' = buf_start b"
  by (auto simp: Extend_def Let_def split: if_splits sum.splits)

interpretation frame_buffer: io_writer Buffer_Write "buf_at st u" buf_data buf_room for st u
proof unfold_locales
  fix w :: Buffer and d :: "byte list"
  assume w: "buf_at st u w" and fits: "length d \<le> buf_room w"
  then have "buf_wf w" by (simp add: buf_at_def)
  then obtain w' where "Buffer_Write w d = Inr (w', min (buf_room w) (length d), if buf_room w < length d then Some ErrBufferFull else None)"
    "buf_wf w'" "buf_data w' = buf_data w @ take (buf_room w) d" "buf_room w' = buf_room w - length d" "buf_UDP w' = buf_UDP w"
    by (rule Buffer_Write_spec)
  with fits w show "\<exists>w'. Buffer_Write w d = Inr (w', length d, None) \<and> buf_at st u w'
      \<and> buf_data w' = buf_data w @ d \<and> buf_room w' = buf_room w - length d"
    using Buffer_Write_start by (auto simp: min_absorb2 buf_at_def)
qed

text \<open>\<open>appends st u b b' d\<close>: \<open>b'\<close> is \<open>b\<close> with \<open>d\<close> appended.\<close>

definition appends :: "int \<Rightarrow> Destination option \<Rightarrow> Buffer \<Rightarrow> Buffer \<Rightarrow> byte list \<Rightarrow> bool" where
  "appends st u b b' d \<longleftrightarrow> buf_at st u b' \<and> buf_data b' = buf_data b @ d \<and> buf_room b' = buf_room b - length d"

lemma appends_trans:
  "appends st u b b' d \<Longrightarrow> appends st u b' b'' d' \<Longrightarrow> appends st u b b'' (d @ d')"
  by (simp add: appends_def)

lemma appends_at: "appends st u b b' d \<Longrightarrow> buf_at st u b'"
  by (simp add: appends_def)

lemma appends_room: "appends st u b b' d \<Longrightarrow> n + length d \<le> buf_room b \<Longrightarrow> n \<le> buf_room b'"
  by (simp add: appends_def)

lemma Must_WriteByte:
  assumes "buf_at st u b" "1 \<le> buf_room b"
  shows "\<exists>b'. Buffer_WriteByte b x = Inr (b', None) \<and> Must (Buffer_WriteByte b x) = Inr b' \<and> appends st u b b' [x]"
proof -
  have "buf_wf b" "0 < buf_room b" using assms by (simp_all add: buf_at_def)
  then obtain b' where "Buffer_WriteByte b x = Inr (b', None)" "buf_wf b'"
    "buf_data b' = buf_data b @ [x]" "buf_room b' = buf_room b - 1" "buf_UDP b' = buf_UDP b"
    by (rule Buffer_WriteByte_spec)
  then show ?thesis using assms(1) Buffer_WriteByte_start by (auto simp: Must_def appends_def buf_at_def)
qed

lemma dest_bytes_length: "dest_ok d \<Longrightarrow> length (dest_bytes d) \<le> 259"
  using addr_wire_length by (auto simp: dest_ok_def dest_bytes_def split: option.splits)

lemma write_dest_ok:
  assumes "buf_at st u b" "dest_ok d" "length (dest_bytes d) \<le> buf_room b"
  shows "\<exists>b'. write_dest b d = Inr (b', None) \<and> appends st u b b' (dest_bytes d)"
proof -
  obtain a where a: "Address d = Some a" "wire_addr a"
    using assms(2) by (auto simp: dest_ok_def split: option.splits)
  have "addrByteMap (serializer_parser addrParser) ! unat (addr_Family a) \<noteq> afInvalid"
    using addrParser_ok(2) [of a] byte_valid by (auto simp: family_ok_def)
  moreover have "length x \<le> 256" if "a = domainAddress x" for x using a(2) that by simp
  ultimately show ?thesis
    using frame_buffer.WriteAddressPort_ok [OF assms(1), of addrParser a "dPort d"] assms(3) a(1)
    by (simp add: write_dest_def wire_bytes_dest [OF a(1)] appends_def)
qed

lemma write_net_dest_ok:
  assumes "buf_at st u b" "dest_ok d" "260 \<le> buf_room b"
  shows "\<exists>b'. write_net_dest b d = Inr (b', None) \<and> appends st u b b' (network_byte d # dest_bytes d)"
proof -
  let ?n = "of_nat (network_int (dNetwork d)) - 1 :: byte"
  have n: "?n = network_byte d"
    using assms(2) by (auto simp: dest_ok_def is_tcp_udp_def network_byte_def TargetNetworkTCP_def TargetNetworkUDP_def)
  obtain b1 where b1: "Must (Buffer_WriteByte b ?n) = Inr b1" "appends st u b b1 [?n]"
    using Must_WriteByte [OF assms(1)] assms(3) by fastforce
  obtain b2 where "write_dest b1 d = Inr (b2, None)" "appends st u b1 b2 (dest_bytes d)"
    using write_dest_ok [OF appends_at [OF b1(2)] assms(2)] appends_room [OF b1(2), of "length (dest_bytes d)"]
      dest_bytes_length [OF assms(2)] assms(3) by auto
  then show ?thesis using b1 n appends_trans [OF b1(2)] by (fastforce simp: write_net_dest_def)
qed

lemma write_inbound_ok:
  assumes "buf_at st u b" "inbound_ok i" "520 \<le> buf_room b"
  shows "\<exists>b'. write_inbound b i = Inr (b', None) \<and> appends st u b b' (inbound_bytes i)"
proof (cases "is_tcp_udp (Source i)")
  case False
  then show ?thesis using assms(1) by (simp add: write_inbound_def inbound_bytes_def appends_def)
next
  case True
  then have src: "dest_ok (Source i)" using assms(2) by (simp add: inbound_ok_def)
  obtain b1 where b1: "write_net_dest b (Source i) = Inr (b1, None)"
      "appends st u b b1 (network_byte (Source i) # dest_bytes (Source i))"
    using write_net_dest_ok [OF assms(1) src] assms(3) by auto
  show ?thesis
  proof (cases "is_tcp_udp (Local i)")
    case False
    then show ?thesis using True b1 by (simp add: write_inbound_def inbound_bytes_def)
  next
    case loc: True
    then have "dest_ok (Local i)" using assms(2) by (simp add: inbound_ok_def)
    moreover have "260 \<le> buf_room b1"
      using appends_room [OF b1(2), of 260] dest_bytes_length [OF src] assms(3) by simp
    ultimately obtain b2 where "write_net_dest b1 (Local i) = Inr (b2, None)"
        "appends st u b1 b2 (network_byte (Local i) # dest_bytes (Local i))"
      using write_net_dest_ok [OF appends_at [OF b1(2)]] by blast
    then show ?thesis
      using True loc b1 appends_trans [OF b1(2)] by (fastforce simp: write_inbound_def inbound_bytes_def)
  qed
qed

lemma write_new_ok:
  assumes "buf_at st u b" "frame_ok f u" "SessionStatus f = SessionStatusNew" "800 \<le> buf_room b"
  shows "\<exists>b'. write_new f b = Inr (b', None) \<and> appends st u b b' (frame_tail f u)"
proof -
  have tgt: "dest_ok (Target f)" and gid: "length (GlobalID f) = 8"
    using assms(2,3) by (simp_all add: frame_ok_def)
  obtain b1 where b1: "Must (Buffer_WriteByte b (network_byte (Target f))) = Inr b1"
      "appends st u b b1 [network_byte (Target f)]"
    using Must_WriteByte [OF assms(1)] assms(4) by fastforce
  have sw: "(if dNetwork (Target f) = Network_TCP then Must (Buffer_WriteByte b TargetNetworkTCP)
            else if dNetwork (Target f) = Network_UDP then Must (Buffer_WriteByte b TargetNetworkUDP)
            else Inr b) = Inr b1"
    using tgt b1(1) by (auto simp: dest_ok_def is_tcp_udp_def network_byte_def)
  obtain b2 where b2: "write_dest b1 (Target f) = Inr (b2, None)" "appends st u b1 b2 (dest_bytes (Target f))"
    using write_dest_ok [OF appends_at [OF b1(2)] tgt] appends_room [OF b1(2), of "length (dest_bytes (Target f))"]
      dest_bytes_length [OF tgt] assms(4) by auto
  have b12: "appends st u b b2 (network_byte (Target f) # dest_bytes (Target f))"
    using appends_trans [OF b1(2) b2(2)] by simp
  have room: "520 \<le> buf_room b2"
    using appends_room [OF b12, of 520] dest_bytes_length [OF tgt] assms(4) by simp
  note at = appends_at [OF b12]
  show ?thesis
  proof (cases "fInbound f")
    case (Some i)
    then have "inbound_ok i" using assms(2,3) by (simp add: frame_ok_def)
    then obtain b3 where "write_inbound b2 i = Inr (b3, None)" "appends st u b2 b3 (inbound_bytes i)"
      using write_inbound_ok [OF at _ room] by blast
    then show ?thesis
      using Some sw b2(1) appends_trans [OF b12] assms(3) by (fastforce simp: write_new_def frame_tail_def)
  next
    case None
    obtain b3 where "Buffer_Write b2 (GlobalID f) = Inr (b3, 8, None)" "appends st u b2 b3 (GlobalID f)"
      using frame_buffer.write_ok [OF at, of "GlobalID f"] room gid by (auto simp: appends_def)
    then show ?thesis
      using None sw b2(1) appends_trans [OF b12] b12 assms(3) at
      by (fastforce simp: write_new_def frame_tail_def buf_at_def)
  qed
qed

lemma write_udp_ok:
  assumes "buf_at st u b" "frame_ok f u" "SessionStatus f \<noteq> SessionStatusNew" "800 \<le> buf_room b"
  shows "\<exists>b'. write_udp b = Inr (b', None) \<and> appends st u b b' (frame_tail f u)"
proof (cases u)
  case None
  then show ?thesis using assms by (simp add: write_udp_def frame_tail_def appends_def buf_at_def)
next
  case (Some d)
  then have d: "dest_ok d" "buf_UDP b = Some d" using assms(1-3) by (simp_all add: frame_ok_def buf_at_def)
  obtain b1 where b1: "Buffer_WriteByte b TargetNetworkUDP = Inr (b1, None)" "appends st u b b1 [TargetNetworkUDP]"
    using Must_WriteByte [OF assms(1)] assms(4) by fastforce
  obtain b2 where "write_dest b1 d = Inr (b2, None)" "appends st u b1 b2 (dest_bytes d)"
    using write_dest_ok [OF appends_at [OF b1(2)] d(1)] appends_room [OF b1(2), of "length (dest_bytes d)"]
      dest_bytes_length [OF d(1)] assms(4) by auto
  then show ?thesis
    using Some d(2) b1 assms(3) appends_trans [OF b1(2)] by (fastforce simp: write_udp_def frame_tail_def)
qed

lemma put_at_ok:
  assumes "buf_at st u b" "buf_data b = xs @ ys @ zs" "length d = length ys" "pos = st + int (length xs)"
  shows "buf_at st u (put_at pos d b)" "buf_data (put_at pos d b) = xs @ d @ zs"
    "buf_room (put_at pos d b) = buf_room b" "buf_end (put_at pos d b) = buf_end b"
proof -
  have wf: "buf_wf b" "buf_start b = st" using assms(1) by (simp_all add: buf_at_def)
  from wf(1) obtain s e l where b: "buf_start b = int s" "buf_end b = int e" "buf_vlen b = int l"
    "s \<le> e" "e \<le> l" "l \<le> length (buf_v b)" "length (buf_v b) < 2147483648"
    "buf_data b = segment s e (buf_v b)" "buf_room b = l - e" by (rule buf_wfE)
  have e: "e = s + length xs + length ys + length zs"
    using arg_cong [OF assms(2), of length] b by simp
  have pos: "nat pos = s + length xs" using assms(4) b(1) wf(2) by simp
  have len: "length (overwrite (s + length xs) d (buf_v b)) = length (buf_v b)"
    using e assms(3) b(5,6) by simp
  then show "buf_at st u (put_at pos d b)" "buf_room (put_at pos d b) = buf_room b" "buf_end (put_at pos d b) = buf_end b"
    using assms(1) by (simp_all add: put_at_def buf_at_def pos buf_wf_def buf_room_def)
  have "take (length xs) (segment s e (buf_v b)) = xs" "drop (length xs + length ys) (segment s e (buf_v b)) = zs"
    using assms(2) b(8) by simp_all
  then have x: "segment s (s + length xs) (buf_v b) = xs" "segment (s + length xs + length ys) e (buf_v b) = zs"
    using e by (simp_all add: segment_take segment_drop add.assoc)
  have "segment s e (overwrite (s + length xs) d (buf_v b)) = xs @ d @ zs"
    using segment_overwrite [of s "s + length xs" d e "buf_v b"] x e assms(3) b(5,6) by simp
  then show "buf_data (put_at pos d b) = xs @ d @ zs"
    using b(1,2) by (simp add: put_at_def buf_data_def pos)
qed

lemma Extend_2:
  assumes "buf_at st u b" "2 \<le> buf_room b"
  shows "\<exists>b' d. Extend b 2 = Inr (b', d) \<and> appends st u b b' [0, 0]"
proof -
  have "buf_wf b" using assms(1) by (simp add: buf_at_def)
  from this assms(2) obtain b' where "Extend b (int 2) = Inr (b', replicate 2 0)" "buf_wf b'"
    "buf_data b' = buf_data b @ replicate 2 0" "buf_room b' = buf_room b - 2" "buf_UDP b' = buf_UDP b"
    by (rule Extend_spec)
  then show ?thesis
    using assms(1) Extend_start [of b 2] by (auto simp: appends_def buf_at_def numeral_2_eq_2)
qed

lemma end_of_data: "buf_at st u b \<Longrightarrow> buf_end b = st + int (length (buf_data b))"
  using data_length [of b] by (auto simp: buf_at_def)

lemma inbound_bytes_length: "inbound_ok i \<Longrightarrow> length (inbound_bytes i) \<le> 520"
  using dest_bytes_length [of "Source i"] dest_bytes_length [of "Local i"]
  by (auto simp: inbound_bytes_def inbound_ok_def)

lemma frame_body_length:
  assumes "frame_ok f u"
  shows "length (frame_body f u) \<le> 784"
proof (cases "SessionStatus f = SessionStatusNew")
  case True
  then have "dest_ok (Target f)" "\<And>i. fInbound f = Some i \<Longrightarrow> inbound_ok i" "length (GlobalID f) = 8"
    using assms by (auto simp: frame_ok_def)
  with True show ?thesis
    using dest_bytes_length [of "Target f"] inbound_bytes_length
    by (cases "fInbound f") (fastforce simp: frame_body_def frame_tail_def)+
next
  case False
  with assms show ?thesis
    using dest_bytes_length [of "the u"] by (auto simp: frame_body_def frame_tail_def frame_ok_def split: option.splits)
qed

text \<open>The header in front of the tail: the length field still zero.\<close>

lemma write_header_ok:
  assumes "buf_at st u b" "900 \<le> buf_room b"
  shows "\<exists>b1 b2 b3 b4 d1 d2. Extend b 2 = Inr (b1, d1) \<and> Extend b1 2 = Inr (b2, d2)
    \<and> Must (Buffer_WriteByte (put_at (buf_end b1) (put_u16 (SessionID f)) b2) (SessionStatus f)) = Inr b3
    \<and> Must (Buffer_WriteByte b3 (Option f)) = Inr b4
    \<and> appends st u b b1 [0, 0]
    \<and> appends st u b b4 ([0, 0] @ put_u16 (SessionID f) @ [SessionStatus f, Option f])"
proof -
  obtain b1 d1 where b1: "Extend b 2 = Inr (b1, d1)" "appends st u b b1 [0, 0]"
    using Extend_2 [OF assms(1)] assms(2) by auto
  obtain b2 d2 where b2: "Extend b1 2 = Inr (b2, d2)" "appends st u b1 b2 [0, 0]"
    using Extend_2 [OF appends_at [OF b1(2)]] appends_room [OF b1(2), of 2] assms(2) by auto
  let ?b2 = "put_at (buf_end b1) (put_u16 (SessionID f)) b2"
  have "buf_data b2 = buf_data b1 @ [0, 0] @ []" using b2(2) by (simp add: appends_def)
  then have "buf_at st u ?b2" "buf_data ?b2 = buf_data b1 @ put_u16 (SessionID f)" "buf_room ?b2 = buf_room b2"
    using put_at_ok [OF appends_at [OF b2(2)], of "buf_data b1" "[0, 0]" "[]"] end_of_data [OF appends_at [OF b1(2)]]
    by simp_all
  then have p: "appends st u b ?b2 ([0, 0] @ put_u16 (SessionID f))"
    using b1(2) b2(2) by (simp add: appends_def)
  obtain b3 where b3: "Must (Buffer_WriteByte ?b2 (SessionStatus f)) = Inr b3" "appends st u ?b2 b3 [SessionStatus f]"
    using Must_WriteByte [OF appends_at [OF p]] appends_room [OF p, of 1] assms(2) by fastforce
  note p3 = appends_trans [OF p b3(2)]
  obtain b4 where b4: "Must (Buffer_WriteByte b3 (Option f)) = Inr b4" "appends st u b3 b4 [Option f]"
    using Must_WriteByte [OF appends_at [OF p3]] appends_room [OF p3, of 1] assms(2) by fastforce
  show ?thesis using b1 b2 b3(1) b4(1) appends_trans [OF p3 b4(2)] by auto
qed

lemma FrameMetadata_WriteTo_ok:
  assumes "buf_at st u b" "frame_ok f u" "900 \<le> buf_room b"
  shows "\<exists>b'. FrameMetadata_WriteTo f b = Inr (b', None)
    \<and> appends st u b b' (put_u16 (of_nat (length (frame_body f u))) @ frame_body f u)"
proof -
  obtain b1 b2 b3 b4 d1 d2 where h: "Extend b 2 = Inr (b1, d1)" "Extend b1 2 = Inr (b2, d2)"
    "Must (Buffer_WriteByte (put_at (buf_end b1) (put_u16 (SessionID f)) b2) (SessionStatus f)) = Inr b3"
    "Must (Buffer_WriteByte b3 (Option f)) = Inr b4" "appends st u b b1 [0, 0]"
    "appends st u b b4 ([0, 0] @ put_u16 (SessionID f) @ [SessionStatus f, Option f])"
    using write_header_ok [OF assms(1,3), of f] by auto
  have "800 \<le> buf_room b4" using appends_room [OF h(6), of 800] assms(3) by simp
  then obtain b5 where b5: "(if SessionStatus f = SessionStatusNew then write_new f b4 else write_udp b4) = Inr (b5, None)"
      "appends st u b4 b5 (frame_tail f u)"
    using write_new_ok [OF appends_at [OF h(6)] assms(2)] write_udp_ok [OF appends_at [OF h(6)] assms(2)]
    by (cases "SessionStatus f = SessionStatusNew") auto
  have p: "appends st u b b5 ([0, 0] @ frame_body f u)"
    using appends_trans [OF h(6) b5(2)] by (simp add: frame_body_def)
  have lens: "Buffer_Len b5 = int (length (buf_data b5))" "Buffer_Len b1 = int (length (buf_data b1))"
    using appends_at [OF p] appends_at [OF h(5)] by (simp_all add: buf_at_def Buffer_Len_data)
  have diff: "i32 (Buffer_Len b5 - Buffer_Len b1) = int (length (frame_body f u))"
    using lens p h(5) frame_body_length [OF assms(2)] by (simp add: appends_def)
  let ?d = "put_u16 (of_nat (length (frame_body f u)))"
  have "buf_data b5 = buf_data b @ [0, 0] @ frame_body f u" using p by (simp add: appends_def)
  then have "buf_at st u (put_at (buf_end b) ?d b5)"
      "buf_data (put_at (buf_end b) ?d b5) = buf_data b @ ?d @ frame_body f u"
      "buf_room (put_at (buf_end b) ?d b5) = buf_room b5"
    using put_at_ok [OF appends_at [OF p], of "buf_data b" "[0, 0]"] end_of_data [OF assms(1)] by simp_all
  then have "appends st u b (put_at (buf_end b) ?d b5) (?d @ frame_body f u)"
    using p by (simp add: appends_def)
  then show ?thesis using h(1-4) b5(1) diff by (simp add: FrameMetadata_WriteTo_def)
qed

section \<open>Reading\<close>

lemma drain_to_ok:
  assumes "buf_wf b" "buf_data b = d @ rest"
  shows "buf_wf (drain_to b rest) \<and> buf_data (drain_to b rest) = rest"
proof (cases "rest = []")
  case True
  then show ?thesis using Buffer_Clear_spec [OF assms(1)] by (simp add: drain_to_def)
next
  case False
  have "length d \<le> length (buf_data b)" using assms(2) by simp
  note dr = drop_front [OF assms(1) this]
  have "buf_end b - int (length rest) = buf_start b + int (length d)"
    using data_length [OF assms(1)] assms(2) by simp
  then show ?thesis using dr(1,2) False assms(2) by (simp add: drain_to_def)
qed

lemma read_dest_ok:
  assumes "buf_wf b" "buf_data b = dest_bytes d @ rest" "dest_ok d" "length pool < 2 ^ 31"
  shows "\<exists>b'. read_dest pool pre (network_byte d) b = Inr (b', d) \<and> buf_wf b' \<and> buf_data b' = rest"
proof -
  obtain a where a: "Address d = Some a" "wire_addr a"
    using assms(3) by (auto simp: dest_ok_def split: option.splits)
  obtain x where "ReadAddressPort pool addrParser None (dest_bytes d @ rest) = Inr (x, rest, Some a, dPort d)"
    using ReadAddressPort_wire [OF addrParser_ok(1,2) a(2) assms(4), of "dPort d" rest] wire_bytes_dest [OF a(1)] by auto
  moreover have "d = TCPDestination (Some a) (dPort d)" if "dNetwork d = Network_TCP"
    using a(1) that by (simp add: TCPDestination_def)
  moreover have "d = UDPDestination (Some a) (dPort d)" if "dNetwork d = Network_UDP"
    using a(1) that by (simp add: UDPDestination_def)
  moreover have "is_tcp_udp d" using assms(3) by (simp add: dest_ok_def)
  ultimately show ?thesis
    using drain_to_ok [OF assms(1,2)] assms(1,2)
    by (auto simp: read_dest_def Bytes_data network_byte_def is_tcp_udp_def TargetNetworkTCP_def TargetNetworkUDP_def)
qed

lemma BytesTo_data:
  assumes "buf_wf b" "n \<le> length (buf_data b)"
  shows "BytesTo b (int n) = Inr (take n (buf_data b))"
proof -
  from assms(1) obtain s e l where b: "buf_start b = int s" "buf_end b = int e" "buf_vlen b = int l"
    "s \<le> e" "e \<le> l" "l \<le> length (buf_v b)" "length (buf_v b) < 2147483648"
    "buf_data b = segment s e (buf_v b)" by (rule buf_wfE)
  have "nat (int s + int n) = s + n" by simp
  then show ?thesis using b assms(2) by (simp add: BytesTo_def Let_def go_slice_def segment_take)
qed

lemma network_byte_nonzero: "network_byte d \<noteq> 0"
  by (simp add: network_byte_def TargetNetworkTCP_def TargetNetworkUDP_def)

lemma read_optional_dest_some:
  assumes "buf_wf b" "buf_data b = network_byte d # dest_bytes d @ rest" "dest_ok d" "length pool < 2 ^ 31"
  shows "\<exists>b'. read_optional_dest pool pre b = Inr (Some (b', d)) \<and> buf_wf b' \<and> buf_data b' = rest"
proof -
  have adv: "buf_wf (Advance b 1)" "buf_data (Advance b 1) = dest_bytes d @ rest"
    using Advance_spec [OF assms(1), of 1] assms(2) by auto
  have "Byte b 0 = Inr (network_byte d)" using Byte_data [OF assms(1), of 0] assms(2) by simp
  then show ?thesis
    using read_dest_ok [OF adv assms(3,4), of pre] assms(1,2) network_byte_nonzero
    by (auto simp: read_optional_dest_def Buffer_Len_data)
qed

lemma read_optional_dest_none:
  "buf_wf b \<Longrightarrow> buf_data b = [] \<Longrightarrow> read_optional_dest pool pre b = Inr None"
  by (simp add: read_optional_dest_def Buffer_Len_data)

text \<open>What the receiver sees of the inbound: the destinations that are on the wire.\<close>

definition inbound_seen :: "Inbound \<Rightarrow> Inbound" where
  "inbound_seen i =
     \<lparr>Source = (if is_tcp_udp (Source i) then Source i else zero_Destination),
      Local = (if is_tcp_udp (Source i) \<and> is_tcp_udp (Local i) then Local i else zero_Destination)\<rparr>"

lemma read_inbound_ok:
  assumes "buf_wf b" "buf_data b = inbound_bytes i" "inbound_ok i" "pool_ok pool"
  shows "read_inbound pool f b = Inr (f\<lparr>fInbound := Some (inbound_seen i)\<rparr>)"
proof (cases "is_tcp_udp (Source i)")
  case False
  then show ?thesis
    using assms(1,2) by (simp add: read_inbound_def inbound_bytes_def inbound_seen_def read_optional_dest_none)
next
  case src: True
  let ?r = "if is_tcp_udp (Local i) then network_byte (Local i) # dest_bytes (Local i) else []"
  have pl: "length (pool k) < 2 ^ 31" for k using assms(4) by (simp add: pool_ok_def)
  have "buf_data b = network_byte (Source i) # dest_bytes (Source i) @ ?r" "dest_ok (Source i)"
    using assms(2,3) src by (simp_all add: inbound_bytes_def inbound_ok_def)
  then obtain b1 where b1: "read_optional_dest (pool 1) ''reading source: '' b = Inr (Some (b1, Source i))"
      "buf_wf b1" "buf_data b1 = ?r"
    using read_optional_dest_some [OF assms(1) _ _ pl] by blast
  show ?thesis
  proof (cases "is_tcp_udp (Local i)")
    case False
    then show ?thesis
      using src b1 by (simp add: read_inbound_def inbound_seen_def read_optional_dest_none)
  next
    case True
    then have "buf_data b1 = network_byte (Local i) # dest_bytes (Local i) @ []" "dest_ok (Local i)"
      using b1(3) assms(3) by (simp_all add: inbound_ok_def)
    then obtain b2 where "read_optional_dest (pool 2) ''reading local: '' b1 = Inr (Some (b2, Local i))"
      using read_optional_dest_some [OF b1(2) _ _ pl] by blast
    then show ?thesis using True src b1(1) by (simp add: read_inbound_def inbound_seen_def)
  qed
qed

text \<open>The metadata after reading the frame of \<open>f\<close> into \<open>f0\<close>.\<close>

definition received :: "FrameMetadata \<Rightarrow> FrameMetadata \<Rightarrow> Destination option \<Rightarrow> bool \<Rightarrow> FrameMetadata" where
  "received f0 f u readSourceAndLocal =
     (let f1 = f0\<lparr>SessionID := SessionID f, SessionStatus := SessionStatus f, Option := Option f,
                  Target := (Target f0)\<lparr>dNetwork := Network_Unknown\<rparr>\<rparr>
      in if SessionStatus f = SessionStatusNew then
           let f2 = f1\<lparr>Target := Target f\<rparr>
           in if readSourceAndLocal then f2\<lparr>fInbound := map_option inbound_seen (fInbound f)\<rparr>
              else if Has (Option f) OptionData \<and> dNetwork (Target f) = Network_UDP \<and> u \<noteq> None
              then f2\<lparr>GlobalID := GlobalID f\<rparr> else f2
         else if SessionStatus f = SessionStatusKeep then
           (case u of None \<Rightarrow> f1 | Some d \<Rightarrow> f1\<lparr>Target := d\<rparr>)
         else f1)"

lemma dest_bytes_length_ge: "dest_ok d \<Longrightarrow> 3 \<le> length (dest_bytes d)"
proof -
  have "1 \<le> length (addr_wire tb a)" for tb a by (cases a) simp_all
  then show "dest_ok d \<Longrightarrow> 3 \<le> length (dest_bytes d)"
    by (fastforce simp: dest_ok_def dest_bytes_def split: option.splits)
qed

text \<open>The fixed part of a frame.\<close>

lemma frame_head:
  assumes "buf_wf b" "buf_data b = frame_body f u"
  shows "BytesTo b 2 = Inr (put_u16 (SessionID f))" "Byte b 2 = Inr (SessionStatus f)" "Byte b 3 = Inr (Option f)"
    "Buffer_Len b = 4 + int (length (frame_tail f u))"
    "frame_tail f u = x # r \<Longrightarrow> Byte b 4 = Inr x \<and> buf_wf (Advance b 5) \<and> buf_data (Advance b 5) = r"
proof -
  obtain p q where pq: "put_u16 (SessionID f) = [p, q]"
    by (simp add: put_u16_def numeral_2_eq_2)
  then have d: "buf_data b = [p, q, SessionStatus f, Option f] @ frame_tail f u"
    using assms(2) by (simp add: frame_body_def)
  show "BytesTo b 2 = Inr (put_u16 (SessionID f))"
    using BytesTo_data [OF assms(1), of 2] d pq by simp
  show "Byte b 2 = Inr (SessionStatus f)" "Byte b 3 = Inr (Option f)"
    using Byte_data [OF assms(1), of 2] Byte_data [OF assms(1), of 3] d by (simp_all add: numeral_2_eq_2 numeral_3_eq_3)
  show "Buffer_Len b = 4 + int (length (frame_tail f u))" using assms(1) d by (simp add: Buffer_Len_data)
  assume t: "frame_tail f u = x # r"
  show "Byte b 4 = Inr x \<and> buf_wf (Advance b 5) \<and> buf_data (Advance b 5) = r"
    using Byte_data [OF assms(1), of 4] Advance_spec [OF assms(1), of 5] d t by simp
qed

lemma UnmarshalFromBuffer_ok:
  assumes "buf_wf b" "buf_data b = frame_body f u" "frame_ok f u" "pool_ok pool" "length (GlobalID f0) = 8"
    "SessionStatus f = SessionStatusNew \<Longrightarrow> rsl \<longleftrightarrow> fInbound f \<noteq> None"
  shows "UnmarshalFromBuffer pool f0 b rsl = Inr (received f0 f u rsl)"
proof -
  note hd = frame_head(1-4) [OF assms(1,2)]
  have pl: "length (pool k) < 2 ^ 31" for k using assms(4) by (simp add: pool_ok_def)
  consider (new) "SessionStatus f = SessionStatusNew"
    | (keep) d where "SessionStatus f = SessionStatusKeep" "u = Some d"
    | (plain) "SessionStatus f \<noteq> SessionStatusNew" "SessionStatus f = SessionStatusKeep \<longrightarrow> u = None"
    by (cases u) (auto simp: status_defs)
  then show ?thesis
  proof cases
    case plain
    then have "frame_tail f u = []" if "SessionStatus f = SessionStatusKeep" using that by (simp add: frame_tail_def)
    then show ?thesis using plain hd
      by (cases "SessionStatus f = SessionStatusKeep") (simp_all add: UnmarshalFromBuffer_def received_def)
  next
    case keep
    then have d: "dest_ok d" "dNetwork d = Network_UDP" using assms(3) by (simp_all add: frame_ok_def status_defs)
    have t: "frame_tail f u = TargetNetworkUDP # dest_bytes d @ []" using keep by (simp add: frame_tail_def status_defs)
    note ad = frame_head(5) [OF assms(1,2) t]
    have nb: "network_byte d = TargetNetworkUDP" using d(2) by (simp add: network_byte_def)
    obtain b' where "read_dest (pool 0) [] TargetNetworkUDP (Advance b 5) = Inr (b', d)"
      using read_dest_ok [OF _ _ d(1) pl, of "Advance b 5" "[]"] ad nb by auto
    then show ?thesis
      using keep hd ad t dest_bytes_length_ge [OF d(1)]
      by (simp add: UnmarshalFromBuffer_def received_def Let_def status_defs)
  next
    case new
    then have d: "dest_ok (Target f)" using assms(3) by (simp add: frame_ok_def)
    let ?r = "case fInbound f of Some i \<Rightarrow> inbound_bytes i | None \<Rightarrow> if u \<noteq> None then GlobalID f else []"
    have t: "frame_tail f u = network_byte (Target f) # dest_bytes (Target f) @ ?r" using new by (simp add: frame_tail_def)
    note ad = frame_head(5) [OF assms(1,2) t]
    obtain b' where b': "read_dest (pool 0) [] (network_byte (Target f)) (Advance b 5) = Inr (b', Target f)"
        "buf_wf b'" "buf_data b' = ?r"
      using read_dest_ok [OF _ _ d pl, of "Advance b 5" ?r] ad by auto
    have len: "\<not> Buffer_Len b < 8" using hd(4) t dest_bytes_length_ge [OF d] by simp
    show ?thesis
    proof (cases "fInbound f")
      case (Some i)
      then have "inbound_ok i" "rsl" using assms(3,6) new by (simp_all add: frame_ok_def)
      then show ?thesis
        using read_inbound_ok [OF b'(2) _ _ assms(4)] Some new hd ad b' len
        by (simp add: UnmarshalFromBuffer_def received_def Let_def)
    next
      case None
      then have r: "\<not> rsl" "buf_data b' = (if u \<noteq> None then GlobalID f else [])" "length (GlobalID f) = 8"
        using assms(3,6) new b'(3) by (simp_all add: frame_ok_def)
      have "Buffer_Len b' \<ge> 8 \<longleftrightarrow> u \<noteq> None" using r(2,3) b'(2) by (auto simp: Buffer_Len_data)
      then show ?thesis
        using None new hd ad b'(1,2) r len assms(5)
        by (cases u; simp add: UnmarshalFromBuffer_def received_def)
           (simp_all add: Let_def Bytes_data go_copy_def)
    qed
  qed
qed

lemma Unmarshal_ok:
  assumes "frame_ok f u" "length (frame_body f u) \<le> 512" "pool_ok pool" "length (GlobalID f0) = 8"
    "SessionStatus f = SessionStatusNew \<Longrightarrow> rsl \<longleftrightarrow> fInbound f \<noteq> None"
  shows "Unmarshal pool f0 (put_u16 (of_nat (length (frame_body f u))) @ frame_body f u @ rest) rsl
    = Inr (received f0 f u rsl, rest)"
proof -
  let ?n = "length (frame_body f u)"
  have n: "\<not> (of_nat ?n :: u16) > 512" "uint (of_nat ?n :: u16) = int ?n"
    using assms(2) by (simp_all add: word_less_nat_alt unat_of_nat uint_nat)
  have "buf_wf (New (pool 3))" "?n \<le> buf_room (New (pool 3))"
    using assms(2,3) by (simp_all add: pool_ok_def Size_def)
  then obtain b where b: "ReadFullFrom (New (pool 3)) (frame_body f u @ rest) (int ?n) =
       Inr (b, drop ?n (frame_body f u @ rest), min ?n (length (frame_body f u @ rest)),
            if ?n \<le> length (frame_body f u @ rest) then None
            else if frame_body f u @ rest = [] then Some EOF else Some UnexpectedEOF)"
    "buf_wf b" "buf_data b = buf_data (New (pool 3)) @ take ?n (frame_body f u @ rest)"
    by (rule ReadFullFrom_spec)
  have "buf_data b = frame_body f u" using b(3) by simp
  from UnmarshalFromBuffer_ok [OF b(2) this assms(1,3,4,5)]
  have "UnmarshalFromBuffer pool f0 b rsl = Inr (received f0 f u rsl)" .
  then show ?thesis using n b(1) by (simp add: Unmarshal_def ReadUint16_def)
qed

section \<open>Properties\<close>

lemma New_UDP_at: "length mem < 2 ^ 31 \<Longrightarrow> buf_at 0 u ((New mem)\<lparr>buf_UDP := u\<rparr>)"
  using New_wf [of mem] by (simp add: buf_at_def buf_wf_def)

lemma New_UDP_data: "buf_data ((New mem)\<lparr>buf_UDP := u\<rparr>) = []" "buf_room ((New mem)\<lparr>buf_UDP := u\<rparr>) = Size"
  by (simp_all add: buf_data_def buf_room_def)


definition sample_dest :: Destination where
  "sample_dest = UDPDestination (Some (ipv4Address [1, 2, 3, 4])) 53"

definition sample_frame :: FrameMetadata where
  "sample_frame = \<lparr>Target = sample_dest, SessionID = 7, Option = OptionData, SessionStatus = SessionStatusNew,
     GlobalID = [1, 2, 3, 4, 5, 6, 7, 8], fInbound = None\<rparr>"

definition zero_frame :: FrameMetadata where
  "zero_frame = \<lparr>Target = zero_Destination, SessionID = 0, Option = 0, SessionStatus = 0,
     GlobalID = replicate 8 0, fInbound = None\<rparr>"


end
