(* ===== verification/Router_Strategy.thy ===== *)
theory Router_Strategy
  imports Go_Prelude "HOL-Library.Multiset" "HOL-Library.Product_Lexorder"
begin

text \<open>
  The balancing strategies of \<open>app/router\<close>: \<open>balancing.go\<close> (round robin), \<open>strategy_random.go\<close>,
  \<open>strategy_leastping.go\<close> and \<open>strategy_leastload.go\<close>, with \<open>balancing_override.go\<close>.  What a
  strategy reads from its observatory at a call is an argument, and so is the number that
  \<open>math/rand\<close> draws.  The floating-point results of least load (the deviation cost of a node, the
  comparison of a failure rate with the tolerance) are fields of its settings.
\<close>

section \<open>Observations\<close>

record HealthPing =
  hp_All :: int
  hp_Fail :: int
  hp_Deviation :: int
  hp_Average :: int

record OutboundStatus =
  Alive :: bool
  Delay :: int
  OutboundTag :: string
  hping :: "HealthPing option"
  TrackedFrom :: string

text \<open>
  What \<open>GetObservation\<close> gives a strategy: there is no observatory, it fails, its message is no
  \<open>ObservationResult\<close>, or the statuses.
\<close>

datatype observation = NoObservatory | ObservationFails | OtherMessage | Observed "OutboundStatus list"

text \<open>A loop that enters the statuses in a Go map by tag: the last one of a tag stays.\<close>

definition statusMap :: "OutboundStatus list \<Rightarrow> string \<rightharpoonup> OutboundStatus" where
  "statusMap sts = foldl (\<lambda>m s. m(OutboundTag s \<mapsto> s)) Map.empty sts"

definition aliveCandidates :: "observation \<Rightarrow> string list \<Rightarrow> string list" where
  "aliveCandidates obs tags =
     (case obs of
        Observed sts \<Rightarrow>
          filter (\<lambda>candidate. case statusMap sts candidate of Some s \<Rightarrow> Alive s | None \<Rightarrow> True) tags
      | _ \<Rightarrow> tags)"

text \<open>
  \<open>dice.Roll\<close>: \<open>rand.Intn(n)\<close> is a number below \<open>n\<close>, the remainder of what the generator draws.
\<close>

definition Roll :: "nat \<Rightarrow> nat \<Rightarrow> nat" where
  "Roll drawn n = (if n = 1 then 0 else drawn mod n)"

lemma Roll_less [simp]: "0 < n \<Longrightarrow> Roll drawn n < n"
  by (simp add: Roll_def)

section \<open>Round robin and random\<close>

definition RoundRobin_PickOutbound :: "observation \<Rightarrow> string list \<Rightarrow> nat \<Rightarrow> string \<times> nat" where
  "RoundRobin_PickOutbound obs tags0 index =
     (let tags = aliveCandidates obs tags0; n = length tags
      in if n = 0 then ('''', index) else (tags ! (index mod n), (index + 1) mod n))"

definition alive_FallbackActive :: "observation \<Rightarrow> string list \<Rightarrow> bool" where
  "alive_FallbackActive obs tags \<longleftrightarrow> length (aliveCandidates obs tags) = 0"

definition Random_PickOutbound :: "observation \<Rightarrow> nat \<Rightarrow> string list \<Rightarrow> string" where
  "Random_PickOutbound obs drawn candidates0 =
     (let candidates = aliveCandidates obs candidates0; cnt = length candidates
      in if cnt = 0 then '''' else candidates ! Roll drawn cnt)"

section \<open>Least ping\<close>

definition outboundList_contains :: "string list \<Rightarrow> string \<Rightarrow> bool" where
  "outboundList_contains xs name \<longleftrightarrow> list_ex (\<lambda>v. v = name) xs"

fun least_ping_loop :: "string list \<Rightarrow> OutboundStatus list \<Rightarrow> int \<Rightarrow> string \<Rightarrow> string" where
  "least_ping_loop cs [] leastPing selected = selected"
| "least_ping_loop cs (v # sts) leastPing selected =
     (if outboundList_contains cs (OutboundTag v) \<and> Alive v \<and> Delay v < leastPing
      then least_ping_loop cs sts (Delay v) (OutboundTag v)
      else least_ping_loop cs sts leastPing selected)"

definition LeastPing_PickOutbound :: "observation \<Rightarrow> string list \<Rightarrow> string" where
  "LeastPing_PickOutbound obs candidates =
     (case obs of Observed sts \<Rightarrow> least_ping_loop candidates sts 99999999 '''' | _ \<Rightarrow> '''')"

definition LeastPing_FallbackActive :: "observation \<Rightarrow> string list \<Rightarrow> bool" where
  "LeastPing_FallbackActive obs candidates \<longleftrightarrow> LeastPing_PickOutbound obs candidates = ''''"

section \<open>Least load\<close>

record node =
  node_Tag :: string
  CountAll :: int
  CountFail :: int
  RTTAverage :: int
  RTTDeviation :: int
  RTTDeviationCost :: int

record LeastLoad =
  Baselines :: "int list"
  Expected :: int
  MaxRTT :: int
  Tolerance_positive :: bool
  fails_too_often :: "int \<Rightarrow> int \<Rightarrow> bool"
  deviation_cost :: "string \<Rightarrow> int \<Rightarrow> int"

text \<open>\<open>time.Millisecond\<close> in nanoseconds; a product of \<open>time.Duration\<close> values wraps at 64 bits.\<close>

definition i64 :: "int \<Rightarrow> int" where
  "i64 x = (x + 2 ^ 63) mod 2 ^ 64 - 2 ^ 63"

definition millis :: "int \<Rightarrow> int" where
  "millis d = i64 (d * 1000000)"

definition shouldSelectNode :: "LeastLoad \<Rightarrow> OutboundStatus \<Rightarrow> string list \<Rightarrow> bool" where
  "shouldSelectNode s v candidates =
     (if \<not> Alive v then False
      else if MaxRTT s \<noteq> 0 \<and> Delay v \<ge> (if MaxRTT s < 0 then - (- MaxRTT s div 1000000) else MaxRTT s div 1000000) then False
      else if OutboundTag v \<notin> set candidates then False
      else case hping v of
        Some h \<Rightarrow> \<not> (hp_All h > 0 \<and> Tolerance_positive s \<and> fails_too_often s (hp_Fail h) (hp_All h))
      | None \<Rightarrow> True)"

definition node_of :: "LeastLoad \<Rightarrow> OutboundStatus \<Rightarrow> node" where
  "node_of s v =
     (case hping v of
        None \<Rightarrow> \<lparr>node_Tag = OutboundTag v, CountAll = 1, CountFail = 1, RTTAverage = millis (Delay v),
                 RTTDeviation = millis (Delay v),
                 RTTDeviationCost = deviation_cost s (OutboundTag v) (millis (Delay v))\<rparr>
      | Some h \<Rightarrow> \<lparr>node_Tag = OutboundTag v, CountAll = hp_All h, CountFail = hp_Fail h, RTTAverage = hp_Average h,
                   RTTDeviation = hp_Deviation h,
                   RTTDeviationCost = deviation_cost s (OutboundTag v) (hp_Deviation h)\<rparr>)"

text \<open>
  \<open>leastloadSort\<close> orders by five keys, the last of them the tag; nodes that agree on all five are
  interchangeable, so a stable sort on the keys gives the order of \<open>sort.Slice\<close>.
\<close>

definition load_less :: "node \<Rightarrow> node \<Rightarrow> bool" where
  "load_less left right =
     (if RTTDeviationCost left \<noteq> RTTDeviationCost right then RTTDeviationCost left < RTTDeviationCost right
      else if RTTAverage left \<noteq> RTTAverage right then RTTAverage left < RTTAverage right
      else if CountFail left \<noteq> CountFail right then CountFail left < CountFail right
      else if CountAll left \<noteq> CountAll right then CountAll left > CountAll right
      else node_Tag left < node_Tag right)"

fun insert_node :: "node \<Rightarrow> node list \<Rightarrow> node list" where
  "insert_node x [] = [x]"
| "insert_node x (y # ys) = (if load_less y x then y # insert_node x ys else x # y # ys)"

definition leastloadSort :: "node list \<Rightarrow> node list" where
  "leastloadSort nodes = foldr insert_node nodes []"

definition getNodes :: "LeastLoad \<Rightarrow> observation \<Rightarrow> string list \<Rightarrow> node list" where
  "getNodes s obs candidates =
     (case obs of
        Observed sts \<Rightarrow> leastloadSort (map (node_of s) (filter (\<lambda>v. shouldSelectNode s v candidates) sts))
      | _ \<Rightarrow> [])"

text \<open>The inner loop over the nodes from \<open>count\<close> on, and the loop over the baselines.\<close>

fun below_baseline :: "int \<Rightarrow> node list \<Rightarrow> nat" where
  "below_baseline b [] = 0"
| "below_baseline b (n # ns) = (if RTTDeviationCost n \<ge> b then 0 else Suc (below_baseline b ns))"

fun baselines_loop :: "node list \<Rightarrow> nat \<Rightarrow> int list \<Rightarrow> nat \<Rightarrow> nat" where
  "baselines_loop nodes expected [] cnt = cnt"
| "baselines_loop nodes expected (b # bs) cnt =
     (let cnt' = cnt + below_baseline b (drop cnt nodes)
      in if cnt' \<ge> expected then cnt' else baselines_loop nodes expected bs cnt')"

definition selectLeastLoad :: "LeastLoad \<Rightarrow> node list \<Rightarrow> node list" where
  "selectLeastLoad s nodes =
     (if nodes = [] then []
      else if Expected s > int (length nodes) then nodes
      else
        let expected = (if Expected s \<le> 0 then 1 else nat (Expected s))
        in if Baselines s = [] then take expected nodes
           else
             let cnt = baselines_loop nodes expected (Baselines s) 0;
                 cnt' = (if Expected s > 0 \<and> cnt < expected then expected else cnt)
             in take cnt' nodes)"

definition pickOutbounds :: "LeastLoad \<Rightarrow> observation \<Rightarrow> string list \<Rightarrow> node list" where
  "pickOutbounds s obs candidates = selectLeastLoad s (getNodes s obs candidates)"

definition LeastLoad_PickOutbound :: "LeastLoad \<Rightarrow> observation \<Rightarrow> nat \<Rightarrow> string list \<Rightarrow> string" where
  "LeastLoad_PickOutbound s obs drawn candidates =
     (let selects = pickOutbounds s obs candidates; cnt = length selects
      in if cnt = 0 then '''' else node_Tag (selects ! Roll drawn cnt))"

definition LeastLoad_FallbackActive :: "LeastLoad \<Rightarrow> observation \<Rightarrow> string list \<Rightarrow> bool" where
  "LeastLoad_FallbackActive s obs candidates \<longleftrightarrow> length (pickOutbounds s obs candidates) = 0"

section \<open>What every strategy promises\<close>

text \<open>
  \<open>BalancingStrategy\<close> with \<open>BalancingFallbackState\<close>: a pick is a candidate or the empty tag, and
  \<open>FallbackActive\<close> tells beforehand which.
\<close>

locale balancing_strategy =
  fixes pick :: "string list \<Rightarrow> string" and fallback_active :: "string list \<Rightarrow> bool"
  assumes pick_candidate: "pick cs \<noteq> '''' \<Longrightarrow> pick cs \<in> set cs"
    and active_iff: "'''' \<notin> set cs \<Longrightarrow> fallback_active cs \<longleftrightarrow> pick cs = ''''"
begin

lemma no_candidates: "fallback_active []"
  using pick_candidate [of "[]"] active_iff [of "[]"] by auto

lemma inactive_pick: "'''' \<notin> set cs \<Longrightarrow> \<not> fallback_active cs \<Longrightarrow> pick cs \<in> set cs"
  using pick_candidate active_iff by blast

end

lemma aliveCandidates_subset: "set (aliveCandidates obs tags) \<subseteq> set tags"
  by (auto simp: aliveCandidates_def split: observation.splits)

lemma nth_alive: "i < length (aliveCandidates obs tags) \<Longrightarrow> aliveCandidates obs tags ! i \<in> set tags"
  using aliveCandidates_subset [of obs tags] nth_mem by fastforce

lemma nth_alive_ne: "'''' \<notin> set tags \<Longrightarrow> i < length (aliveCandidates obs tags) \<Longrightarrow> aliveCandidates obs tags ! i \<noteq> ''''"
  using nth_alive [of i obs tags] by auto

interpretation round_robin: balancing_strategy "\<lambda>cs. fst (RoundRobin_PickOutbound obs cs index)" "alive_FallbackActive obs"
  for obs index
  by unfold_locales
    (auto simp: RoundRobin_PickOutbound_def alive_FallbackActive_def Let_def nth_alive nth_alive_ne)

interpretation random: balancing_strategy "Random_PickOutbound obs drawn" "alive_FallbackActive obs" for obs drawn
  by unfold_locales
    (auto simp: Random_PickOutbound_def alive_FallbackActive_def Let_def nth_alive nth_alive_ne)

lemma least_ping_loop_mem:
  "least_ping_loop cs sts l sel = sel \<or> least_ping_loop cs sts l sel \<in> set cs"
  by (induction cs sts l sel rule: least_ping_loop.induct) (auto simp: outboundList_contains_def list_ex_iff)

interpretation least_ping: balancing_strategy "LeastPing_PickOutbound obs" "LeastPing_FallbackActive obs" for obs
proof unfold_locales
  show "LeastPing_PickOutbound obs cs \<noteq> '''' \<Longrightarrow> LeastPing_PickOutbound obs cs \<in> set cs" for cs
    using least_ping_loop_mem [of cs _ 99999999 "''''"]
    by (fastforce simp: LeastPing_PickOutbound_def split: observation.splits)
qed (simp add: LeastPing_FallbackActive_def)

lemma mset_insert_node: "mset (insert_node x xs) = {#x#} + mset xs"
  by (induction xs) auto

lemma mset_leastloadSort [simp]: "mset (leastloadSort xs) = mset xs"
  by (induction xs) (simp_all add: leastloadSort_def mset_insert_node)

lemma set_leastloadSort [simp]: "set (leastloadSort xs) = set xs"
  by (metis mset_leastloadSort set_mset_mset)

lemma selectLeastLoad_take: "\<exists>k. selectLeastLoad s nodes = take k nodes"
  by (auto simp: selectLeastLoad_def Let_def intro: exI [of _ "length nodes"])

lemma node_of_Tag [simp]: "node_Tag (node_of s v) = OutboundTag v"
  by (simp add: node_of_def split: option.split)

lemma shouldSelectNode_tag: "shouldSelectNode s v cs \<Longrightarrow> OutboundTag v \<in> set cs"
  unfolding shouldSelectNode_def by (metis (full_types))

lemma getNodes_tags: "n \<in> set (getNodes s obs cs) \<Longrightarrow> node_Tag n \<in> set cs"
  by (cases obs) (auto simp: getNodes_def dest: shouldSelectNode_tag)

lemma pickOutbounds_tags: "n \<in> set (pickOutbounds s obs cs) \<Longrightarrow> node_Tag n \<in> set cs"
  using selectLeastLoad_take [of s "getNodes s obs cs"] getNodes_tags
  by (metis in_set_takeD pickOutbounds_def)

interpretation least_load: balancing_strategy "LeastLoad_PickOutbound s obs drawn" "LeastLoad_FallbackActive s obs"
  for s obs drawn
proof unfold_locales
  have *: "LeastLoad_PickOutbound s obs drawn cs \<in> set cs" if "\<not> LeastLoad_FallbackActive s obs cs" for cs
    using that pickOutbounds_tags [OF nth_mem [OF Roll_less]]
    by (simp add: LeastLoad_PickOutbound_def LeastLoad_FallbackActive_def Let_def)
  have active: "LeastLoad_PickOutbound s obs drawn cs = ''''" if "LeastLoad_FallbackActive s obs cs" for cs
    using that by (simp add: LeastLoad_PickOutbound_def LeastLoad_FallbackActive_def)
  show "LeastLoad_PickOutbound s obs drawn cs \<noteq> '''' \<Longrightarrow> LeastLoad_PickOutbound s obs drawn cs \<in> set cs" for cs
    using * active by blast
  show "'''' \<notin> set cs \<Longrightarrow> LeastLoad_FallbackActive s obs cs = (LeastLoad_PickOutbound s obs drawn cs = '''')" for cs
    using * [of cs] active [of cs] by (cases "LeastLoad_FallbackActive s obs cs") auto
qed

section \<open>Round robin is fair\<close>

fun rr_picks :: "nat \<Rightarrow> observation \<Rightarrow> string list \<Rightarrow> nat \<Rightarrow> string list" where
  "rr_picks 0 obs tags index = []"
| "rr_picks (Suc k) obs tags index =
     (let (tag, index') = RoundRobin_PickOutbound obs tags index in tag # rr_picks k obs tags index')"

lemma rr_picks_nth:
  assumes "n = length (aliveCandidates obs tags)" "0 < n"
  shows "rr_picks k obs tags index = map (\<lambda>i. aliveCandidates obs tags ! ((index + i) mod n)) [0..<k]"
proof (induction k arbitrary: index)
  case (Suc k)
  let ?f = "\<lambda>j i. aliveCandidates obs tags ! ((j + i) mod n)"
  have "rr_picks (Suc k) obs tags index = ?f index 0 # map (?f ((index + 1) mod n)) [0..<k]"
    using assms Suc.IH by (simp add: RoundRobin_PickOutbound_def Let_def)
  also have "map (?f ((index + 1) mod n)) [0..<k] = map (?f index) (map Suc [0..<k])"
    by (simp add: mod_simps)
  also have "?f index 0 # \<dots> = map (?f index) [0..<Suc k]"
    unfolding map_Suc_upt by (subst (2) upt_conv_Cons) simp_all
  finally show ?case .
qed simp

text \<open>
  C23: while the observation and the candidates stay, any n consecutive round robin picks, from
  whatever position, are a rotation of the n live candidates: each is picked once, in order.
\<close>

theorem round_robin_fair:
  assumes "aliveCandidates obs tags \<noteq> []"
  shows "rr_picks (length (aliveCandidates obs tags)) obs tags index = rotate index (aliveCandidates obs tags)"
  using assms rr_picks_nth [OF refl, of obs tags "length (aliveCandidates obs tags)" index]
  by (auto intro!: nth_equalityI simp: nth_rotate add.commute)

theorem round_robin_fair_witness:
  "rr_picks 3 NoObservatory [''a'', ''b'', ''c''] 1 = [''b'', ''c'', ''a'']"
  using round_robin_fair [of NoObservatory "[''a'', ''b'', ''c'']" 1] by (simp add: aliveCandidates_def numeral_3_eq_3)

section \<open>Least ping is optimal\<close>

lemma least_ping_loop_min:
  "(\<forall>v \<in> set sts. OutboundTag v \<in> set cs \<and> Alive v \<longrightarrow> l \<le> Delay v) \<and> least_ping_loop cs sts l sel = sel \<or>
   (\<exists>v \<in> set sts. OutboundTag v \<in> set cs \<and> Alive v \<and> Delay v < l \<and> least_ping_loop cs sts l sel = OutboundTag v
      \<and> (\<forall>u \<in> set sts. OutboundTag u \<in> set cs \<and> Alive u \<longrightarrow> Delay v \<le> Delay u))"
proof (induction cs sts l sel rule: least_ping_loop.induct)
  case (2 cs v sts l sel)
  have c: "outboundList_contains cs (OutboundTag v) \<longleftrightarrow> OutboundTag v \<in> set cs"
    by (auto simp: outboundList_contains_def list_ex_iff)
  show ?case
  proof (cases "OutboundTag v \<in> set cs \<and> Alive v \<and> Delay v < l")
    case True
    then have eq: "least_ping_loop cs (v # sts) l sel = least_ping_loop cs sts (Delay v) (OutboundTag v)" by (simp add: c)
    consider "\<forall>u \<in> set sts. OutboundTag u \<in> set cs \<and> Alive u \<longrightarrow> Delay v \<le> Delay u"
        "least_ping_loop cs sts (Delay v) (OutboundTag v) = OutboundTag v"
      | w where "w \<in> set sts" "OutboundTag w \<in> set cs" "Alive w" "Delay w < Delay v"
        "least_ping_loop cs sts (Delay v) (OutboundTag v) = OutboundTag w"
        "\<forall>u \<in> set sts. OutboundTag u \<in> set cs \<and> Alive u \<longrightarrow> Delay w \<le> Delay u"
      using 2(1) [unfolded c, OF True] by blast
    then show ?thesis
    proof cases
      case 1
      then show ?thesis using True unfolding eq by (intro disjI2 bexI [of _ v]) simp_all
    next
      case 2
      then show ?thesis using True unfolding eq by (intro disjI2 bexI [of _ w]) simp_all
    qed
  next
    case False
    then have eq: "least_ping_loop cs (v # sts) l sel = least_ping_loop cs sts l sel"
      unfolding least_ping_loop.simps c by (rule if_not_P)
    consider "\<forall>u \<in> set sts. OutboundTag u \<in> set cs \<and> Alive u \<longrightarrow> l \<le> Delay u" "least_ping_loop cs sts l sel = sel"
      | w where "w \<in> set sts" "OutboundTag w \<in> set cs" "Alive w" "Delay w < l"
        "least_ping_loop cs sts l sel = OutboundTag w"
        "\<forall>u \<in> set sts. OutboundTag u \<in> set cs \<and> Alive u \<longrightarrow> Delay w \<le> Delay u"
      using 2(2) [unfolded c, OF False] by blast
    then show ?thesis
    proof cases
      case 1
      then show ?thesis using False unfolding eq by (intro disjI1) auto
    next
      case 2
      then show ?thesis using False unfolding eq by (intro disjI2 bexI [of _ w]) auto
    qed
  qed
qed simp

text \<open>
  C24: least ping picks an outbound that is a candidate, alive and no slower than any other live
  candidate; it yields no outbound exactly when no live candidate answers within 99999999 ms.
\<close>

theorem least_ping_optimal:
  assumes "'''' \<notin> set cs"
  shows "(LeastPing_PickOutbound (Observed sts) cs = '''' \<longleftrightarrow>
      (\<forall>v \<in> set sts. OutboundTag v \<in> set cs \<and> Alive v \<longrightarrow> 99999999 \<le> Delay v))
    \<and> (LeastPing_PickOutbound (Observed sts) cs \<noteq> '''' \<longrightarrow>
      (\<exists>v \<in> set sts. OutboundTag v = LeastPing_PickOutbound (Observed sts) cs \<and> OutboundTag v \<in> set cs \<and> Alive v
        \<and> (\<forall>u \<in> set sts. OutboundTag u \<in> set cs \<and> Alive u \<longrightarrow> Delay v \<le> Delay u)))"
  using least_ping_loop_min [of sts cs 99999999 "''''"] assms
  by (simp add: LeastPing_PickOutbound_def) (elim disjE bexE, force+)

definition sample_statuses :: "OutboundStatus list" where
  "sample_statuses =
     [\<lparr>Alive = True, Delay = 80, OutboundTag = ''a'', hping = None, TrackedFrom = ''''\<rparr>,
      \<lparr>Alive = True, Delay = 30, OutboundTag = ''b'', hping = None, TrackedFrom = ''''\<rparr>,
      \<lparr>Alive = False, Delay = 10, OutboundTag = ''c'', hping = None, TrackedFrom = ''''\<rparr>]"

theorem least_ping_optimal_witness:
  "'''' \<notin> set [''a'', ''b'', ''c''] \<and> LeastPing_PickOutbound (Observed sample_statuses) [''a'', ''b'', ''c''] = ''b''
    \<and> (\<exists>v \<in> set sample_statuses. OutboundTag v = ''b'' \<and> Alive v
        \<and> (\<forall>u \<in> set sample_statuses. OutboundTag u \<in> set [''a'', ''b'', ''c''] \<and> Alive u \<longrightarrow> Delay v \<le> Delay u))"
proof -
  have "LeastPing_PickOutbound (Observed sample_statuses) [''a'', ''b'', ''c''] = ''b''"
    by (simp add: LeastPing_PickOutbound_def sample_statuses_def outboundList_contains_def)
  then show ?thesis using least_ping_optimal [of "[''a'', ''b'', ''c'']" sample_statuses] by auto
qed

section \<open>Least load selects a best prefix\<close>

definition load_key :: "node \<Rightarrow> int \<times> int \<times> int \<times> int \<times> string" where
  "load_key n = (RTTDeviationCost n, RTTAverage n, CountFail n, - CountAll n, node_Tag n)"

lemma prod_less_if: "(a, b) < (c, d) \<longleftrightarrow> (if a \<noteq> c then a < c else b < d)"
  for a c :: "'a :: linorder" and b d :: "'b :: linorder"
  by auto

lemma load_less_key: "load_less x y \<longleftrightarrow> load_key x < load_key y"
  unfolding load_less_def load_key_def prod_less_if neg_less_iff_less neg_equal_iff_equal ..

lemma set_insert_node: "set (insert_node x ys) = insert x (set ys)"
  by (induction ys) auto

lemma sorted_insert_node:
  "sorted_wrt (\<lambda>a b. \<not> load_less b a) xs \<Longrightarrow> sorted_wrt (\<lambda>a b. \<not> load_less b a) (insert_node x xs)"
  by (induction xs) (auto simp: set_insert_node load_less_key)

lemma sorted_leastloadSort: "sorted_wrt (\<lambda>a b. \<not> load_less b a) (leastloadSort xs)"
  by (induction xs) (simp_all add: leastloadSort_def sorted_insert_node)

lemma below_baseline_le: "below_baseline b ns \<le> length ns"
  by (induction ns) auto

lemma baselines_loop_le: "cnt \<le> length nodes \<Longrightarrow> baselines_loop nodes e bs cnt \<le> length nodes"
proof (induction bs arbitrary: cnt)
  case (Cons b bs)
  have "cnt + below_baseline b (drop cnt nodes) \<le> length nodes"
    using below_baseline_le [of b "drop cnt nodes"] Cons.prems by simp
  then show ?case using Cons.IH by (simp add: Let_def)
qed simp


definition sample_load :: LeastLoad where
  "sample_load = \<lparr>Baselines = [], Expected = 1, MaxRTT = 0, Tolerance_positive = False,
     fails_too_often = (\<lambda>_ _. False), deviation_cost = (\<lambda>_ d. d)\<rparr>"


end
