(* ===== verification/Tarjan.thy ===== *)
theory Tarjan
  imports Go_Prelude "HOL-Library.AList"
begin

text \<open>
  Tarjan's algorithm as the router has it twice: \<open>components\<close> in \<open>app/router/fallback_chain.go\<close>
  and \<open>stronglyConnected\<close> in \<open>app/router/loops.go\<close>.  The closure \<open>visit\<close> and the variables it
  captures are a state record; the Go map \<open>index\<close> is an association list, whose length is
  \<open>len(index)\<close>; the stack has its top first.  The recursion of \<open>visit\<close> runs on fuel, and
  \<open>None\<close> is running out of it or popping an empty stack; both are shown not to happen.
\<close>

record 'a tarjan =
  t_index :: "('a \<times> nat) list"
  t_low :: "'a \<Rightarrow> nat"
  t_onStack :: "'a \<Rightarrow> bool"
  t_stack :: "'a list"
  t_out :: "'a list list"

definition idx :: "'a tarjan \<Rightarrow> 'a \<Rightarrow> nat" where
  "idx st v = (case map_of (t_index st) v of None \<Rightarrow> 0 | Some i \<Rightarrow> i)"

definition seen :: "'a tarjan \<Rightarrow> 'a \<Rightarrow> bool" where
  "seen st v \<longleftrightarrow> map_of (t_index st) v \<noteq> None"

fun pop_until :: "'a \<Rightarrow> 'a list \<Rightarrow> ('a \<Rightarrow> bool) \<Rightarrow> 'a list \<Rightarrow> ('a list \<times> ('a \<Rightarrow> bool) \<times> 'a list) option" where
  "pop_until v [] onStack componentonent = None"
| "pop_until v (w # stack) onStack component =
     (if w = v then Some (stack, onStack(w := False), component @ [w])
      else pop_until v stack (onStack(w := False)) (component @ [w]))"

text \<open>The loop of \<open>visit\<close> over the edges of \<open>v\<close>.\<close>

fun edges_loop :: "('a \<Rightarrow> 'a tarjan \<Rightarrow> 'a tarjan option) \<Rightarrow> 'a \<Rightarrow> 'a list \<Rightarrow> 'a tarjan \<Rightarrow> 'a tarjan option" where
  "edges_loop vis v [] st = Some st"
| "edges_loop vis v (w # ws) st =
     (if \<not> seen st w then
        (case vis w st of
           None \<Rightarrow> None
         | Some st' \<Rightarrow> edges_loop vis v ws (st'\<lparr>t_low := (t_low st')(v := min (t_low st' v) (t_low st' w))\<rparr>))
      else if t_onStack st w then
        edges_loop vis v ws (st\<lparr>t_low := (t_low st)(v := min (t_low st v) (idx st w))\<rparr>)
      else edges_loop vis v ws st)"

definition open_node :: "'a \<Rightarrow> 'a tarjan \<Rightarrow> 'a tarjan" where
  "open_node v st =
     (let n = length (t_index st)
      in st\<lparr>t_index := AList.update v n (t_index st), t_low := (t_low st)(v := n),
            t_stack := v # t_stack st, t_onStack := (t_onStack st)(v := True)\<rparr>)"

definition close_node :: "'a :: linorder \<Rightarrow> 'a tarjan \<Rightarrow> 'a tarjan option" where
  "close_node v st =
     (if t_low st v = idx st v then
        (case pop_until v (t_stack st) (t_onStack st) [] of
           None \<Rightarrow> None
         | Some (stack, onStack, component) \<Rightarrow>
             Some (st\<lparr>t_stack := stack, t_onStack := onStack, t_out := t_out st @ [sort component]\<rparr>))
      else Some st)"

fun visit :: "nat \<Rightarrow> ('a :: linorder \<Rightarrow> 'a list) \<Rightarrow> 'a \<Rightarrow> 'a tarjan \<Rightarrow> 'a tarjan option" where
  "visit 0 edges v st = None"
| "visit (Suc fuel) edges v st =
     (case edges_loop (visit fuel edges) v (edges v) (open_node v st) of
        None \<Rightarrow> None
      | Some st' \<Rightarrow> close_node v st')"

fun visit_all :: "nat \<Rightarrow> ('a :: linorder \<Rightarrow> 'a list) \<Rightarrow> 'a list \<Rightarrow> 'a tarjan \<Rightarrow> 'a tarjan option" where
  "visit_all fuel edges [] st = Some st"
| "visit_all fuel edges (v # tags) st =
     (if seen st v then visit_all fuel edges tags st
      else case visit fuel edges v st of None \<Rightarrow> None | Some st' \<Rightarrow> visit_all fuel edges tags st')"

definition tarjan_init :: "'a tarjan" where
  "tarjan_init = \<lparr>t_index = [], t_low = (\<lambda>_. 0), t_onStack = (\<lambda>_. False), t_stack = [], t_out = []\<rparr>"

text \<open>One level of recursion opens one node, so a bound of the number of nodes is fuel enough.\<close>

definition components :: "'a :: linorder list \<Rightarrow> ('a \<Rightarrow> 'a list) \<Rightarrow> 'a list list option" where
  "components tags edges = map_option t_out (visit_all (length tags + length (concat (map edges tags))) edges tags tarjan_init)"

section \<open>Reachability\<close>

definition succs :: "('a \<Rightarrow> 'a list) \<Rightarrow> ('a \<times> 'a) set" where
  "succs edges = {(u, w). w \<in> set (edges u)}"

definition reach :: "('a \<Rightarrow> 'a list) \<Rightarrow> 'a \<Rightarrow> 'a \<Rightarrow> bool" where
  "reach edges u w \<longleftrightarrow> (u, w) \<in> (succs edges)\<^sup>*"

definition is_scc :: "('a \<Rightarrow> 'a list) \<Rightarrow> 'a set \<Rightarrow> bool" where
  "is_scc edges C \<longleftrightarrow> C \<noteq> {} \<and> (\<forall>x \<in> C. \<forall>y. y \<in> C \<longleftrightarrow> reach edges x y \<and> reach edges y x)"

lemma reach_refl [simp]: "reach edges u u" by (simp add: reach_def)

lemma reach_trans: "reach edges u v \<Longrightarrow> reach edges v w \<Longrightarrow> reach edges u w"
  by (simp add: reach_def)

lemma reach_edge: "w \<in> set (edges u) \<Longrightarrow> reach edges u w"
  by (auto simp: reach_def succs_def)

lemma reach_step: "reach edges u v \<Longrightarrow> w \<in> set (edges v) \<Longrightarrow> reach edges u w"
  using reach_trans reach_edge by metis

text \<open>A path that leaves a set crosses an edge out of it.\<close>

lemma reach_leaves:
  assumes "reach edges x y" "x \<in> C" "y \<notin> C"
  shows "\<exists>a b. a \<in> C \<and> b \<notin> C \<and> b \<in> set (edges a) \<and> reach edges x a \<and> reach edges b y"
  using assms(1,2) unfolding reach_def
proof (induction rule: converse_rtrancl_induct)
  case base
  then show ?case using assms(3) by simp
next
  case (step x z)
  then show ?case
    by (cases "z \<in> C") (auto simp: succs_def intro: converse_rtrancl_into_rtrancl)
qed

lemma reach_closed:
  assumes "reach edges x y" "x \<in> D" "\<And>a b. a \<in> D \<Longrightarrow> b \<in> set (edges a) \<Longrightarrow> b \<in> D"
  shows "y \<in> D"
  using assms(1,2) unfolding reach_def by (induction rule: rtrancl_induct) (auto simp: succs_def intro: assms(3))

section \<open>The invariant\<close>

text \<open>
  \<open>G\<close> are the nodes whose visit has begun and not ended, \<open>closed_nodes\<close> the nodes in components already
  output.  The stack is sorted by index; a smaller index on it reaches a larger one, every node on
  it reaches back to an unfinished node below it, and what has been output are strongly connected
  components closed under edges.
\<close>

definition closed_nodes :: "'a tarjan \<Rightarrow> 'a set" where
  "closed_nodes st = \<Union> (set ` set (t_out st))"

definition tarjan_inv :: "('a :: linorder \<Rightarrow> 'a list) \<Rightarrow> 'a set \<Rightarrow> 'a tarjan \<Rightarrow> bool" where
  "tarjan_inv edges G st \<longleftrightarrow>
     (\<forall>v i. map_of (t_index st) v = Some i \<longrightarrow> i < length (t_index st))
     \<and> sorted_wrt (\<lambda>x y. idx st y < idx st x) (t_stack st)
     \<and> {v. seen st v} = set (t_stack st) \<union> closed_nodes st
     \<and> set (t_stack st) \<inter> closed_nodes st = {}
     \<and> (\<forall>v. t_onStack st v \<longleftrightarrow> v \<in> set (t_stack st))
     \<and> G \<subseteq> set (t_stack st)
     \<and> (\<forall>x. seen st x \<and> x \<notin> G \<longrightarrow> (\<forall>y \<in> set (edges x). seen st y))
     \<and> (\<forall>x \<in> closed_nodes st. set (edges x) \<subseteq> closed_nodes st)
     \<and> (\<forall>x \<in> set (t_stack st). \<forall>y \<in> set (t_stack st). idx st x \<le> idx st y \<longrightarrow> reach edges x y)
     \<and> (\<forall>x \<in> set (t_stack st). \<exists>g \<in> G. idx st g \<le> idx st x \<and> reach edges x g)
     \<and> (\<forall>C \<in> set (t_out st). is_scc edges (set C) \<and> sorted C \<and> distinct C)"

lemma tarjan_invD:
  assumes "tarjan_inv edges G st"
  shows "map_of (t_index st) v = Some i \<Longrightarrow> i < length (t_index st)"
    "sorted_wrt (\<lambda>x y. idx st y < idx st x) (t_stack st)"
    "seen st x \<longleftrightarrow> x \<in> set (t_stack st) \<or> x \<in> closed_nodes st"
    "x \<in> set (t_stack st) \<Longrightarrow> x \<notin> closed_nodes st"
    "t_onStack st x \<longleftrightarrow> x \<in> set (t_stack st)"
    "x \<in> G \<Longrightarrow> x \<in> set (t_stack st)"
    "seen st x \<Longrightarrow> x \<notin> G \<Longrightarrow> y \<in> set (edges x) \<Longrightarrow> seen st y"
    "x \<in> closed_nodes st \<Longrightarrow> y \<in> set (edges x) \<Longrightarrow> y \<in> closed_nodes st"
    "x \<in> set (t_stack st) \<Longrightarrow> y \<in> set (t_stack st) \<Longrightarrow> idx st x \<le> idx st y \<Longrightarrow> reach edges x y"
    "x \<in> set (t_stack st) \<Longrightarrow> \<exists>g \<in> G. idx st g \<le> idx st x \<and> reach edges x g"
    "C \<in> set (t_out st) \<Longrightarrow> is_scc edges (set C) \<and> sorted C \<and> distinct C"
  using assms unfolding tarjan_inv_def by blast+

lemma closed_reach: "tarjan_inv edges G st \<Longrightarrow> x \<in> closed_nodes st \<Longrightarrow> reach edges x y \<Longrightarrow> y \<in> closed_nodes st"
  using reach_closed [of edges x y "closed_nodes st"] tarjan_invD(8) by metis

lemma length_update_new: "k \<notin> fst ` set al \<Longrightarrow> length (AList.update k v al) = Suc (length al)"
  by (induction al) auto

lemma not_seen: "\<not> seen st v \<longleftrightarrow> v \<notin> fst ` set (t_index st)"
  by (simp add: seen_def map_of_eq_None_iff)

lemma open_node_simps:
  assumes "\<not> seen st v"
  shows "seen (open_node v st) x \<longleftrightarrow> x = v \<or> seen st x"
    "idx (open_node v st) x = (if x = v then length (t_index st) else idx st x)"
    "t_low (open_node v st) = (t_low st)(v := length (t_index st))"
    "t_stack (open_node v st) = v # t_stack st" "t_onStack (open_node v st) = (t_onStack st)(v := True)"
    "t_out (open_node v st) = t_out st" "closed_nodes (open_node v st) = closed_nodes st"
    "length (t_index (open_node v st)) = Suc (length (t_index st))"
    "map_of (t_index (open_node v st)) = (map_of (t_index st))(v \<mapsto> length (t_index st))"
  using assms length_update_new [of v "t_index st"]
  by (auto simp: open_node_def Let_def seen_def idx_def update_conv closed_nodes_def simp flip: map_of_eq_None_iff)

lemma open_node_inv:
  assumes inv: "tarjan_inv edges G st" and new: "\<not> seen st v" and G: "\<And>g. g \<in> G \<Longrightarrow> reach edges g v"
  shows "tarjan_inv edges (insert v G) (open_node v st)"
proof -
  note D = tarjan_invD [OF inv] and O = open_node_simps [OF new]
  have lt: "idx st x < length (t_index st)" if "x \<in> set (t_stack st)" for x
    using that D(1) [of x] D(3) [of x] by (auto simp: seen_def idx_def split: option.splits)
  have vn: "v \<notin> set (t_stack st)" "v \<notin> closed_nodes st" using new D(3) by auto
  have up: "reach edges x v" if "x \<in> set (t_stack st)" for x
    using D(10) [OF that] G reach_trans by metis
  show ?thesis
    unfolding tarjan_inv_def O
  proof (intro conjI allI ballI impI, goal_cases)
    case (1 x i)
    then show ?case using D(1) by (auto split: if_splits intro: less_SucI)
  next
    case 2
    have "sorted_wrt (\<lambda>x y. (if y = v then length (t_index st) else idx st y) < (if x = v then length (t_index st) else idx st x)) (t_stack st)"
      using D(2) vn(1) by (auto simp: sorted_wrt_iff_nth_less)
    then show ?case using lt vn by auto
  next
    case 3
    then show ?case using D(3) by auto
  next
    case 4
    then show ?case using D(4) vn by auto
  next
    case (5 x)
    then show ?case using D(5) by auto
  next
    case 6
    then show ?case using D(6) by auto
  next
    case (7 x y)
    then show ?case using D(7) by auto
  next
    case (8 x)
    then show ?case using D(8) by auto
  next
    case (9 x y)
    then show ?case
      using D(9) up vn lt [THEN linorder_not_le [THEN iffD2]] by (auto split: if_splits)
  next
    case (10 x)
    then show ?case
    proof (cases "x = v")
      case False
      then obtain g where "g \<in> G" "idx st g \<le> idx st x" "reach edges x g" using 10 D(10) [of x] by auto
      then show ?thesis using False D(6) vn by (intro bexI [of _ g]) auto
    qed auto
  next
    case (11 C)
    then show ?case using D(11) by simp
  next
    case (12 C)
    then show ?case using D(11) by simp
  next
    case (13 C)
    then show ?case using D(11) by simp
  qed
qed

lemma sorted_distinct: "sorted_wrt (\<lambda>x y. f y < (f x :: nat)) xs \<Longrightarrow> distinct xs"
  by (induction xs) auto

section \<open>Visiting a node\<close>

text \<open>\<open>extends st st'\<close>: what was known of a node before a visit is still so after it.\<close>

definition extends :: "'a tarjan \<Rightarrow> 'a tarjan \<Rightarrow> bool" where
  "extends st st' \<longleftrightarrow> (\<forall>x. seen st x \<longrightarrow> seen st' x \<and> idx st' x = idx st x \<and> t_low st' x = t_low st x)"

text \<open>
  After \<open>visit v\<close> either the component of \<open>v\<close> has been output, or \<open>v\<close> stays on the stack and
  \<open>low[v]\<close> is the index of a node that \<open>v\<close> reaches and no more than that of any node the new
  part of the stack has an edge to.
\<close>

definition visited :: "('a :: linorder \<Rightarrow> 'a list) \<Rightarrow> 'a set \<Rightarrow> 'a set \<Rightarrow> 'a \<Rightarrow> 'a tarjan \<Rightarrow> 'a tarjan \<Rightarrow> bool" where
  "visited edges V G v st st' \<longleftrightarrow>
     tarjan_inv edges G st' \<and> extends st st' \<and> seen st' v \<and> {x. seen st' x} \<subseteq> V
     \<and> (\<exists>new. t_stack st' = new @ t_stack st \<and> (\<forall>x \<in> set new. \<not> seen st x)
          \<and> (new = [] \<and> (\<forall>y \<in> set (t_stack st). idx st' y < t_low st' v)
             \<or> (\<exists>y \<in> set (t_stack st'). t_low st' v = idx st' y \<and> reach edges v y)
               \<and> (\<forall>x \<in> set new. \<forall>y \<in> set (edges x). y \<in> set (t_stack st) \<longrightarrow> t_low st' v \<le> idx st' y)))"

text \<open>The invariant of the loop over the edges of \<open>v\<close>, of which \<open>ds\<close> are done; \<open>st0\<close> is the state before the visit.\<close>

definition loop_inv :: "('a :: linorder \<Rightarrow> 'a list) \<Rightarrow> 'a set \<Rightarrow> 'a set \<Rightarrow> 'a \<Rightarrow> 'a tarjan \<Rightarrow> 'a set \<Rightarrow> 'a tarjan \<Rightarrow> bool" where
  "loop_inv edges V G v st0 ds st \<longleftrightarrow>
     tarjan_inv edges (insert v G) st \<and> extends st0 st \<and> {x. seen st x} \<subseteq> V
     \<and> (\<forall>d \<in> ds. seen st d) \<and> (\<exists>y \<in> set (t_stack st). t_low st v = idx st y \<and> reach edges v y)
     \<and> t_low st v \<le> idx st v
     \<and> (\<exists>new. t_stack st = new @ v # t_stack st0 \<and> (\<forall>x \<in> set new. \<not> seen st0 x)
          \<and> (\<forall>x \<in> set new. \<forall>y \<in> set (edges x). y \<in> set (t_stack st0) \<longrightarrow> t_low st v \<le> idx st y)
          \<and> (\<forall>y \<in> ds. y \<in> set (t_stack st0) \<longrightarrow> t_low st v \<le> idx st y))"

lemma set_low_simps [simp]:
  "seen (st\<lparr>t_low := l\<rparr>) = seen st" "idx (st\<lparr>t_low := l\<rparr>) = idx st" "closed_nodes (st\<lparr>t_low := l\<rparr>) = closed_nodes st"
  by (auto simp: seen_def idx_def closed_nodes_def fun_eq_iff)

lemma tarjan_inv_low [simp]: "tarjan_inv edges G (st\<lparr>t_low := l\<rparr>) \<longleftrightarrow> tarjan_inv edges G st"
  by (simp add: tarjan_inv_def)

lemma loop_inv_start:
  assumes "tarjan_inv edges G st" "\<not> seen st v" "\<And>g. g \<in> G \<Longrightarrow> reach edges g v" "{x. seen st x} \<subseteq> V" "v \<in> V"
  shows "loop_inv edges V G v st {} (open_node v st)"
  using assms(2,4,5) open_node_inv [OF assms(1-3)]
  by (auto simp: loop_inv_def extends_def open_node_simps)

lemma loop_invI:
  assumes "tarjan_inv edges (insert v G) st" "extends st0 st" "{x. seen st x} \<subseteq> V" "\<And>d. d \<in> ds \<Longrightarrow> seen st d"
    "y \<in> set (t_stack st)" "low = idx st y" "reach edges v y" "low \<le> idx st v"
    "t_stack st = new @ v # t_stack st0" "\<And>x. x \<in> set new \<Longrightarrow> \<not> seen st0 x"
    "\<And>x z. x \<in> set new \<Longrightarrow> z \<in> set (edges x) \<Longrightarrow> z \<in> set (t_stack st0) \<Longrightarrow> low \<le> idx st z"
    "\<And>z. z \<in> ds \<Longrightarrow> z \<in> set (t_stack st0) \<Longrightarrow> low \<le> idx st z" "\<not> seen st0 v"
  shows "loop_inv edges V G v st0 ds (st\<lparr>t_low := (t_low st)(v := low)\<rparr>)"
proof -
  have "extends st0 (st\<lparr>t_low := (t_low st)(v := low)\<rparr>)" using assms(2,13) by (auto simp: extends_def)
  then show ?thesis unfolding loop_inv_def using assms by auto
qed

lemma loop_invE:
  assumes "loop_inv edges V G v st0 ds st"
  obtains new y where "tarjan_inv edges (insert v G) st" "extends st0 st" "{x. seen st x} \<subseteq> V" "\<And>d. d \<in> ds \<Longrightarrow> seen st d"
    "y \<in> set (t_stack st)" "t_low st v = idx st y" "reach edges v y" "t_low st v \<le> idx st v"
    "t_stack st = new @ v # t_stack st0" "\<And>x. x \<in> set new \<Longrightarrow> \<not> seen st0 x"
    "\<And>x z. x \<in> set new \<Longrightarrow> z \<in> set (edges x) \<Longrightarrow> z \<in> set (t_stack st0) \<Longrightarrow> t_low st v \<le> idx st z"
    "\<And>z. z \<in> ds \<Longrightarrow> z \<in> set (t_stack st0) \<Longrightarrow> t_low st v \<le> idx st z"
  using assms unfolding loop_inv_def by blast

lemma loop_inv_low:
  assumes l: "loop_inv edges V G v st0 ds st" and v: "\<not> seen st0 v" and w: "seen st w" "t_onStack st w" "w \<in> set (edges v)"
  shows "loop_inv edges V G v st0 (insert w ds) (st\<lparr>t_low := (t_low st)(v := min (t_low st v) (idx st w))\<rparr>)"
proof -
  from l obtain new y where L: "tarjan_inv edges (insert v G) st" "extends st0 st" "{x. seen st x} \<subseteq> V" "\<And>d. d \<in> ds \<Longrightarrow> seen st d"
    "y \<in> set (t_stack st)" "t_low st v = idx st y" "reach edges v y" "t_low st v \<le> idx st v"
    "t_stack st = new @ v # t_stack st0" "\<And>x. x \<in> set new \<Longrightarrow> \<not> seen st0 x"
    "\<And>x z. x \<in> set new \<Longrightarrow> z \<in> set (edges x) \<Longrightarrow> z \<in> set (t_stack st0) \<Longrightarrow> t_low st v \<le> idx st z"
    "\<And>z. z \<in> ds \<Longrightarrow> z \<in> set (t_stack st0) \<Longrightarrow> t_low st v \<le> idx st z" by (rule loop_invE) blast
  let ?y = "if t_low st v \<le> idx st w then y else w"
  have "w \<in> set (t_stack st)" using tarjan_invD(5) [OF L(1)] w(2) by blast
  then have y: "?y \<in> set (t_stack st)" "min (t_low st v) (idx st w) = idx st ?y" "reach edges v ?y"
    using L(5-7) reach_edge [of w edges v] w(3) by (auto simp: min_def)
  show ?thesis
  proof (rule loop_invI [OF L(1-3) _ y _ L(9,10) _ _ v])
    fix x z assume "x \<in> set new" "z \<in> set (edges x)" "z \<in> set (t_stack st0)"
    from L(11) [OF this] show "min (t_low st v) (idx st w) \<le> idx st z" by simp
  next
    fix z assume "z \<in> insert w ds" "z \<in> set (t_stack st0)"
    then show "min (t_low st v) (idx st w) \<le> idx st z" using L(12) [of z] by auto
  qed (use L(4,8) w(1) in auto)
qed

lemma loop_inv_skip:
  assumes "loop_inv edges V G v st0 ds st" "seen st w" "\<not> t_onStack st w"
  shows "loop_inv edges V G v st0 (insert w ds) st"
proof -
  have inv: "tarjan_inv edges (insert v G) st" using assms(1) by (simp add: loop_inv_def)
  have "w \<notin> set (t_stack st)" using tarjan_invD(5) [OF inv] assms(3) by blast
  then show ?thesis using assms(1,2) by (auto simp: loop_inv_def)
qed

lemma visitedE:
  assumes "visited edges V G v st st'"
  obtains new where "tarjan_inv edges G st'" "extends st st'" "seen st' v" "{x. seen st' x} \<subseteq> V"
    "t_stack st' = new @ t_stack st" "\<And>x. x \<in> set new \<Longrightarrow> \<not> seen st x"
    "new = [] \<and> (\<forall>y \<in> set (t_stack st). idx st' y < t_low st' v)
     \<or> (\<exists>y \<in> set (t_stack st'). t_low st' v = idx st' y \<and> reach edges v y)
       \<and> (\<forall>x \<in> set new. \<forall>y \<in> set (edges x). y \<in> set (t_stack st) \<longrightarrow> t_low st' v \<le> idx st' y)"
  using assms unfolding visited_def by blast

lemma extends_trans: "extends a b \<Longrightarrow> extends b c \<Longrightarrow> extends a c"
  by (auto simp: extends_def)

lemma loop_inv_visit:
  assumes l: "loop_inv edges V G v st0 ds st" and v: "\<not> seen st0 v" and w: "w \<in> set (edges v)" "\<not> seen st w"
    and vis: "visited edges V (insert v G) w st st'"
  shows "loop_inv edges V G v st0 (insert w ds) (st'\<lparr>t_low := (t_low st')(v := min (t_low st' v) (t_low st' w))\<rparr>)"
proof -
  from l obtain new y where L: "tarjan_inv edges (insert v G) st" "extends st0 st" "{x. seen st x} \<subseteq> V" "\<And>d. d \<in> ds \<Longrightarrow> seen st d"
    "y \<in> set (t_stack st)" "t_low st v = idx st y" "reach edges v y" "t_low st v \<le> idx st v"
    "t_stack st = new @ v # t_stack st0" "\<And>x. x \<in> set new \<Longrightarrow> \<not> seen st0 x"
    "\<And>x z. x \<in> set new \<Longrightarrow> z \<in> set (edges x) \<Longrightarrow> z \<in> set (t_stack st0) \<Longrightarrow> t_low st v \<le> idx st z"
    "\<And>z. z \<in> ds \<Longrightarrow> z \<in> set (t_stack st0) \<Longrightarrow> t_low st v \<le> idx st z" by (rule loop_invE) blast
  from vis obtain nw where P: "tarjan_inv edges (insert v G) st'" "extends st st'" "seen st' w" "{x. seen st' x} \<subseteq> V"
    "t_stack st' = nw @ t_stack st" "\<And>x. x \<in> set nw \<Longrightarrow> \<not> seen st x"
    "nw = [] \<and> (\<forall>y \<in> set (t_stack st). idx st' y < t_low st' w)
     \<or> (\<exists>y \<in> set (t_stack st'). t_low st' w = idx st' y \<and> reach edges w y)
       \<and> (\<forall>x \<in> set nw. \<forall>y \<in> set (edges x). y \<in> set (t_stack st) \<longrightarrow> t_low st' w \<le> idx st' y)"
    by (rule visitedE) blast
  let ?l = "min (t_low st' v) (t_low st' w)"
  have on: "seen st x" if "x \<in> set (t_stack st)" for x using that tarjan_invD(3) [OF L(1)] by blast
  have same: "idx st' x = idx st x" if "x \<in> set (t_stack st)" for x using on [OF that] P(2) by (simp add: extends_def)
  have v_on: "v \<in> set (t_stack st)" using L(9) by simp
  then have lv: "t_low st' v = t_low st v" using on P(2) by (simp add: extends_def)
  have y_on: "y \<in> set (t_stack st')" "t_low st' v = idx st' y" using L(5,6) same lv P(5) by simp_all
  obtain z where z: "z \<in> set (t_stack st')" "?l = idx st' z" "reach edges v z"
  proof (cases "t_low st' v \<le> t_low st' w")
    case True
    then show thesis using that [of y] y_on L(7) by simp
  next
    case False
    then obtain z where "z \<in> set (t_stack st')" "t_low st' w = idx st' z" "reach edges w z"
      using P(7) y_on L(5) by fastforce
    then show thesis using that [of z] False reach_trans [OF reach_edge [of w edges v]] w(1) by simp
  qed
  show ?thesis
  proof (rule loop_invI [OF P(1) extends_trans [OF L(2) P(2)] P(4) _ z, where new = "nw @ new"])
    fix d assume "d \<in> insert w ds"
    then show "seen st' d" using P(2,3) L(4) by (auto simp: extends_def)
  next
    show "?l \<le> idx st' v" using lv L(8) same [OF v_on] by simp
  next
    show "t_stack st' = (nw @ new) @ v # t_stack st0" using P(5) L(9) by simp
  next
    fix x assume "x \<in> set (nw @ new)"
    then show "\<not> seen st0 x" using P(6) L(10) L(2) by (auto simp: extends_def)
  next
    fix x z assume x: "x \<in> set (nw @ new)" and z: "z \<in> set (edges x)" "z \<in> set (t_stack st0)"
    have z_on: "z \<in> set (t_stack st)" using z(2) L(9) by simp
    consider "x \<in> set new" | "x \<in> set nw" using x by auto
    then show "?l \<le> idx st' z"
    proof cases
      case 1
      from L(11) [OF 1 z] show ?thesis using lv same [OF z_on] by simp
    next
      case 2
      then have "t_low st' w \<le> idx st' z" using P(7) z z_on by auto
      then show ?thesis by simp
    qed
  next
    fix z assume "z \<in> insert w ds" and z: "z \<in> set (t_stack st0)"
    moreover have "z \<noteq> w" using on [of z] z L(9) w(2) by auto
    ultimately have "t_low st v \<le> idx st z" using L(12) by simp
    then show "?l \<le> idx st' z" using lv same [of z] z L(9) by simp
  qed (rule v)
qed

text \<open>The state when the loop over the edges of \<open>v\<close> has ended.\<close>

lemma pop_until_spec:
  "v \<notin> set new \<Longrightarrow> pop_until v (new @ v # stk) os c
     = Some (stk, \<lambda>x. os x \<and> x \<notin> set new \<and> x \<noteq> v, c @ new @ [v])"
  by (induction new arbitrary: os c) (auto simp: fun_eq_iff)

lemma loop_end_facts:
  assumes l: "loop_inv edges V G v st0 (set (edges v)) st" and v: "\<not> seen st0 v" and inv0: "tarjan_inv edges G st0"
    and stk: "t_stack st = new @ v # t_stack st0"
  shows "\<And>x. x \<in> set new \<Longrightarrow> idx st v < idx st x" "\<And>x. x \<in> set (t_stack st0) \<Longrightarrow> idx st x < idx st v"
    "\<And>x. x \<in> set new \<Longrightarrow> x \<noteq> v \<and> x \<notin> set (t_stack st0)" "\<And>g. g \<in> G \<Longrightarrow> g \<in> set (t_stack st0)"
    "v \<notin> set (t_stack st0)" "\<And>x y. seen st x \<Longrightarrow> x \<notin> G \<Longrightarrow> y \<in> set (edges x) \<Longrightarrow> seen st y"
proof -
  have inv: "tarjan_inv edges (insert v G) st" and ds: "\<And>d. d \<in> set (edges v) \<Longrightarrow> seen st d"
    using l by (auto simp: loop_inv_def)
  show 1: "\<And>x. x \<in> set new \<Longrightarrow> idx st v < idx st x" and 2: "\<And>x. x \<in> set (t_stack st0) \<Longrightarrow> idx st x < idx st v"
    using tarjan_invD(2) [OF inv] by (auto simp: stk sorted_wrt_append)
  show "\<And>x. x \<in> set new \<Longrightarrow> x \<noteq> v \<and> x \<notin> set (t_stack st0)" using 1 2 by fastforce
  show "\<And>g. g \<in> G \<Longrightarrow> g \<in> set (t_stack st0)" using tarjan_invD(6) [OF inv0] .
  show "v \<notin> set (t_stack st0)" using 2 by blast
  show "\<And>x y. seen st x \<Longrightarrow> x \<notin> G \<Longrightarrow> y \<in> set (edges x) \<Longrightarrow> seen st y"
    using ds tarjan_invD(7) [OF inv] by blast
qed

text \<open>Case 1: \<open>low[v] = index[v]\<close>, and the top of the stack down to \<open>v\<close> is a component.\<close>

lemma popped_edges:
  assumes l: "loop_inv edges V G v st0 (set (edges v)) st" and v: "\<not> seen st0 v" and inv0: "tarjan_inv edges G st0"
    and low: "t_low st v = idx st v" and stk: "t_stack st = new @ v # t_stack st0"
    and a: "a \<in> insert v (set new)" and b: "b \<in> set (edges a)" "b \<notin> insert v (set new)"
  shows "b \<in> closed_nodes st"
proof (rule ccontr)
  assume nc: "b \<notin> closed_nodes st"
  have inv: "tarjan_inv edges (insert v G) st" using l by (simp add: loop_inv_def)
  note F = loop_end_facts [OF l v inv0 stk]
  have "seen st a" using tarjan_invD(3) [OF inv] a stk by auto
  moreover have "a \<notin> G" using F(3,4,5) a by blast
  ultimately have "seen st b" using F(6) b(1) by blast
  then have b0: "b \<in> set (t_stack st0)" using tarjan_invD(3) [OF inv] nc b(2) stk by auto
  obtain nw where "t_stack st = nw @ v # t_stack st0"
      "\<forall>x \<in> set nw. \<forall>y \<in> set (edges x). y \<in> set (t_stack st0) \<longrightarrow> t_low st v \<le> idx st y"
      "\<forall>y \<in> set (edges v). y \<in> set (t_stack st0) \<longrightarrow> t_low st v \<le> idx st y"
    using l unfolding loop_inv_def by blast
  then have "t_low st v \<le> idx st b" using a b(1) b0 stk by auto
  then show False using F(2) [OF b0] low by simp
qed

lemma popped_scc:
  assumes l: "loop_inv edges V G v st0 (set (edges v)) st" and v: "\<not> seen st0 v" and inv0: "tarjan_inv edges G st0"
    and low: "t_low st v = idx st v" and stk: "t_stack st = new @ v # t_stack st0"
  shows "is_scc edges (insert v (set new))"
proof -
  let ?C = "insert v (set new)"
  have inv: "tarjan_inv edges (insert v G) st" using l by (simp add: loop_inv_def)
  note D = tarjan_invD [OF inv] and F = loop_end_facts [OF l v inv0 stk] and edge = popped_edges [OF l v inv0 low stk]
  have on: "x \<in> set (t_stack st)" if "x \<in> ?C" for x using that stk by auto
  have stuck: "x \<in> ?C \<Longrightarrow> reach edges x y \<Longrightarrow> reach edges y z \<Longrightarrow> z \<in> set (t_stack st) \<Longrightarrow> y \<in> ?C" for x y z
  proof (rule ccontr)
    assume x: "x \<in> ?C" "reach edges x y" "reach edges y z" "z \<in> set (t_stack st)" "y \<notin> ?C"
    obtain a b where "a \<in> ?C" "b \<notin> ?C" "b \<in> set (edges a)" "reach edges b y"
      using reach_leaves [OF x(2,1,5)] by blast
    then have "b \<in> closed_nodes st" "reach edges b z" using edge reach_trans [OF _ x(3)] by blast+
    then show False using closed_reach [OF inv] D(4) [OF x(4)] by blast
  qed
  have from_v: "reach edges v x" if "x \<in> ?C" for x
    using that D(9) [of v x] F(1) [of x] on by (cases "x = v") auto
  have to_v: "reach edges x v" if x: "x \<in> ?C" for x
  proof -
    obtain g where g: "g \<in> insert v G" "reach edges x g" using D(10) [OF on [OF x]] by blast
    have "g \<in> ?C" using stuck [OF x g(2) reach_refl] D(6) g(1) by blast
    then have "g = v" using g(1) F(3,4) by blast
    then show ?thesis using g(2) by simp
  qed
  show ?thesis
    unfolding is_scc_def
  proof (intro conjI ballI allI iffI)
    show "?C \<noteq> {}" by simp
  next
    fix x y assume "x \<in> ?C" "y \<in> ?C"
    then show "reach edges x y" "reach edges y x" using from_v to_v reach_trans by metis+
  next
    fix x y assume x: "x \<in> ?C" "reach edges x y \<and> reach edges y x"
    then show "y \<in> ?C" using stuck [of x y x] on by blast
  qed
qed

lemma close_popped:
  assumes l: "loop_inv edges V G v st0 (set (edges v)) st" and v: "\<not> seen st0 v" and inv0: "tarjan_inv edges G st0"
    and low: "t_low st v = idx st v"
  shows "\<exists>st'. close_node v st = Some st' \<and> visited edges V G v st0 st'"
proof -
  have inv: "tarjan_inv edges (insert v G) st" and ext: "extends st0 st" and V: "{x. seen st x} \<subseteq> V"
    using l by (simp_all add: loop_inv_def)
  obtain new where stk: "t_stack st = new @ v # t_stack st0" using l by (auto simp: loop_inv_def)
  note D = tarjan_invD [OF inv] and F = loop_end_facts [OF l v inv0 stk] and edge = popped_edges [OF l v inv0 low stk]
  let ?C = "insert v (set new)"
  let ?st = "st\<lparr>t_stack := t_stack st0, t_onStack := \<lambda>x. t_onStack st x \<and> x \<notin> set new \<and> x \<noteq> v,
               t_out := t_out st @ [sort (new @ [v])]\<rparr>"
  have s: "seen ?st = seen st" "idx ?st = idx st" "closed_nodes ?st = ?C \<union> closed_nodes st"
    by (auto simp: seen_def idx_def closed_nodes_def fun_eq_iff)
  have disj: "x \<notin> ?C" if "x \<in> set (t_stack st0)" for x using that F(2,3) by fastforce
  have "tarjan_inv edges G ?st"
    unfolding tarjan_inv_def s
  proof (intro conjI allI ballI impI, goal_cases)
    case (1 x i)
    then show ?case using D(1) by simp
  next
    case 2
    then show ?case using D(2) stk by (simp add: sorted_wrt_append)
  next
    case 3
    then show ?case using D(3) stk by auto
  next
    case 4
    then show ?case using disj D(4) stk by auto
  next
    case (5 x)
    then show ?case using D(5) [of x] disj stk by auto
  next
    case 6
    then show ?case using F(4) by auto
  next
    case (7 x y)
    then show ?case using F(6) by blast
  next
    case (8 x)
    then show ?case using edge [of x] D(8) [of x] by auto
  next
    case (9 x y)
    then show ?case using D(9) [of x y] stk by simp
  next
    case (10 x)
    then obtain g where "g \<in> insert v G" "idx st g \<le> idx st x" "reach edges x g" using D(10) [of x] stk by auto
    then show ?case using F(2) [of x] 10 by (intro bexI [of _ g]) auto
  next
    case (11 C)
    then show ?case using D(11) [of C] popped_scc [OF l v inv0 low stk] by auto
  next
    case (12 C)
    then show ?case using D(11) [of C] by auto
  next
    case (13 C)
    have "distinct (new @ [v])" using sorted_distinct [OF D(2)] stk by auto
    then show ?case using 13 D(11) [of C] by auto
  qed
  moreover have "seen st v" using D(3) stk by auto
  moreover have "v \<notin> set new" using F(3) by blast
  then have "close_node v st = Some ?st"
    using low stk by (simp add: close_node_def pop_until_spec)
  moreover have "extends st0 ?st" using ext by (simp add: extends_def s)
  ultimately show ?thesis
    using V F(2) low by (auto simp: visited_def s)
qed

text \<open>Case 2: \<open>low[v] < index[v]\<close>, and \<open>v\<close> stays on the stack.\<close>

lemma close_kept:
  assumes l: "loop_inv edges V G v st0 (set (edges v)) st" and v: "\<not> seen st0 v" and inv0: "tarjan_inv edges G st0"
    and low: "t_low st v \<noteq> idx st v"
  shows "\<exists>st'. close_node v st = Some st' \<and> visited edges V G v st0 st'"
proof -
  from l obtain new y where L: "tarjan_inv edges (insert v G) st" "extends st0 st" "{x. seen st x} \<subseteq> V"
    "y \<in> set (t_stack st)" "t_low st v = idx st y" "reach edges v y" "t_low st v \<le> idx st v"
    "t_stack st = new @ v # t_stack st0" "\<And>x. x \<in> set new \<Longrightarrow> \<not> seen st0 x"
    "\<And>x z. x \<in> set new \<Longrightarrow> z \<in> set (edges x) \<Longrightarrow> z \<in> set (t_stack st0) \<Longrightarrow> t_low st v \<le> idx st z"
    "\<And>z. z \<in> set (edges v) \<Longrightarrow> z \<in> set (t_stack st0) \<Longrightarrow> t_low st v \<le> idx st z" by (rule loop_invE) blast
  note D = tarjan_invD [OF L(1)] and F = loop_end_facts [OF l v inv0 L(8)]
  have y: "idx st y < idx st v" using L(5,7) low by simp
  obtain g where g: "g \<in> G" "idx st g \<le> idx st y" "reach edges y g"
    using D(10) [OF L(4)] y by auto
  have bck: "\<exists>g \<in> G. idx st g \<le> idx st x \<and> reach edges x g" if x: "x \<in> set (t_stack st)" for x
  proof -
    obtain h where h: "h \<in> insert v G" "idx st h \<le> idx st x" "reach edges x h" using D(10) [OF x] by blast
    show ?thesis
    proof (cases "h = v")
      case True
      then have "reach edges x g" "idx st g \<le> idx st x"
        using h g(2,3) y L(6) reach_trans by (metis, simp)
      then show ?thesis using g(1) by blast
    next
      case False
      then show ?thesis using h by blast
    qed
  qed
  have "G \<subseteq> set (t_stack st)" "\<forall>x. seen st x \<and> x \<notin> G \<longrightarrow> (\<forall>y \<in> set (edges x). seen st y)"
    "\<forall>x \<in> set (t_stack st). \<exists>g \<in> G. idx st g \<le> idx st x \<and> reach edges x g"
    using D(6) F(6) bck by blast+
  then have "tarjan_inv edges G st"
    using L(1) unfolding tarjan_inv_def by (elim conjE) (intro conjI; assumption)
  moreover have "seen st v" using D(3) L(8) by auto
  moreover have "t_stack st = (new @ [v]) @ t_stack st0" using L(8) by simp
  moreover have "\<forall>x \<in> set (new @ [v]). \<not> seen st0 x" using L(9) v by auto
  moreover have "\<forall>x \<in> set (new @ [v]). \<forall>z \<in> set (edges x). z \<in> set (t_stack st0) \<longrightarrow> t_low st v \<le> idx st z"
    using L(10,11) by auto
  ultimately have "visited edges V G v st0 st"
    using L(2-6) unfolding visited_def by blast
  then show ?thesis using low by (simp add: close_node_def)
qed

section \<open>Correctness\<close>

text \<open>A finite graph closed under its edges.\<close>

locale finite_graph =
  fixes edges :: "'a :: linorder \<Rightarrow> 'a list" and V :: "'a set"
  assumes finite_V: "finite V" and edges_V: "v \<in> V \<Longrightarrow> w \<in> set (edges v) \<Longrightarrow> w \<in> V"
begin

lemma edges_loop_ok:
  assumes vis: "\<And>w st. tarjan_inv edges (insert v G) st \<Longrightarrow> \<not> seen st w \<Longrightarrow> w \<in> V \<Longrightarrow> {x. seen st x} \<subseteq> V \<Longrightarrow>
      card (V - {x. seen st x}) \<le> k \<Longrightarrow> (\<And>g. g \<in> insert v G \<Longrightarrow> reach edges g w) \<Longrightarrow>
      \<exists>st'. vis w st = Some st' \<and> visited edges V (insert v G) w st st'"
    and G: "\<And>g. g \<in> G \<Longrightarrow> reach edges g v" and v: "\<not> seen st0 v" "v \<in> V"
    and l: "loop_inv edges V G v st0 ds st" and ws: "set ws \<subseteq> set (edges v)" and k: "card (V - {x. seen st x}) \<le> k"
  shows "\<exists>st'. edges_loop vis v ws st = Some st' \<and> loop_inv edges V G v st0 (ds \<union> set ws) st'"
  using l ws k
proof (induction ws arbitrary: ds st)
  case Nil
  then show ?case by simp
next
  case (Cons w ws)
  have w: "w \<in> set (edges v)" "w \<in> V" "set ws \<subseteq> set (edges v)" using Cons.prems(2) edges_V [OF v(2)] by auto
  have eq: "ds \<union> set (w # ws) = insert w ds \<union> set ws" by simp
  consider (new) "\<not> seen st w" | (on) "seen st w" "t_onStack st w" | (off) "seen st w" "\<not> t_onStack st w" by blast
  then show ?case
  proof cases
    case new
    have "reach edges g w" if "g \<in> insert v G" for g
      using that G reach_step [of edges g v w] w(1) by auto
    then obtain st' where st': "vis w st = Some st'" "visited edges V (insert v G) w st st'"
      using vis [OF _ new w(2) _ Cons.prems(3)] Cons.prems(1) unfolding loop_inv_def by blast
    have "{x. seen st x} \<subseteq> {x. seen st' x}" using st'(2) by (auto simp: visited_def extends_def)
    then have "card (V - {x. seen st' x}) \<le> k"
      using Cons.prems(3) card_mono [of "V - {x. seen st x}" "V - {x. seen st' x}"] finite_V by fastforce
    then show ?thesis
      using Cons.IH [OF loop_inv_visit [OF Cons.prems(1) v(1) w(1) new st'(2)] w(3)] new st'(1) unfolding eq by simp
  next
    case on
    then show ?thesis
      using Cons.IH [OF loop_inv_low [OF Cons.prems(1) v(1) on w(1)] w(3)] Cons.prems(3) unfolding eq by simp
  next
    case off
    then show ?thesis
      using Cons.IH [OF loop_inv_skip [OF Cons.prems(1) off] w(3)] Cons.prems(3) unfolding eq by simp
  qed
qed

lemma visit_ok:
  "tarjan_inv edges G st \<Longrightarrow> \<not> seen st v \<Longrightarrow> v \<in> V \<Longrightarrow> {x. seen st x} \<subseteq> V \<Longrightarrow>
     card (V - {x. seen st x}) \<le> k \<Longrightarrow> (\<And>g. g \<in> G \<Longrightarrow> reach edges g v) \<Longrightarrow>
     \<exists>st'. visit k edges v st = Some st' \<and> visited edges V G v st st'"
proof (induction k arbitrary: G st v)
  case 0
  then have "V - {x. seen st x} = {}" using finite_V by simp
  then show ?case using 0 by auto
next
  case (Suc k)
  let ?o = "open_node v st"
  have "V - {x. seen ?o x} = (V - {x. seen st x}) - {v}"
    using Suc.prems(2) by (auto simp: open_node_simps)
  then have "card (V - {x. seen ?o x}) \<le> k" using Suc.prems(2,3,5) finite_V by simp
  then obtain st' where "edges_loop (visit k edges) v (edges v) ?o = Some st'"
      "loop_inv edges V G v st ({} \<union> set (edges v)) st'"
    using edges_loop_ok [OF Suc.IH Suc.prems(6,2,3) loop_inv_start [OF Suc.prems(1,2,6,4,3)] order.refl] by blast
  then show ?case
    using close_popped [OF _ Suc.prems(2,1)] close_kept [OF _ Suc.prems(2,1)]
    by (cases "t_low st' v = idx st' v") auto
qed

lemma visit_all_ok:
  assumes "tarjan_inv edges {} st" "{x. seen st x} \<subseteq> V" "set tags \<subseteq> V" "card V \<le> k"
  shows "\<exists>st'. visit_all k edges tags st = Some st' \<and> tarjan_inv edges {} st' \<and> {x. seen st' x} \<subseteq> V
    \<and> set tags \<union> {x. seen st x} \<subseteq> {x. seen st' x}"
  using assms
proof (induction tags arbitrary: st)
  case Nil
  then show ?case by simp
next
  case (Cons v tags)
  show ?case
  proof (cases "seen st v")
    case True
    then show ?thesis using Cons.IH [OF Cons.prems(1,2) _ Cons.prems(4)] Cons.prems(3) by auto
  next
    case False
    have "card (V - {x. seen st x}) \<le> k"
      using Cons.prems(4) card_mono [OF finite_V, of "V - {x. seen st x}"] by auto
    then obtain st1 where st1: "visit k edges v st = Some st1" "visited edges V {} v st st1"
      using visit_ok [OF Cons.prems(1) False _ Cons.prems(2)] Cons.prems(3) by auto
    then obtain st' where "visit_all k edges tags st1 = Some st'" "tarjan_inv edges {} st'" "{x. seen st' x} \<subseteq> V"
        "set tags \<union> {x. seen st1 x} \<subseteq> {x. seen st' x}"
      using Cons.IH [of st1] Cons.prems(3,4) unfolding visited_def by auto
    then show ?thesis using False st1 by (auto simp: visited_def extends_def)
  qed
qed

lemma components_ok:
  assumes tags: "set tags \<subseteq> V" "V \<subseteq> set tags \<union> \<Union> (set ` edges ` set tags)"
  shows "\<exists>out. components tags edges = Some out \<and> \<Union> (set ` set out) = V
    \<and> (\<forall>C \<in> set out. is_scc edges (set C) \<and> sorted C \<and> distinct C)"
proof -
  let ?k = "length tags + length (concat (map edges tags))"
  have init: "tarjan_inv edges {} tarjan_init" "{x. seen tarjan_init x} = {}"
    by (auto simp: tarjan_inv_def tarjan_init_def seen_def closed_nodes_def)
  have "V \<subseteq> set (tags @ concat (map edges tags))" using tags(2) by auto
  then have "card V \<le> card (set (tags @ concat (map edges tags)))" by (rule card_mono [OF finite_set])
  also have "\<dots> \<le> ?k" using card_length [of "tags @ concat (map edges tags)"] by simp
  finally obtain st where st: "visit_all ?k edges tags tarjan_init = Some st" "tarjan_inv edges {} st"
      "{x. seen st x} \<subseteq> V" "set tags \<union> {x. seen tarjan_init x} \<subseteq> {x. seen st x}"
    using visit_all_ok [OF init(1) _ tags(1), of ?k] unfolding init(2) by auto
  have "set (t_stack st) = {}"
    using tarjan_invD(10) [OF st(2), of "hd (t_stack st)"] by (cases "t_stack st") auto
  then have closed: "closed_nodes st = {x. seen st x}" using tarjan_invD(3) [OF st(2)] by auto
  have "w \<in> {x. seen st x}" if "v \<in> {x. seen st x}" "w \<in> set (edges v)" for v w
    using closed_reach [OF st(2), of v w] reach_edge [of w edges v] that unfolding closed by simp
  moreover have "set tags \<subseteq> {x. seen st x}" using st(4) by simp
  ultimately have "set tags \<union> \<Union> (set ` edges ` set tags) \<subseteq> {x. seen st x}" by blast
  then have "V \<subseteq> {x. seen st x}" using tags(2) by (rule order_trans [rotated])
  then have "closed_nodes st = V" using st(3) unfolding closed by (rule order.antisym [rotated])
  then show ?thesis
    using st(1) tarjan_invD(11) [OF st(2)] by (auto simp: components_def closed_nodes_def)
qed

end

end
