(* ===== verification/Graph_Cycle.thy ===== *)
theory Graph_Cycle
  imports Tarjan
begin

text \<open>
  The breadth-first search for a cycle through the smallest node of a component:
  \<open>shortestBalancerCycle\<close> in \<open>app/router/fallback_chain.go\<close> and \<open>shortestCycle\<close> in
  \<open>app/router/loops.go\<close>, which differ in the type of their edges only.  \<open>parent\<close> is the Go map
  from a node to the step that found it.  Both loops run on fuel; \<open>None\<close> is running out of it,
  which is shown not to happen.
\<close>

text \<open>The loop over the edges of \<open>v\<close>: the edge that closes the cycle, or the new parents and queue.\<close>

fun scan_edges :: "('e \<Rightarrow> 'a) \<Rightarrow> 'a list \<Rightarrow> 'a \<Rightarrow> 'a \<Rightarrow> 'e list \<Rightarrow> ('a \<rightharpoonup> 'a \<times> 'e) \<Rightarrow> 'a list
    \<Rightarrow> ('e \<times> ('a \<rightharpoonup> 'a \<times> 'e)) + (('a \<rightharpoonup> 'a \<times> 'e) \<times> 'a list)" where
  "scan_edges tgt component start v [] parent queue = Inr (parent, queue)"
| "scan_edges tgt component start v (e # es) parent queue =
     (if tgt e \<notin> set component then scan_edges tgt component start v es parent queue
      else if tgt e = start then Inl (e, parent)
      else if parent (tgt e) = None
      then scan_edges tgt component start v es (parent(tgt e \<mapsto> (v, e))) (queue @ [tgt e])
      else scan_edges tgt component start v es parent queue)"

fun search :: "nat \<Rightarrow> ('e \<Rightarrow> 'a) \<Rightarrow> ('a \<Rightarrow> 'e list) \<Rightarrow> 'a list \<Rightarrow> 'a \<Rightarrow> 'a list \<Rightarrow> ('a \<rightharpoonup> 'a \<times> 'e)
    \<Rightarrow> ('a \<times> 'e \<times> ('a \<rightharpoonup> 'a \<times> 'e)) option option" where
  "search fuel tgt edges component start [] parent = Some None"
| "search 0 tgt edges component start (v # queue) parent = None"
| "search (Suc fuel) tgt edges component start (v # queue) parent =
     (case scan_edges tgt component start v (edges v) parent queue of
        Inl (e, parent') \<Rightarrow> Some (Some (v, e, parent'))
      | Inr (parent', queue') \<Rightarrow> search fuel tgt edges component start queue' parent')"

text \<open>The edges from \<open>at\<close> back to the start.\<close>

fun trace_back :: "nat \<Rightarrow> ('a \<rightharpoonup> 'a \<times> 'e) \<Rightarrow> 'a \<Rightarrow> 'a \<Rightarrow> 'e list option" where
  "trace_back fuel parent start at =
     (if at = start then Some []
      else case fuel of
        0 \<Rightarrow> None
      | Suc k \<Rightarrow>
          (case parent at of
             None \<Rightarrow> None
           | Some (u, e) \<Rightarrow> map_option ((#) e) (trace_back k parent start u)))"

declare trace_back.simps [simp del]

definition find_cycle :: "('e \<Rightarrow> 'a) \<Rightarrow> ('a \<Rightarrow> 'e list) \<Rightarrow> 'a list \<Rightarrow> 'e list option option" where
  "find_cycle tgt edges component =
     (case search (length component) tgt edges component (hd component) [hd component] Map.empty of
        None \<Rightarrow> None
      | Some None \<Rightarrow> Some None
      | Some (Some (v, e, parent)) \<Rightarrow>
          map_option (\<lambda>path. Some (rev (e # path))) (trace_back (length component) parent (hd component) v))"

section \<open>Walks\<close>

fun walk :: "('e \<Rightarrow> 'a) \<Rightarrow> ('a \<Rightarrow> 'e list) \<Rightarrow> 'a \<Rightarrow> 'e list \<Rightarrow> 'a \<Rightarrow> bool" where
  "walk tgt edges u [] w = (u = w)"
| "walk tgt edges u (e # es) w = (e \<in> set (edges u) \<and> walk tgt edges (tgt e) es w)"

lemma walk_append: "walk tgt edges u (p @ q) w \<longleftrightarrow> (\<exists>x. walk tgt edges u p x \<and> walk tgt edges x q w)"
  by (induction p arbitrary: u) auto

definition targets :: "('e \<Rightarrow> 'a) \<Rightarrow> ('a \<Rightarrow> 'e list) \<Rightarrow> 'a \<Rightarrow> 'a list" where
  "targets tgt edges v = map tgt (edges v)"

lemma walk_reach: "walk tgt edges u p w \<Longrightarrow> reach (targets tgt edges) u w"
proof (induction p arbitrary: u)
  case Nil
  then show ?case by simp
next
  case (Cons e p)
  then have "tgt e \<in> set (targets tgt edges u)" by (simp add: targets_def)
  then show ?case using Cons reach_trans [OF reach_edge] by fastforce
qed

text \<open>A node lies on a cycle.\<close>

definition on_cycle :: "('a \<Rightarrow> 'a list) \<Rightarrow> 'a \<Rightarrow> bool" where
  "on_cycle edges v \<longleftrightarrow> (\<exists>w \<in> set (edges v). reach edges w v)"

lemma walk_on_cycle: "walk tgt edges u p u \<Longrightarrow> p \<noteq> [] \<Longrightarrow> on_cycle (targets tgt edges) u"
  by (cases p) (auto simp: on_cycle_def targets_def dest: walk_reach)

lemma on_cycle_succs: "on_cycle edges v \<longleftrightarrow> (v, v) \<in> (succs edges)\<^sup>+"
  by (auto simp: on_cycle_def reach_def succs_def trancl_unfold_left)

section \<open>The search\<close>

text \<open>
  \<open>found\<close> are the nodes found so far, in the order they were found: all but the start have a
  parent that was found before them.
\<close>

definition parents_ok :: "('e \<Rightarrow> 'a) \<Rightarrow> ('a \<Rightarrow> 'e list) \<Rightarrow> 'a list \<Rightarrow> 'a \<Rightarrow> 'a list \<Rightarrow> ('a \<rightharpoonup> 'a \<times> 'e) \<Rightarrow> bool" where
  "parents_ok tgt edges component start found parent \<longleftrightarrow>
     distinct found \<and> set found \<subseteq> set component \<and> insert start (dom parent) = set found \<and> parent start = None
     \<and> (\<forall>x u e. parent x = Some (u, e) \<longrightarrow> e \<in> set (edges u) \<and> tgt e = x
          \<and> (\<exists>pre post. found = pre @ x # post \<and> u \<in> set pre))"

text \<open>No edge of \<open>es\<close> closes a cycle, and all that stay in the component lead to found nodes.\<close>

definition no_closing :: "('e \<Rightarrow> 'a) \<Rightarrow> 'a list \<Rightarrow> 'a \<Rightarrow> 'e list \<Rightarrow> 'a list \<Rightarrow> bool" where
  "no_closing tgt component start es found \<longleftrightarrow>
     (\<forall>e \<in> set es. tgt e \<in> set component \<longrightarrow> tgt e \<in> set found \<and> tgt e \<noteq> start)"

lemma parents_okD:
  assumes "parents_ok tgt edges component start found parent" "parent x = Some (u, e)"
  shows "e \<in> set (edges u)" "tgt e = x" "\<exists>pre post. found = pre @ x # post \<and> u \<in> set pre"
  using assms unfolding parents_ok_def by blast+

lemma parents_ok_length:
  assumes "parents_ok tgt edges component start found parent" "distinct component"
  shows "length found \<le> length component"
  using assms card_mono [of "set component" "set found"] by (simp add: parents_ok_def distinct_card)

lemma parents_ok_add:
  assumes "parents_ok tgt edges component start f parent" "v \<in> set f" "e \<in> set (edges v)"
    "tgt e \<in> set component" "tgt e \<noteq> start" "parent (tgt e) = None"
  shows "parents_ok tgt edges component start (f @ [tgt e]) (parent(tgt e \<mapsto> (v, e)))"
proof -
  have new: "tgt e \<notin> set f" using assms(1,5,6) by (auto simp: parents_ok_def)
  have "\<exists>pre post. f @ [tgt e] = pre @ x # post \<and> u \<in> set pre" if x: "parent x = Some (u, e')" for x u e'
  proof -
    obtain pre post where "f = pre @ x # post" "u \<in> set pre" using parents_okD(3) [OF assms(1) x] by blast
    then show ?thesis by (intro exI [of _ pre] exI [of _ "post @ [tgt e]"]) simp
  qed
  then show ?thesis using assms new by (auto simp: parents_ok_def)
qed

lemma scan_edges_ok:
  assumes "parents_ok tgt edges component start f parent" "v \<in> set f" "set es \<subseteq> set (edges v)"
  shows "case scan_edges tgt component start v es parent queue of
      Inl (e, parent') \<Rightarrow> e \<in> set es \<and> tgt e = start \<and> (\<exists>f'. parents_ok tgt edges component start f' parent' \<and> v \<in> set f')
    | Inr (parent', queue') \<Rightarrow> \<exists>extra. queue' = queue @ extra \<and> parents_ok tgt edges component start (f @ extra) parent'
        \<and> no_closing tgt component start es (f @ extra)"
  using assms
proof (induction es arbitrary: f parent queue)
  case Nil
  then show ?case by (simp add: no_closing_def)
next
  case (Cons e es)
  have es: "set es \<subseteq> set (edges v)" "e \<in> set (edges v)" using Cons.prems(3) by auto
  note IH = Cons.IH [OF _ _ es(1)]
  consider (out) "tgt e \<notin> set component" | (cycle) "tgt e \<in> set component" "tgt e = start"
    | (new) "tgt e \<in> set component" "tgt e \<noteq> start" "parent (tgt e) = None"
    | (old) "tgt e \<in> set component" "tgt e \<noteq> start" "parent (tgt e) \<noteq> None" by blast
  then show ?case
  proof cases
    case out
    then show ?thesis
      using IH [OF Cons.prems(1,2), of queue] by (auto simp: no_closing_def split: sum.splits)
  next
    case cycle
    then show ?thesis using Cons.prems by auto
  next
    case new
    have ok: "parents_ok tgt edges component start (f @ [tgt e]) (parent(tgt e \<mapsto> (v, e)))"
      using parents_ok_add [OF Cons.prems(1,2) es(2) new] .
    show ?thesis
      using IH [OF ok, of "queue @ [tgt e]"] Cons.prems(2) new
      by (auto simp: no_closing_def simp del: fun_upd_apply split: sum.splits)
  next
    case old
    then have "tgt e \<in> set f" using Cons.prems(1) by (auto simp: parents_ok_def)
    then show ?thesis
      using IH [OF Cons.prems(1,2), of queue] old by (auto simp: no_closing_def split: sum.splits)
  qed
qed

lemma search_ok:
  assumes "parents_ok tgt edges component start (scanned @ queue) parent" "distinct component"
    "length component \<le> fuel + length scanned"
    "\<And>x. x \<in> set scanned \<Longrightarrow> no_closing tgt component start (edges x) (scanned @ queue)"
  shows "\<exists>r. search fuel tgt edges component start queue parent = Some r \<and>
    (case r of
       None \<Rightarrow> \<exists>found. start \<in> set found \<and> (\<forall>x \<in> set found. no_closing tgt component start (edges x) found)
     | Some (v, e, parent') \<Rightarrow> e \<in> set (edges v) \<and> tgt e = start
         \<and> (\<exists>f. parents_ok tgt edges component start f parent' \<and> v \<in> set f))"
  using assms(1,3,4)
proof (induction fuel arbitrary: scanned queue parent)
  case 0
  have "length (scanned @ queue) \<le> length component" using parents_ok_length [OF 0(1) assms(2)] .
  then have "queue = []" using 0(2) by (cases queue) simp_all
  then show ?case using 0 by (auto simp: parents_ok_def intro!: exI [of _ scanned])
next
  case (Suc fuel)
  show ?case
  proof (cases queue)
    case Nil
    then show ?thesis using Suc.prems by (auto simp: parents_ok_def intro!: exI [of _ scanned])
  next
    case (Cons v q)
    have v: "v \<in> set (scanned @ queue)" using Cons by simp
    note sc = scan_edges_ok [OF Suc.prems(1) v order.refl, of q]
    show ?thesis
    proof (cases "scan_edges tgt component start v (edges v) parent q")
      case (Inl a)
      then show ?thesis using sc Cons by (cases a) auto
    next
      case (Inr b)
      obtain p' q' where b: "b = (p', q')" by (cases b)
      obtain extra where x: "q' = q @ extra" "parents_ok tgt edges component start ((scanned @ queue) @ extra) p'"
          "no_closing tgt component start (edges v) ((scanned @ queue) @ extra)"
        using sc Inr b by auto
      have "no_closing tgt component start (edges y) ((scanned @ [v]) @ q')" if "y \<in> set (scanned @ [v])" for y
        using that x(1,3) Suc.prems(3) [of y] Cons by (auto simp: no_closing_def)
      then show ?thesis
        using Suc.IH [of "scanned @ [v]" q' p'] x(1,2) Suc.prems(2) Cons Inr b by simp
    qed
  qed
qed

lemma trace_back_ok:
  assumes "parents_ok tgt edges component start f parent"
  shows "f = pre @ x # post \<Longrightarrow> length pre \<le> fuel \<Longrightarrow>
    \<exists>p. trace_back fuel parent start x = Some p \<and> walk tgt edges start (rev p) x"
proof (induction "length pre" arbitrary: pre x post fuel rule: less_induct)
  case less
  show ?case
  proof (cases "x = start")
    case True
    then show ?thesis by (simp add: trace_back.simps)
  next
    case False
    have "x \<in> insert start (dom parent)" using assms less.prems(1) by (auto simp: parents_ok_def)
    then obtain u e where ue: "parent x = Some (u, e)" using False by auto
    note e = parents_okD(1,2) [OF assms ue]
    obtain pre' post' where pre': "f = pre' @ x # post'" "u \<in> set pre'" using parents_okD(3) [OF assms ue] by blast
    have "distinct f" using assms by (simp add: parents_ok_def)
    then have "pre' = pre" using pre'(1) less.prems(1) by (auto simp: append_eq_append_conv2 append_eq_Cons_conv Cons_eq_append_conv)
    then have "u \<in> set pre" using pre'(2) by simp
    then obtain a b where ab: "pre = a @ u # b" by (auto simp: in_set_conv_decomp)
    then obtain k where k: "fuel = Suc k" "length a \<le> k" using less.prems(2) by (cases fuel) auto
    obtain p where "trace_back k parent start u = Some p" "walk tgt edges start (rev p) u"
      using less.hyps [of a u "b @ x # post" k] ab k less.prems(1) by auto
    then show ?thesis
      using False ue e k(1) by (auto simp add: trace_back.simps [of "Suc k"] walk_append)
  qed
qed

lemma find_cycle_ok:
  assumes "distinct component" "component \<noteq> []"
  shows "\<exists>r. find_cycle tgt edges component = Some r \<and>
    (case r of
       None \<Rightarrow> \<exists>found. hd component \<in> set found
         \<and> (\<forall>x \<in> set found. no_closing tgt component (hd component) (edges x) found)
     | Some path \<Rightarrow> path \<noteq> [] \<and> walk tgt edges (hd component) path (hd component))"
proof -
  let ?s = "hd component"
  have "parents_ok tgt edges component ?s ([] @ [?s]) Map.empty"
    using assms(2) by (simp add: parents_ok_def)
  then obtain r where r: "search (length component) tgt edges component ?s [?s] Map.empty = Some r"
    "case r of
       None \<Rightarrow> \<exists>found. ?s \<in> set found \<and> (\<forall>x \<in> set found. no_closing tgt component ?s (edges x) found)
     | Some (v, e, parent') \<Rightarrow> e \<in> set (edges v) \<and> tgt e = ?s
         \<and> (\<exists>f. parents_ok tgt edges component ?s f parent' \<and> v \<in> set f)"
    using search_ok [OF _ assms(1), of tgt edges ?s "[]" "[?s]" Map.empty "length component"] by auto
  show ?thesis
  proof (cases r)
    case None
    then show ?thesis using r by (simp add: find_cycle_def)
  next
    case (Some a)
    obtain v e parent where a: "a = (v, e, parent)" by (cases a)
    obtain f where f: "parents_ok tgt edges component ?s f parent" "v \<in> set f" "e \<in> set (edges v)" "tgt e = ?s"
      using r(2) Some a by auto
    obtain pre post where pre: "f = pre @ v # post" using f(2) by (auto simp: in_set_conv_decomp)
    have "length pre \<le> length component" using parents_ok_length [OF f(1) assms(1)] pre by simp
    then obtain p where "trace_back (length component) parent ?s v = Some p" "walk tgt edges ?s (rev p) v"
      using trace_back_ok [OF f(1) pre] by blast
    then show ?thesis using r(1) Some a f(3,4) by (auto simp: find_cycle_def walk_append)
  qed
qed

text \<open>In a strongly connected component the search answers whether there is any cycle.\<close>

lemma find_cycle_scc:
  assumes "distinct component" "is_scc (targets tgt edges) (set component)"
  shows "\<exists>r. find_cycle tgt edges component = Some r
    \<and> (r = None \<longleftrightarrow> (\<forall>x \<in> set component. \<not> on_cycle (targets tgt edges) x))
    \<and> (\<forall>path. r = Some path \<longrightarrow> path \<noteq> [] \<and> walk tgt edges (hd component) path (hd component))"
proof -
  let ?E = "targets tgt edges" and ?s = "hd component"
  have ne: "component \<noteq> []" using assms(2) by (auto simp: is_scc_def)
  obtain r where r: "find_cycle tgt edges component = Some r"
    "case r of
       None \<Rightarrow> \<exists>found. ?s \<in> set found \<and> (\<forall>x \<in> set found. no_closing tgt component ?s (edges x) found)
     | Some path \<Rightarrow> path \<noteq> [] \<and> walk tgt edges ?s path ?s"
    using find_cycle_ok [OF assms(1) ne] by blast
  have "\<not> on_cycle ?E x" if r0: "r = None" and x: "x \<in> set component" for x
  proof
    assume cyc: "on_cycle ?E x"
    obtain found where found: "?s \<in> set found" "\<And>x. x \<in> set found \<Longrightarrow> no_closing tgt component ?s (edges x) found"
      using r(2) r0 by auto
    have scc: "y \<in> set component" if "reach ?E ?s y" "reach ?E y ?s" for y
      using that assms(2) ne by (auto simp: is_scc_def)
    have sx: "reach ?E ?s x" "reach ?E x ?s" using assms(2) x ne by (auto simp: is_scc_def)
    have "on_cycle ?E ?s"
    proof (cases "x = ?s")
      case False
      then obtain w where "w \<in> set (?E ?s)" "reach ?E w x"
        using sx(1) by (auto simp: reach_def succs_def elim: converse_rtranclE)
      then show ?thesis using sx(2) reach_trans unfolding on_cycle_def by metis
    qed (use cyc in simp)
    then obtain w where w: "w \<in> set (?E ?s)" "reach ?E w ?s" by (auto simp: on_cycle_def)
    have step: "z \<in> set found \<and> z \<noteq> ?s" if "y \<in> set found" "z \<in> set (?E y)" "reach ?E ?s y" "reach ?E z ?s" for y z
    proof -
      have "z \<in> set component" using scc reach_step that by metis
      then show ?thesis using that(2) found(2) [OF that(1)] by (auto simp: targets_def no_closing_def)
    qed
    let ?C = "{y \<in> set found. y \<noteq> ?s \<and> reach ?E ?s y}"
    have "w \<in> ?C" using step [OF found(1) w(1)] w reach_edge [of w ?E ?s] by simp
    then obtain a b where "a \<in> ?C" "b \<notin> ?C" "b \<in> set (?E a)" "reach ?E b ?s"
      using reach_leaves [OF w(2), of ?C] by blast
    then show False using step [of a b] reach_step [of ?E ?s a b] by simp
  qed
  moreover have "on_cycle ?E ?s" "?s \<in> set component" if "r = Some path" for path
    using that r(2) walk_on_cycle [of tgt edges ?s path] ne by auto
  ultimately show ?thesis using r by (cases r) auto
qed

section \<open>Ranks in an acyclic graph\<close>

text \<open>The number of nodes beyond a node falls along every edge of a finite acyclic graph.\<close>

definition beyond :: "('a \<Rightarrow> 'a list) \<Rightarrow> 'a \<Rightarrow> 'a set" where
  "beyond edges v = {w. (v, w) \<in> (succs edges)\<^sup>+}"

lemma beyond_edge:
  assumes acyclic: "\<And>x. \<not> on_cycle edges x" and w: "w \<in> set (edges v)" and fin: "finite (beyond edges v)"
  shows "card (beyond edges w) < card (beyond edges v)"
proof (rule psubset_card_mono [OF fin])
  have e: "(v, w) \<in> succs edges" using w by (simp add: succs_def)
  have "w \<notin> beyond edges w" using acyclic [of w] by (simp add: beyond_def on_cycle_succs)
  moreover have "w \<in> beyond edges v" using e by (auto simp: beyond_def)
  moreover have "beyond edges w \<subseteq> beyond edges v" using e by (auto simp: beyond_def intro: trancl_into_trancl2)
  ultimately show "beyond edges w \<subset> beyond edges v" by blast
qed

lemma acyclic_on_cycle: "acyclic (succs edges) \<longleftrightarrow> (\<forall>x. \<not> on_cycle edges x)"
  by (simp add: acyclic_def on_cycle_succs)

end
