(* ===== verification/Router_Chain.thy ===== *)
theory Router_Chain
  imports Router_Strategy Graph_Cycle Go_Net
begin

text \<open>
  Balancers and their fallback chains: \<open>app/router/balancing.go\<close>, \<open>balancing_override.go\<close> and
  \<open>fallback_chain.go\<close>.  Balancers are objects that several maps share, so they live in a heap and
  a published map of balancers is an association list from tags to references, with one entry per
  tag.  What a pick reads of its surroundings (the outbound manager's \<open>Select\<close>, the observation,
  a drawn random number) is an environment, one for every level of a chain.
\<close>

section \<open>Balancers\<close>

text \<open>
  The weighted least ping strategy computes with floating-point weights; its pick, its
  \<open>FallbackActive\<close> and its \<open>GetPrincipleTarget\<close> are functions of the environment.
\<close>

datatype strategy = RoundRobin nat | Random | LeastPing | LeastLoadStrategy LeastLoad | WeightedLeastPing

record Balancer =
  bal_tag :: string
  selectors :: "string list"
  strategy :: strategy
  fallbackTag :: string
  members :: "string list"
  override_target :: string

type_synonym ref = nat
type_synonym heap = "ref \<Rightarrow> Balancer"
type_synonym balancer_map = "(string \<times> ref) list"

text \<open>\<open>Select\<close> is \<open>None\<close> for an outbound manager that is no \<open>HandlerSelector\<close>.\<close>

record env =
  Select :: "(string list \<Rightarrow> string list) option"
  Observation :: "ref \<Rightarrow> observation"
  drawn :: nat
  weighted_pick :: "ref \<Rightarrow> string list \<Rightarrow> string"
  weighted_active :: "ref \<Rightarrow> string list \<Rightarrow> bool"
  weighted_targets :: "ref \<Rightarrow> string list \<Rightarrow> string list"

definition override_Get :: "Balancer \<Rightarrow> string" where
  "override_Get b = override_target b"

definition override_Put :: "string \<Rightarrow> Balancer \<Rightarrow> Balancer" where
  "override_Put target b = b\<lparr>override_target := target\<rparr>"

definition override_Clear :: "Balancer \<Rightarrow> Balancer" where
  "override_Clear b = b\<lparr>override_target := ''''\<rparr>"

definition PickOutbound :: "env \<Rightarrow> ref \<Rightarrow> strategy \<Rightarrow> string list \<Rightarrow> string \<times> strategy" where
  "PickOutbound e r s candidates =
     (case s of
        RoundRobin index \<Rightarrow>
          (let (tag, index') = RoundRobin_PickOutbound (Observation e r) candidates index in (tag, RoundRobin index'))
      | Random \<Rightarrow> (Random_PickOutbound (Observation e r) (drawn e) candidates, s)
      | LeastPing \<Rightarrow> (LeastPing_PickOutbound (Observation e r) candidates, s)
      | LeastLoadStrategy l \<Rightarrow> (LeastLoad_PickOutbound l (Observation e r) (drawn e) candidates, s)
      | WeightedLeastPing \<Rightarrow> (weighted_pick e r candidates, s))"

definition FallbackActive :: "env \<Rightarrow> ref \<Rightarrow> strategy \<Rightarrow> string list \<Rightarrow> bool" where
  "FallbackActive e r s candidates =
     (case s of
        RoundRobin index \<Rightarrow> alive_FallbackActive (Observation e r) candidates
      | Random \<Rightarrow> alive_FallbackActive (Observation e r) candidates
      | LeastPing \<Rightarrow> LeastPing_FallbackActive (Observation e r) candidates
      | LeastLoadStrategy l \<Rightarrow> LeastLoad_FallbackActive l (Observation e r) candidates
      | WeightedLeastPing \<Rightarrow> weighted_active e r candidates)"

definition SelectOutbounds :: "env \<Rightarrow> Balancer \<Rightarrow> string list res" where
  "SelectOutbounds e b =
     (if selectors b \<noteq> [] then
        (case Select e of
           None \<Rightarrow> Inl (Err ''outbound.Manager is not a HandlerSelector'')
         | Some sel \<Rightarrow> Inr (sel (selectors b) @ members b))
      else Inr (members b))"

text \<open>One level of a pick: the tag, and whether it is the \<open>fallbackTag\<close>.\<close>

definition pick :: "env \<Rightarrow> ref \<Rightarrow> Balancer \<Rightarrow> (string \<times> bool) res \<times> Balancer" where
  "pick e r b =
     (case SelectOutbounds e b of
        Inl err \<Rightarrow> (if fallbackTag b \<noteq> '''' then Inr (fallbackTag b, True) else Inl err, b)
      | Inr candidates \<Rightarrow>
          (let (tag, s) = (if override_Get b \<noteq> '''' then (override_Get b, strategy b)
                           else PickOutbound e r (strategy b) candidates);
               b' = b\<lparr>strategy := s\<rparr>
           in if tag = '''' then
                (if fallbackTag b \<noteq> '''' then Inr (fallbackTag b, True)
                 else Inl (Err ''balancing strategy returns empty tag''), b')
              else (Inr (tag, False), b')))"

definition Balancer_PickOutbound :: "env \<Rightarrow> ref \<Rightarrow> Balancer \<Rightarrow> string res \<times> Balancer" where
  "Balancer_PickOutbound e r b = (let (res, b') = pick e r b in (map_sum id fst res, b'))"

text \<open>Every strategy of the router implements \<open>BalancingFallbackState\<close>.\<close>

definition fallbackState :: "env \<Rightarrow> ref \<Rightarrow> Balancer \<Rightarrow> bool \<times> bool" where
  "fallbackState e r b =
     (case SelectOutbounds e b of
        Inl err \<Rightarrow> (fallbackTag b \<noteq> '''', True)
      | Inr candidates \<Rightarrow> (fallbackTag b \<noteq> '''' \<and> FallbackActive e r (strategy b) candidates, True))"

section \<open>The check of the balancer graph\<close>

record graphEdge =
  edge_to :: string
  edge_member :: bool

fun member_edges :: "balancer_map \<Rightarrow> string \<Rightarrow> string list \<Rightarrow> string list \<Rightarrow> graphEdge list res" where
  "member_edges m tag listed [] = Inr []"
| "member_edges m tag listed (x # xs) =
     (if map_of m x = None then Inl (Err (''balancer '' @ tag @ '': member '' @ x @ '' is no balancer''))
      else if x \<in> set listed then Inl (Err (''balancer '' @ tag @ '': member '' @ x @ '' is listed twice''))
      else map_sum id ((#) \<lparr>edge_to = x, edge_member = True\<rparr>) (member_edges m tag (x # listed) xs))"

definition fallback_edges :: "balancer_map \<Rightarrow> Balancer \<Rightarrow> graphEdge list" where
  "fallback_edges m b = (if map_of m (fallbackTag b) \<noteq> None then [\<lparr>edge_to = fallbackTag b, edge_member = False\<rparr>] else [])"

fun collect_edges :: "heap \<Rightarrow> balancer_map \<Rightarrow> string list \<Rightarrow> (string \<Rightarrow> graphEdge list) \<Rightarrow> string list
    \<Rightarrow> ((string \<Rightarrow> graphEdge list) \<times> string list) res" where
  "collect_edges h m [] edges isMember = Inr (edges, isMember)"
| "collect_edges h m (tag # tags) edges isMember =
     (let b = h (the (map_of m tag))
      in case member_edges m tag [] (members b) of
           Inl err \<Rightarrow> Inl err
         | Inr es \<Rightarrow> collect_edges h m tags (edges(tag := es @ fallback_edges m b)) (isMember @ members b))"

definition format_edge :: "bool \<Rightarrow> graphEdge \<Rightarrow> string" where
  "format_edge withMember e =
     (if \<not> withMember then '' -> '' else if edge_member e then '' -[member]-> '' else '' -[fallback]-> '') @ edge_to e"

definition formatBalancerCycle :: "string \<Rightarrow> graphEdge list \<Rightarrow> string \<times> bool" where
  "formatBalancerCycle start path =
     (let withMember = list_ex edge_member path in (start @ concat (map (format_edge withMember) path), withMember))"

definition shortestBalancerCycle :: "string list \<Rightarrow> (string \<Rightarrow> graphEdge list) \<Rightarrow> (string \<times> bool) option" where
  "shortestBalancerCycle component edges =
     map_option (\<lambda>r. case r of None \<Rightarrow> ('''', False) | Some path \<Rightarrow> formatBalancerCycle (hd component) path)
       (find_cycle edge_to edges component)"

fun collect_cycles :: "(string \<Rightarrow> graphEdge list) \<Rightarrow> string list list \<Rightarrow> string list \<Rightarrow> bool \<Rightarrow> (string list \<times> bool) option" where
  "collect_cycles edges [] cycles withMembers = Some (cycles, withMembers)"
| "collect_cycles edges (c # cs) cycles withMembers =
     (case shortestBalancerCycle c edges of
        None \<Rightarrow> None
      | Some (cycle, withMember) \<Rightarrow>
          if cycle \<noteq> '''' then collect_cycles edges cs (cycles @ [cycle]) (withMembers \<or> withMember)
          else collect_cycles edges cs cycles withMembers)"

definition has_no_fallback :: "heap \<Rightarrow> balancer_map \<Rightarrow> string \<Rightarrow> bool" where
  "has_no_fallback h m tag \<longleftrightarrow> fallbackTag (h (the (map_of m tag))) = ''''"

text \<open>
  The outer option is the fuel of the graph algorithms, the inner one the returned error, \<open>None\<close>
  for \<open>nil\<close>.
\<close>

definition checkBalancerGraph :: "heap \<Rightarrow> balancer_map \<Rightarrow> go_error option option" where
  "checkBalancerGraph h m =
     (let tags = sort (map fst m)
      in case collect_edges h m tags (\<lambda>_. []) [] of
           Inl err \<Rightarrow> Some (Some err)
         | Inr (edges, isMember) \<Rightarrow>
             (case find (has_no_fallback h m) (sort (remdups isMember)) of
                Some tag \<Rightarrow> Some (Some (Err (''balancer '' @ tag @ '' is a member and has no fallbackTag'')))
              | None \<Rightarrow>
                  (case components tags (targets edge_to edges) of
                     None \<Rightarrow> None
                   | Some cs \<Rightarrow>
                       (case collect_cycles edges cs [] False of
                          None \<Rightarrow> None
                        | Some (cycles, withMembers) \<Rightarrow>
                            if cycles = [] then Some None
                            else if \<not> withMembers
                            then Some (Some (Err (''balancer fallback cycle: '' @ join_sep ''; '' (sort cycles))))
                            else Some (Some (Err (''balancer cycle: '' @ join_sep ''; '' (sort cycles))))))))"

section \<open>Resolving a chain\<close>

fun resolve_levels :: "nat \<Rightarrow> (nat \<Rightarrow> env) \<Rightarrow> balancer_map \<Rightarrow> ref \<Rightarrow> heap \<Rightarrow> string res option \<times> heap" where
  "resolve_levels 0 w m b h = (None, h)"
| "resolve_levels (Suc k) w m b h =
     (let (r, b') = pick (w k) b (h b); h' = h(b := b')
      in case r of
           Inl err \<Rightarrow> (Some (Inl err), h')
         | Inr (tag, fallback) \<Rightarrow>
             if \<not> fallback \<and> tag \<notin> set (members (h b)) then (Some (Inr tag), h')
             else (case map_of m tag of
                     None \<Rightarrow> (Some (Inr tag), h')
                   | Some b2 \<Rightarrow> resolve_levels k w m b2 h'))"

definition resolveChain :: "(nat \<Rightarrow> env) \<Rightarrow> balancer_map \<Rightarrow> ref \<Rightarrow> heap \<Rightarrow> u64 \<Rightarrow> string res \<times> heap \<times> u64" where
  "resolveChain w m first h fallbackChainGuard =
     (case resolve_levels (length m + 1) w m first h of
        (Some r, h') \<Rightarrow> (r, h', fallbackChainGuard)
      | (None, h') \<Rightarrow> (Inl ErrRouteDropped, h', fallbackChainGuard + 1))"

fun static_loop :: "nat \<Rightarrow> heap \<Rightarrow> balancer_map \<Rightarrow> ref \<Rightarrow> string list" where
  "static_loop 0 h m b = []"
| "static_loop (Suc k) h m b =
     fallbackTag (h b) # (case map_of m (fallbackTag (h b)) of None \<Rightarrow> [] | Some b2 \<Rightarrow> static_loop k h m b2)"

definition staticChain :: "heap \<Rightarrow> balancer_map \<Rightarrow> ref \<Rightarrow> string list" where
  "staticChain h m first = bal_tag (h first) # static_loop (length m + 2) h m first"

section \<open>The view of the control plane\<close>

definition view_Tags :: "balancer_map \<Rightarrow> string list" where
  "view_Tags v = sort (map fst v)"

definition view_get :: "balancer_map \<Rightarrow> string \<Rightarrow> ref res" where
  "view_get v tag = (case map_of v tag of Some b \<Rightarrow> Inr b | None \<Rightarrow> Inl (Err ''cannot find tag''))"

definition GetOverrideTarget :: "heap \<Rightarrow> balancer_map \<Rightarrow> string \<Rightarrow> string res" where
  "GetOverrideTarget h v tag = map_sum id (\<lambda>b. override_Get (h b)) (view_get v tag)"

definition GetFallback :: "env \<Rightarrow> heap \<Rightarrow> balancer_map \<Rightarrow> string \<Rightarrow> (string \<times> bool \<times> bool) res" where
  "GetFallback e h v tag =
     (case view_get v tag of
        Inl err \<Rightarrow> Inl err
      | Inr b \<Rightarrow>
          if \<not> is_ok (SelectOutbounds e (h b)) \<and> fallbackTag (h b) = ''''
          then Inl (Err ''unable to select outbounds'')
          else Inr (fallbackTag (h b), fallbackState e b (h b)))"

definition strategy_targets :: "env \<Rightarrow> ref \<Rightarrow> strategy \<Rightarrow> string list \<Rightarrow> string list" where
  "strategy_targets e r s candidates =
     (case s of
        RoundRobin index \<Rightarrow> candidates
      | Random \<Rightarrow> candidates
      | LeastPing \<Rightarrow> [LeastPing_PickOutbound (Observation e r) candidates]
      | LeastLoadStrategy l \<Rightarrow> map node_Tag (pickOutbounds l (Observation e r) candidates)
      | WeightedLeastPing \<Rightarrow> weighted_targets e r candidates)"

definition GetPrincipleTarget :: "env \<Rightarrow> heap \<Rightarrow> balancer_map \<Rightarrow> string \<Rightarrow> string list res" where
  "GetPrincipleTarget e h v tag =
     (case view_get v tag of
        Inl err \<Rightarrow> Inl err
      | Inr b \<Rightarrow>
          (case SelectOutbounds e (h b) of
             Inl err \<Rightarrow> Inl (Err ''unable to select outbounds'')
           | Inr candidates \<Rightarrow> Inr (strategy_targets e b (strategy (h b)) candidates)))"

record FallbackHop =
  hop_Tag :: string
  hop_Balancer :: bool
  hop_Active :: bool
  hop_Reported :: bool

fun hops_loop :: "nat \<Rightarrow> env \<Rightarrow> heap \<Rightarrow> balancer_map \<Rightarrow> string \<Rightarrow> FallbackHop list" where
  "hops_loop 0 e h v t = []"
| "hops_loop (Suc k) e h v t =
     (if t = '''' then []
      else case map_of v t of
        None \<Rightarrow> [\<lparr>hop_Tag = t, hop_Balancer = False, hop_Active = False, hop_Reported = False\<rparr>]
      | Some b \<Rightarrow>
          (let (active, reported) = fallbackState e b (h b)
           in \<lparr>hop_Tag = t, hop_Balancer = True, hop_Active = active, hop_Reported = reported\<rparr>
                # hops_loop k e h v (fallbackTag (h b))))"

definition GetFallbackChain :: "env \<Rightarrow> heap \<Rightarrow> balancer_map \<Rightarrow> string \<Rightarrow> FallbackHop list res" where
  "GetFallbackChain e h v tag =
     map_sum id (\<lambda>b. hops_loop (length v + 1) e h v (fallbackTag (h b))) (view_get v tag)"

section \<open>The graph that the check decides\<close>

definition balancer_graph :: "heap \<Rightarrow> balancer_map \<Rightarrow> string \<Rightarrow> graphEdge list" where
  "balancer_graph h m tag =
     (case map_of m tag of
        None \<Rightarrow> []
      | Some b \<Rightarrow> map (\<lambda>x. \<lparr>edge_to = x, edge_member = True\<rparr>) (filter (\<lambda>x. map_of m x \<noteq> None) (members (h b)))
          @ fallback_edges m (h b))"

abbreviation balancer_succs :: "heap \<Rightarrow> balancer_map \<Rightarrow> string \<Rightarrow> string list" where
  "balancer_succs h m \<equiv> targets edge_to (balancer_graph h m)"

lemma balancer_succs_iff:
  "w \<in> set (balancer_succs h m v) \<longleftrightarrow>
     (\<exists>b. map_of m v = Some b \<and> (w \<in> set (members (h b)) \<or> w = fallbackTag (h b)) \<and> map_of m w \<noteq> None)"
  by (cases "map_of m v") (auto simp: targets_def balancer_graph_def fallback_edges_def o_def)

interpretation balancer_digraph: finite_graph "balancer_succs h m" "set (map fst m)" for h m
  by unfold_locales (auto simp: balancer_succs_iff map_of_eq_None_iff image_iff dest: map_of_SomeD)

definition members_ok :: "balancer_map \<Rightarrow> Balancer \<Rightarrow> bool" where
  "members_ok m b \<longleftrightarrow> distinct (members b) \<and> (\<forall>x \<in> set (members b). map_of m x \<noteq> None)"

lemma member_edges_ok:
  "member_edges m tag listed xs = Inr es \<longleftrightarrow>
     distinct xs \<and> set xs \<inter> set listed = {} \<and> (\<forall>x \<in> set xs. map_of m x \<noteq> None)
     \<and> es = map (\<lambda>x. \<lparr>edge_to = x, edge_member = True\<rparr>) xs"
proof (induction xs arbitrary: listed es)
  case (Cons x xs)
  have "member_edges m tag listed (x # xs) = Inr es \<longleftrightarrow>
      map_of m x \<noteq> None \<and> x \<notin> set listed
      \<and> (\<exists>es'. member_edges m tag (x # listed) xs = Inr es' \<and> es = \<lparr>edge_to = x, edge_member = True\<rparr> # es')"
    by (simp add: map_sum_Inr_iff)
  then show ?case unfolding Cons.IH by auto
qed auto

lemma balancer_graph_ok:
  "map_of m tag = Some b \<Longrightarrow> members_ok m (h b) \<Longrightarrow>
     balancer_graph h m tag = map (\<lambda>x. \<lparr>edge_to = x, edge_member = True\<rparr>) (members (h b)) @ fallback_edges m (h b)"
  by (simp add: balancer_graph_def members_ok_def filter_id_conv)

lemma collect_edges_ok:
  assumes "set tags \<subseteq> fst ` set m"
  shows "collect_edges h m tags edges isMember = Inr r \<longleftrightarrow>
    (\<forall>t \<in> set tags. members_ok m (h (the (map_of m t))))
    \<and> r = (\<lambda>t. if t \<in> set tags then balancer_graph h m t else edges t,
           isMember @ concat (map (\<lambda>t. members (h (the (map_of m t)))) tags))"
  using assms
proof (induction tags arbitrary: edges isMember)
  case (Cons tag tags)
  obtain b where b: "map_of m tag = Some b"
    using Cons.prems by (metis list.set_intros(1) map_of_eq_None_iff option.exhaust subsetD)
  have IH: "collect_edges h m tags e i = Inr r \<longleftrightarrow>
    (\<forall>t \<in> set tags. members_ok m (h (the (map_of m t))))
    \<and> r = (\<lambda>t. if t \<in> set tags then balancer_graph h m t else e t,
           i @ concat (map (\<lambda>t. members (h (the (map_of m t)))) tags))" for e i
    using Cons.IH Cons.prems by simp
  show ?case
  proof (cases "members_ok m (h b)")
    case True
    then have "member_edges m tag [] (members (h b)) = Inr (map (\<lambda>x. \<lparr>edge_to = x, edge_member = True\<rparr>) (members (h b)))"
      by (simp add: member_edges_ok members_ok_def)
    moreover have "(\<lambda>t. if t \<in> set tags then balancer_graph h m t else (edges(tag := balancer_graph h m tag)) t)
        = (\<lambda>t. if t \<in> set (tag # tags) then balancer_graph h m t else edges t)" by auto
    ultimately show ?thesis using True b IH by (simp add: balancer_graph_ok [of m tag b h, OF b True, symmetric])
  next
    case False
    then have "\<not> (\<exists>es. member_edges m tag [] (members (h b)) = Inr es)"
      by (auto simp: member_edges_ok members_ok_def)
    then obtain err where "member_edges m tag [] (members (h b)) = Inl err"
      by (cases "member_edges m tag [] (members (h b))") auto
    then show ?thesis using False b by simp
  qed
qed auto

lemma formatBalancerCycle_nonempty: "path \<noteq> [] \<Longrightarrow> fst (formatBalancerCycle start path) \<noteq> ''''"
  by (cases path) (simp_all add: formatBalancerCycle_def format_edge_def Let_def)

lemma shortestBalancerCycle_ok:
  assumes "distinct c" "is_scc (targets edge_to edges) (set c)"
  shows "\<exists>cycle withMember. shortestBalancerCycle c edges = Some (cycle, withMember)
    \<and> (cycle = '''' \<longleftrightarrow> (\<forall>x \<in> set c. \<not> on_cycle (targets edge_to edges) x))"
proof -
  obtain r where r: "find_cycle edge_to edges c = Some r"
      "r = None \<longleftrightarrow> (\<forall>x \<in> set c. \<not> on_cycle (targets edge_to edges) x)" "\<And>path. r = Some path \<Longrightarrow> path \<noteq> []"
    using find_cycle_scc [OF assms] by blast
  then show ?thesis
    using formatBalancerCycle_nonempty
    by (cases r) (auto simp: shortestBalancerCycle_def prod_eq_iff)
qed

lemma collect_cycles_ok:
  assumes "\<forall>c \<in> set cs. distinct c \<and> is_scc (targets edge_to edges) (set c)"
  shows "\<exists>cy wm'. collect_cycles edges cs cycles wm = Some (cy, wm')
    \<and> (cy = [] \<longleftrightarrow> cycles = [] \<and> (\<forall>c \<in> set cs. \<forall>x \<in> set c. \<not> on_cycle (targets edge_to edges) x))"
  using assms
proof (induction cs arbitrary: cycles wm)
  case (Cons c cs)
  obtain cycle withMember where c: "shortestBalancerCycle c edges = Some (cycle, withMember)"
      "cycle = '''' \<longleftrightarrow> (\<forall>x \<in> set c. \<not> on_cycle (targets edge_to edges) x)"
    using shortestBalancerCycle_ok Cons.prems by force
  have cs: "\<forall>c \<in> set cs. distinct c \<and> is_scc (targets edge_to edges) (set c)" using Cons.prems by simp
  show ?case
  proof (cases "cycle = ''''")
    case True
    then have "collect_cycles edges (c # cs) cycles wm = collect_cycles edges cs cycles wm" using c(1) by simp
    then show ?thesis using Cons.IH [OF cs, of cycles wm] c(2) True by simp
  next
    case False
    then have "collect_cycles edges (c # cs) cycles wm = collect_cycles edges cs (cycles @ [cycle]) (wm \<or> withMember)"
      using c(1) by simp
    then show ?thesis using Cons.IH [OF cs, of "cycles @ [cycle]" "wm \<or> withMember"] c(2) False by auto
  qed
qed simp

text \<open>What the check accepts: members are balancers, listed once, with a fallback, and no cycle.\<close>

definition graph_ok :: "heap \<Rightarrow> balancer_map \<Rightarrow> bool" where
  "graph_ok h m \<longleftrightarrow>
     (\<forall>tag b. map_of m tag = Some b \<longrightarrow> members_ok m (h b)
        \<and> (\<forall>x \<in> set (members (h b)). fallbackTag (h (the (map_of m x))) \<noteq> ''''))
     \<and> acyclic (succs (balancer_succs h m))"

lemma find_no_fallback:
  "find (has_no_fallback h m) (sort (remdups xs)) = None \<longleftrightarrow> (\<forall>x \<in> set xs. fallbackTag (h (the (map_of m x))) \<noteq> '''')"
  by (auto simp: find_None_iff has_no_fallback_def)

lemma map_of_keys: "(\<forall>t \<in> set (map fst m). P t (the (map_of m t))) \<longleftrightarrow> (\<forall>t b. map_of m t = Some b \<longrightarrow> P t b)"
  by (metis (no_types, lifting) domD domI dom_map_of_conv_image_fst list.set_map option.sel)

lemma map_of_Some_key: "map_of m t = Some b \<Longrightarrow> t \<in> fst ` set m"
  by (metis domI dom_map_of_conv_image_fst)

lemma check_graph_cycles:
  fixes h m
  defines "E \<equiv> balancer_graph h m"
  shows "\<exists>cs cy wm. components (sort (map fst m)) (targets edge_to E) = Some cs \<and> collect_cycles E cs [] False = Some (cy, wm)
    \<and> (cy = [] \<longleftrightarrow> acyclic (succs (targets edge_to E)))"
proof -
  obtain cs where cs: "components (sort (map fst m)) (balancer_succs h m) = Some cs" "\<Union> (set ` set cs) = set (map fst m)"
      "\<forall>c \<in> set cs. is_scc (balancer_succs h m) (set c) \<and> sorted c \<and> distinct c"
    using balancer_digraph.components_ok [of "sort (map fst m)" m h] by auto
  obtain cy wm where "collect_cycles E cs [] False = Some (cy, wm)"
      "cy = [] \<longleftrightarrow> (\<forall>c \<in> set cs. \<forall>x \<in> set c. \<not> on_cycle (balancer_succs h m) x)"
    using collect_cycles_ok [of cs E "[]" False] cs(3) unfolding E_def by auto
  moreover have "(\<forall>c \<in> set cs. \<forall>x \<in> set c. \<not> on_cycle (balancer_succs h m) x) \<longleftrightarrow> (\<forall>x. \<not> on_cycle (balancer_succs h m) x)"
  proof -
    have "x \<in> \<Union> (set ` set cs)" if "on_cycle (balancer_succs h m) x" for x
      using that unfolding cs(2) on_cycle_def by (auto simp: balancer_succs_iff dest: map_of_Some_key)
    then show ?thesis by blast
  qed
  ultimately show ?thesis using cs(1) unfolding E_def acyclic_on_cycle by blast
qed

lemma checkBalancerGraph_ok: "\<exists>r. checkBalancerGraph h m = Some r \<and> (r = None \<longleftrightarrow> graph_ok h m)"
proof (cases "\<forall>t \<in> set (map fst m). members_ok m (h (the (map_of m t)))")
  case False
  then have "\<not> (\<exists>r. collect_edges h m (sort (map fst m)) (\<lambda>_. []) [] = Inr r)"
    using collect_edges_ok [of "sort (map fst m)" m h] by auto
  then obtain err where "collect_edges h m (sort (map fst m)) (\<lambda>_. []) [] = Inl err"
    by (cases "collect_edges h m (sort (map fst m)) (\<lambda>_. []) []") auto
  moreover have "\<not> graph_ok h m"
    using False unfolding map_of_keys [of m "\<lambda>_ b. members_ok m (h b)"] graph_ok_def by blast
  ultimately show ?thesis by (simp add: checkBalancerGraph_def)
next
  case True
  let ?mem = "concat (map (\<lambda>t. members (h (the (map_of m t)))) (sort (map fst m)))"
  have "(\<lambda>t. if t \<in> set (sort (map fst m)) then balancer_graph h m t else []) = balancer_graph h m"
    by (auto simp: balancer_graph_def fun_eq_iff dest: map_of_Some_key split: option.split)
  then have col: "collect_edges h m (sort (map fst m)) (\<lambda>_. []) [] = Inr (balancer_graph h m, ?mem)"
    using True by (simp add: collect_edges_ok)
  obtain cs cy wm where "components (sort (map fst m)) (balancer_succs h m) = Some cs"
      "collect_cycles (balancer_graph h m) cs [] False = Some (cy, wm)" "cy = [] \<longleftrightarrow> acyclic (succs (balancer_succs h m))"
    using check_graph_cycles by blast
  moreover have "(\<forall>x \<in> set ?mem. fallbackTag (h (the (map_of m x))) \<noteq> '''') \<longleftrightarrow>
      (\<forall>t b. map_of m t = Some b \<longrightarrow> (\<forall>x \<in> set (members (h b)). fallbackTag (h (the (map_of m x))) \<noteq> ''''))"
    unfolding map_of_keys [symmetric] by auto
  moreover have "\<forall>t b. map_of m t = Some b \<longrightarrow> members_ok m (h b)" using True unfolding map_of_keys [of m "\<lambda>_ b. members_ok m (h b)"] .
  ultimately show ?thesis
    using find_no_fallback [of h m ?mem]
    by (cases "find (has_no_fallback h m) (sort (remdups ?mem))") (auto simp: checkBalancerGraph_def col Let_def graph_ok_def)
qed

text \<open>
  C4: the check of a balancer map always returns, and it accepts exactly the maps in which every
  member is a balancer that is listed once and has a fallback, and the graph of members and
  fallbacks has no cycle.
\<close>

theorem checkBalancerGraph_decides:
  "checkBalancerGraph h m \<noteq> None \<and> (checkBalancerGraph h m = Some None \<longleftrightarrow> graph_ok h m)"
  using checkBalancerGraph_ok [of h m] by auto

section \<open>Chains end\<close>

text \<open>A pick changes nothing of a balancer but its strategy.\<close>

definition same_shape :: "heap \<Rightarrow> heap \<Rightarrow> bool" where
  "same_shape h h' \<longleftrightarrow> (\<exists>s. h' = (\<lambda>r. (h r)\<lparr>strategy := s r\<rparr>))"

lemma same_shape_refl: "same_shape h h"
  unfolding same_shape_def by (rule exI [of _ "\<lambda>r. strategy (h r)"]) simp

lemma same_shape_trans: "same_shape h h' \<Longrightarrow> same_shape h' h'' \<Longrightarrow> same_shape h h''"
  unfolding same_shape_def by fastforce

lemma pick_shape: "\<exists>s. snd (pick e r b) = b\<lparr>strategy := s\<rparr>"
proof -
  have "\<exists>s. b = b\<lparr>strategy := s\<rparr>" by (rule exI [of _ "strategy b"]) simp
  then show ?thesis by (auto simp: pick_def Let_def split: sum.split prod.split if_splits)
qed

lemma pick_same_shape: "same_shape h (h(b := snd (pick e b (h b))))"
proof -
  obtain s where "snd (pick e b (h b)) = (h b)\<lparr>strategy := s\<rparr>" using pick_shape by blast
  then show ?thesis unfolding same_shape_def by (intro exI [of _ "\<lambda>r. if r = b then s else strategy (h r)"]) auto
qed

lemma same_shape_fields:
  assumes "same_shape h h'"
  shows "members (h' b) = members (h b)" "fallbackTag (h' b) = fallbackTag (h b)" "selectors (h' b) = selectors (h b)"
    "override_target (h' b) = override_target (h b)" "bal_tag (h' b) = bal_tag (h b)"
  using assms by (auto simp: same_shape_def)

lemma same_shape_graph: "same_shape h h' \<Longrightarrow> balancer_graph h' m = balancer_graph h m"
  by (simp add: fun_eq_iff balancer_graph_def fallback_edges_def same_shape_fields split: option.split)

text \<open>What a pick returns: the fallback, the override or what the strategy yields.\<close>

lemma pick_cases:
  assumes "pick e r b = (res, b')"
  obtains (no_fallback) err where "res = Inl err" "fallbackTag b = ''''" "err \<noteq> ErrRouteDropped"
    | (fallback) "res = Inr (fallbackTag b, True)" "fallbackTag b \<noteq> ''''"
    | (override) "res = Inr (override_target b, False)" "override_target b \<noteq> ''''" "is_ok (SelectOutbounds e b)"
    | (strategy) cs tag s where "res = Inr (tag, False)" "override_target b = ''''" "SelectOutbounds e b = Inr cs"
        "PickOutbound e r (strategy b) cs = (tag, s)" "tag \<noteq> ''''"
proof (cases "SelectOutbounds e b")
  case (Inl err)
  then have "err \<noteq> ErrRouteDropped" by (auto simp: SelectOutbounds_def split: if_splits option.splits)
  then show ?thesis using that(1,2) assms Inl by (auto simp: pick_def split: if_splits)
next
  case (Inr cs)
  show ?thesis
  proof (cases "override_target b = ''''")
    case True
    then show ?thesis
      using that(1,2,4) assms Inr
      by (cases "PickOutbound e r (strategy b) cs") (auto simp: pick_def override_Get_def Let_def split: if_splits)
  next
    case False
    then show ?thesis using that(3) assms Inr by (auto simp: pick_def override_Get_def)
  qed
qed

lemma beyond_keys: "beyond (balancer_succs h m) t \<subseteq> fst ` set m"
proof
  fix w assume "w \<in> beyond (balancer_succs h m) t"
  then obtain y where "(y, w) \<in> succs (balancer_succs h m)" unfolding beyond_def by (auto elim: tranclE)
  then show "w \<in> fst ` set m" by (auto simp: succs_def balancer_succs_iff dest: map_of_Some_key)
qed

lemma finite_beyond: "finite (beyond (balancer_succs h m) t)"
  by (rule finite_subset [OF beyond_keys]) simp

lemma resolve_levels_bound:
  assumes acyclic: "\<And>x. \<not> on_cycle (balancer_succs h m) x"
    and "map_of m t = Some b" "card (beyond (balancer_succs h m) t) < k" "same_shape h h1"
  shows "\<exists>r h2. resolve_levels k w m b h1 = (Some r, h2) \<and> r \<noteq> Inl ErrRouteDropped"
  using assms(2-)
proof (induction k arbitrary: t b h1)
  case (Suc k)
  obtain r b' where p: "pick (w k) b (h1 b) = (r, b')" by fastforce
  show ?case
  proof (cases "\<exists>tag fb b2. r = Inr (tag, fb) \<and> (fb \<or> tag \<in> set (members (h1 b))) \<and> map_of m tag = Some b2")
    case True
    then obtain tag fb b2 where t: "r = Inr (tag, fb)" "fb \<or> tag \<in> set (members (h1 b))" "map_of m tag = Some b2" by blast
    have "tag = fallbackTag (h b) \<or> tag \<in> set (members (h b))"
      using p t(2) unfolding t(1) by (cases rule: pick_cases) (auto simp: same_shape_fields [OF Suc.prems(3)])
    then have "tag \<in> set (balancer_succs h m t)" using t(3) Suc.prems(1) by (auto simp: balancer_succs_iff)
    then have "card (beyond (balancer_succs h m) tag) < card (beyond (balancer_succs h m) t)"
      by (rule beyond_edge [OF acyclic _ finite_beyond])
    then have "card (beyond (balancer_succs h m) tag) < k" using Suc.prems(2) by simp
    moreover have "same_shape h (h1(b := b'))"
      using same_shape_trans [OF Suc.prems(3) pick_same_shape [of h1 b "w k"]] p by simp
    moreover have "resolve_levels (Suc k) w m b h1 = resolve_levels k w m b2 (h1(b := b'))"
      using p t by (auto simp: Let_def)
    ultimately show ?thesis using Suc.IH [OF t(3)] by simp
  next
    case False
    have "r \<noteq> Inl ErrRouteDropped" using p by (cases rule: pick_cases) auto
    then show ?thesis
    proof (cases r)
      case (Inr x)
      then obtain tag fb where "r = Inr (tag, fb)" by (cases x) simp
      then show ?thesis using False p by (cases "map_of m tag") (auto simp: Let_def)
    qed (simp add: p)
  qed
qed simp

lemma resolveChain_bound:
  assumes "graph_ok h m"
  shows "\<exists>r h'. resolveChain w m first h g = (r, h', g) \<and> r \<noteq> Inl ErrRouteDropped"
proof -
  have acyclic: "\<And>x. \<not> on_cycle (balancer_succs h m) x"
    using assms unfolding graph_ok_def acyclic_on_cycle by blast
  obtain r b' where p: "pick (w (length m)) first (h first) = (r, b')" by fastforce
  have "\<exists>r' h2. resolve_levels (length m + 1) w m first h = (Some r', h2) \<and> r' \<noteq> Inl ErrRouteDropped"
  proof (cases "\<exists>tag fb b2. r = Inr (tag, fb) \<and> (fb \<or> tag \<in> set (members (h first))) \<and> map_of m tag = Some b2")
    case True
    then obtain tag fb b2 where t: "r = Inr (tag, fb)" "fb \<or> tag \<in> set (members (h first))" "map_of m tag = Some b2" by blast
    have "tag \<notin> beyond (balancer_succs h m) tag" using acyclic by (simp add: beyond_def on_cycle_succs)
    then have "beyond (balancer_succs h m) tag \<subset> set (map fst m)"
      using beyond_keys [of h m tag] map_of_Some_key [OF t(3)] by auto
    then have "card (beyond (balancer_succs h m) tag) < card (set (map fst m))"
      by (rule psubset_card_mono [OF finite_set])
    then have "card (beyond (balancer_succs h m) tag) < length m"
      using card_length [of "map fst m"] unfolding length_map by (rule less_le_trans)
    moreover have "same_shape h (h(first := b'))" using pick_same_shape [of h first "w (length m)"] p by simp
    moreover have "resolve_levels (Suc (length m)) w m first h = resolve_levels (length m) w m b2 (h(first := b'))"
      using p t by (auto simp: Let_def)
    ultimately show ?thesis using resolve_levels_bound [OF acyclic t(3)] by simp
  next
    case False
    have "r \<noteq> Inl ErrRouteDropped" using p by (cases rule: pick_cases) auto
    then show ?thesis
    proof (cases r)
      case (Inr x)
      then obtain tag fb where "r = Inr (tag, fb)" by (cases x) simp
      then show ?thesis using False p by (cases "map_of m tag") (auto simp: Let_def)
    qed (simp add: p)
  qed
  then show ?thesis by (auto simp: resolveChain_def)
qed

text \<open>
  C8: on a balancer map that passed the check, resolving a chain never exceeds its bound, whatever
  the strategies, the observations, the overrides and the outbounds are at each level: the
  connection is never dropped by the guard and the guard's counter stays.
\<close>

theorem resolveChain_never_dropped:
  assumes "checkBalancerGraph h m = Some None"
  shows "\<exists>r h'. resolveChain w m first h g = (r, h', g) \<and> r \<noteq> Inl ErrRouteDropped"
  using assms resolveChain_bound checkBalancerGraph_ok [of h m] by simp

text \<open>Two balancers, the first falling back to the second.\<close>

definition sample_heap :: heap where
  "sample_heap r =
     (if r = 0 then \<lparr>bal_tag = ''x'', selectors = [''out''], strategy = LeastPing, fallbackTag = ''y'', members = [],
                     override_target = ''''\<rparr>
      else \<lparr>bal_tag = ''y'', selectors = [], strategy = RoundRobin 0, fallbackTag = ''direct'', members = [],
            override_target = ''''\<rparr>)"

definition sample_map :: balancer_map where
  "sample_map = [(''y'', 1), (''x'', 0)]"

definition sample_env :: env where
  "sample_env = \<lparr>Select = Some (\<lambda>_. [''out1'']), Observation = (\<lambda>_. NoObservatory), drawn = 0,
     weighted_pick = (\<lambda>_ _. ''''), weighted_active = (\<lambda>_ _. True), weighted_targets = (\<lambda>_ _. [])\<rparr>"

lemma sample_accepted: "checkBalancerGraph sample_heap sample_map = Some None"
proof -
  have "succs (balancer_succs sample_heap sample_map) \<subseteq> {(''x'', ''y'')}"
    by (auto simp: succs_def balancer_succs_iff sample_map_def sample_heap_def split: if_splits)
  moreover have "acyclic {(''x'', ''y'')}" by (simp add: acyclic_insert) (simp add: acyclic_def)
  ultimately have "acyclic (succs (balancer_succs sample_heap sample_map))" by (rule acyclic_subset [rotated])
  then have "graph_ok sample_heap sample_map"
    unfolding graph_ok_def by (intro conjI) (auto simp: members_ok_def sample_map_def sample_heap_def split: if_splits)
  then show ?thesis using checkBalancerGraph_ok by auto
qed

theorem resolveChain_never_dropped_witness:
  "checkBalancerGraph sample_heap sample_map = Some None
    \<and> (\<exists>r h'. resolveChain (\<lambda>_. sample_env) sample_map 0 sample_heap 5 = (r, h', 5) \<and> r \<noteq> Inl ErrRouteDropped)
    \<and> fst (resolveChain (\<lambda>_. sample_env) sample_map 0 sample_heap 5) = Inr ''direct''"
proof -
  have "fst (resolveChain (\<lambda>_. sample_env) sample_map 0 sample_heap 5) = Inr ''direct''"
    by (simp add: resolveChain_def sample_map_def sample_env_def sample_heap_def pick_def SelectOutbounds_def
        override_Get_def PickOutbound_def LeastPing_PickOutbound_def RoundRobin_PickOutbound_def aliveCandidates_def)
  then show ?thesis using resolveChain_never_dropped [OF sample_accepted] sample_accepted by blast
qed

section \<open>The reported state is the one picks see\<close>

lemma FallbackActive_iff:
  assumes "s \<noteq> WeightedLeastPing" "'''' \<notin> set cs"
  shows "FallbackActive e r s cs \<longleftrightarrow> fst (PickOutbound e r s cs) = ''''"
proof (cases s)
  case (RoundRobin index)
  then show ?thesis
    using round_robin.active_iff [OF assms(2), of "Observation e r" index]
    by (simp add: FallbackActive_def PickOutbound_def case_prod_unfold Let_def)
next
  case Random
  then show ?thesis
    using random.active_iff [OF assms(2)] by (simp add: FallbackActive_def PickOutbound_def)
next
  case LeastPing
  then show ?thesis
    using least_ping.active_iff [OF assms(2)] by (simp add: FallbackActive_def PickOutbound_def)
next
  case (LeastLoadStrategy l)
  then show ?thesis
    using least_load.active_iff [OF assms(2)] by (simp add: FallbackActive_def PickOutbound_def)
qed (use assms in simp)



section \<open>The reported chain is complete\<close>

text \<open>
  A chain of hops that starts at \<open>t\<close> and follows the fallback tags: it ends at a tag that is no
  balancer, or at a balancer without a fallback.
\<close>

fun complete_chain :: "heap \<Rightarrow> balancer_map \<Rightarrow> string \<Rightarrow> FallbackHop list \<Rightarrow> bool" where
  "complete_chain h v t [] \<longleftrightarrow> t = ''''"
| "complete_chain h v t (x # xs) \<longleftrightarrow> t \<noteq> '''' \<and> hop_Tag x = t \<and>
     (case map_of v t of
        None \<Rightarrow> \<not> hop_Balancer x \<and> xs = []
      | Some b \<Rightarrow> hop_Balancer x \<and> complete_chain h v (fallbackTag (h b)) xs)"

lemma hops_loop_complete:
  assumes acyclic: "\<And>x. \<not> on_cycle (balancer_succs h m) x"
    and "map_of m t \<noteq> None \<Longrightarrow> card (beyond (balancer_succs h m) t) + 1 < k" "0 < k"
  shows "complete_chain h m t (hops_loop k e h m t)"
  using assms(2-)
proof (induction k arbitrary: t)
  case (Suc k)
  show ?case
  proof (cases "t = '''' \<or> map_of m t = None")
    case True
    then show ?thesis by auto
  next
    case False
    then obtain b where t: "t \<noteq> ''''" "map_of m t = Some b" by auto
    let ?f = "fallbackTag (h b)"
    have k: "card (beyond (balancer_succs h m) t) < k" using Suc.prems(1) t(2) by simp
    have "card (beyond (balancer_succs h m) ?f) + 1 < k" if "map_of m ?f \<noteq> None"
    proof -
      have "?f \<in> set (balancer_succs h m t)" using that t(2) by (auto simp: balancer_succs_iff)
      then have "card (beyond (balancer_succs h m) ?f) < card (beyond (balancer_succs h m) t)"
        by (rule beyond_edge [OF acyclic _ finite_beyond])
      then show ?thesis using k by simp
    qed
    then have "complete_chain h m ?f (hops_loop k e h m ?f)" using Suc.IH k by simp
    then show ?thesis using t by (simp add: case_prod_unfold Let_def)
  qed
qed simp

text \<open>
  C21: on a map that passed the check, the fallback chain reported for a balancer is the whole
  chain of its fallback tags up to an outbound or a balancer without a fallback; the bound of the
  loop never cuts it short.
\<close>

theorem GetFallbackChain_complete:
  assumes "checkBalancerGraph h m = Some None" "map_of m tag = Some b"
  shows "\<exists>chain. GetFallbackChain e h m tag = Inr chain \<and> complete_chain h m (fallbackTag (h b)) chain"
proof -
  let ?f = "fallbackTag (h b)"
  have acyclic: "\<And>x. \<not> on_cycle (balancer_succs h m) x"
    using assms(1) checkBalancerGraph_ok [of h m] by (auto simp: graph_ok_def acyclic_on_cycle)
  have "card (beyond (balancer_succs h m) ?f) + 1 < length m + 1" if "map_of m ?f \<noteq> None"
  proof -
    have "?f \<in> set (balancer_succs h m tag)" using that assms(2) by (auto simp: balancer_succs_iff)
    then have "card (beyond (balancer_succs h m) ?f) < card (beyond (balancer_succs h m) tag)"
      by (rule beyond_edge [OF acyclic _ finite_beyond])
    also have "\<dots> \<le> card (set (map fst m))" using card_mono [OF _ beyond_keys] by simp
    also have "\<dots> \<le> length m" using card_length [of "map fst m"] by simp
    finally show ?thesis by simp
  qed
  then have "complete_chain h m ?f (hops_loop (length m + 1) e h m ?f)"
    by (intro hops_loop_complete [OF acyclic]) simp_all
  then show ?thesis using assms(2) by (simp add: GetFallbackChain_def view_get_def)
qed

theorem GetFallbackChain_complete_witness:
  "checkBalancerGraph sample_heap sample_map = Some None
    \<and> (\<exists>chain. GetFallbackChain sample_env sample_heap sample_map ''x'' = Inr chain
         \<and> complete_chain sample_heap sample_map ''y'' chain)"
  using GetFallbackChain_complete [OF sample_accepted, of "''x''" 0 sample_env] sample_accepted
  by (simp add: sample_map_def) (simp add: sample_heap_def)

end
