(* ===== verification/Router_Rules.thy ===== *)
theory Router_Rules
  imports Net_Address
begin

text \<open>
  The conditions of routing rules: \<open>app/router/condition.go\<close> and \<open>BuildCondition\<close> of
  \<open>app/router/config.go\<close>.  Regular expressions, the geographic domain and IP matchers, the
  lookup of the process that owns a socket and Unicode case mapping are functions of a platform
  record.  A Go map is an association list in the order in which the loop at hand visits it.
\<close>

section \<open>The platform and the routing context\<close>

record rctx =
  InboundTag :: string
  SourceIPs :: "byte list list"
  SourcePort :: u16
  TargetIPs :: "byte list list"
  TargetPort :: u16
  LocalIPs :: "byte list list"
  LocalPort :: u16
  TargetDomain :: string
  ctx_Network :: Network
  Protocol :: string
  User :: string
  VlessRoute :: u16
  Attributes :: "(string \<times> string) list option"
  SkipDNSResolve :: bool
  original_TargetIPs :: "byte list list option"

text \<open>
  \<open>original_TargetIPs\<close> is \<open>Some\<close> on a \<open>ResolvableContext\<close>: the addresses of the context it wraps.
  The rules on domains and addresses are of types \<open>'d\<close> and \<open>'i\<close>.
\<close>

record ('d, 'i) platform =
  regexp_Compile :: "string \<Rightarrow> (string \<Rightarrow> bool) option"
  BuildDomainMatcher :: "'d list \<Rightarrow> (string \<Rightarrow> bool) res"
  BuildIPMatcher :: "'i list \<Rightarrow> (byte list list \<Rightarrow> bool) res"
  FindProcess :: "string \<Rightarrow> string \<Rightarrow> u16 \<Rightarrow> string \<Rightarrow> u16 \<Rightarrow> (nat \<times> string \<times> string) res"
  Getpid :: nat
  Executable :: "string res"
  ToSlash :: "string \<Rightarrow> string"
  GOOS :: string
  unicode_ToLower :: "string \<Rightarrow> string"
  unicode_EqualFold :: "string \<Rightarrow> string \<Rightarrow> bool"

definition ascii_lower :: "char \<Rightarrow> char" where
  "ascii_lower c = (if 65 \<le> (of_char c :: nat) \<and> (of_char c :: nat) \<le> 90 then char_of ((of_char c :: nat) + 32) else c)"

definition is_ascii :: "string \<Rightarrow> bool" where
  "is_ascii s \<longleftrightarrow> (\<forall>c \<in> set s. (of_char c :: nat) < 128)"

definition ToLower :: "('d, 'i) platform \<Rightarrow> string \<Rightarrow> string" where
  "ToLower P s = (if is_ascii s then map ascii_lower s else unicode_ToLower P s)"

definition EqualFold :: "('d, 'i) platform \<Rightarrow> string \<Rightarrow> string \<Rightarrow> bool" where
  "EqualFold P s t = (if is_ascii s \<and> is_ascii t then map ascii_lower s = map ascii_lower t else unicode_EqualFold P s t)"

section \<open>The matchers\<close>

datatype MatcherAsType = AsLocal | AsSource | AsTarget | AsVlessRoute

record UserMatcher =
  um_user :: "string list"
  um_emailDomain :: "string list"
  um_pattern :: "(string \<Rightarrow> bool) list"

record ProcessNameMatcher =
  ProcessNames :: "string list"
  AbsPaths :: "string list"
  Folders :: "string list"
  MatchXraySelf :: bool

datatype Condition =
    DomainMatcher "string \<Rightarrow> bool"
  | IPMatcher "byte list list \<Rightarrow> bool" MatcherAsType
  | PortMatcher MemoryPortList MatcherAsType
  | NetworkMatcher "Network list"
  | UserCondition UserMatcher
  | InboundTagMatcher "string list"
  | ProtocolMatcher "string list"
  | AttributeMatcher "(string \<times> (string \<Rightarrow> bool)) list"
  | ProcessCondition ProcessNameMatcher
  | LocalOSMatcher bool

definition NewDomainMatcher :: "('d, 'i) platform \<Rightarrow> 'd list \<Rightarrow> Condition res" where
  "NewDomainMatcher P rules = map_sum id DomainMatcher (BuildDomainMatcher P rules)"

definition NewIPMatcher :: "('d, 'i) platform \<Rightarrow> 'i list \<Rightarrow> MatcherAsType \<Rightarrow> Condition res" where
  "NewIPMatcher P rules asType = map_sum id (\<lambda>m. IPMatcher m asType) (BuildIPMatcher P rules)"

definition NewPortMatcher :: "PortRange list \<Rightarrow> MatcherAsType \<Rightarrow> Condition" where
  "NewPortMatcher l asType = PortMatcher (PortListFromProto l) asType"

definition NewNetworkMatcher :: "Network list \<Rightarrow> Condition" where
  "NewNetworkMatcher network = NetworkMatcher network"

fun user_loop :: "('d, 'i) platform \<Rightarrow> string list \<Rightarrow> UserMatcher \<Rightarrow> UserMatcher" where
  "user_loop P [] m = m"
| "user_loop P (user # users) m =
     (if length user > 0 then
        if length user > 7 \<and> has_prefix user ''regexp:'' then
          (case regexp_Compile P (drop 7 user) of
             Some re \<Rightarrow> user_loop P users (m\<lparr>um_pattern := um_pattern m @ [re]\<rparr>)
           | None \<Rightarrow> user_loop P users m)
        else if has_prefix user ''domain:'' then
          (let emailDomain = ToLower P (drop 7 user)
           in if emailDomain \<noteq> '''' then user_loop P users (m\<lparr>um_emailDomain := emailDomain # um_emailDomain m\<rparr>)
              else user_loop P users m)
        else user_loop P users (m\<lparr>um_user := user # um_user m\<rparr>)
      else user_loop P users m)"

definition NewUserMatcher :: "('d, 'i) platform \<Rightarrow> string list \<Rightarrow> Condition" where
  "NewUserMatcher P users = UserCondition (user_loop P users \<lparr>um_user = [], um_emailDomain = [], um_pattern = []\<rparr>)"

definition NewInboundTagMatcher :: "string list \<Rightarrow> Condition" where
  "NewInboundTagMatcher tags = InboundTagMatcher (filter (\<lambda>tag. length tag > 0) tags)"

definition NewProtocolMatcher :: "string list \<Rightarrow> Condition" where
  "NewProtocolMatcher protocols = ProtocolMatcher (filter (\<lambda>p. length p > 0) protocols)"

fun process_loop :: "('d, 'i) platform \<Rightarrow> string list \<Rightarrow> ProcessNameMatcher \<Rightarrow> ProcessNameMatcher" where
  "process_loop P [] m = m"
| "process_loop P (name # names) m =
     (if name = ''self/'' then process_loop P names (m\<lparr>MatchXraySelf := True\<rparr>)
      else
        (case (if name = ''xray/'' then Executable P else Inr name) of
           Inl err \<Rightarrow> process_loop P names m
         | Inr name' \<Rightarrow>
             (let nm = ToSlash P name'
              in if has_suffix nm ''/'' then process_loop P names (m\<lparr>Folders := Folders m @ [nm]\<rparr>)
                 else if contains_sub nm ''/'' then process_loop P names (m\<lparr>AbsPaths := AbsPaths m @ [nm]\<rparr>)
                 else process_loop P names
                        (m\<lparr>ProcessNames := ProcessNames m
                             @ [if has_suffix nm ''.exe'' then take (length nm - 4) nm else nm]\<rparr>))))"

definition NewProcessNameMatcher :: "('d, 'i) platform \<Rightarrow> string list \<Rightarrow> Condition" where
  "NewProcessNameMatcher P names =
     ProcessCondition (process_loop P names \<lparr>ProcessNames = [], AbsPaths = [], Folders = [], MatchXraySelf = False\<rparr>)"

definition NewLocalOSMatcher :: "('d, 'i) platform \<Rightarrow> string list \<Rightarrow> Condition" where
  "NewLocalOSMatcher P names = LocalOSMatcher (list_ex (\<lambda>name. EqualFold P name (GOOS P)) names)"

section \<open>Applying a condition\<close>

definition IP_Apply :: "(byte list list \<Rightarrow> bool) \<Rightarrow> MatcherAsType \<Rightarrow> rctx \<Rightarrow> bool res" where
  "IP_Apply m asType ctx =
     (case asType of
        AsLocal \<Rightarrow> Inr (m (LocalIPs ctx))
      | AsSource \<Rightarrow> Inr (m (SourceIPs ctx))
      | AsTarget \<Rightarrow> Inr (m (TargetIPs ctx))
      | AsVlessRoute \<Rightarrow> Inl (GoPanic ''unk asType''))"

definition Port_Apply :: "MemoryPortList \<Rightarrow> MatcherAsType \<Rightarrow> rctx \<Rightarrow> bool" where
  "Port_Apply port asType ctx =
     MemoryPortList_Contains port
       (case asType of
          AsLocal \<Rightarrow> LocalPort ctx
        | AsSource \<Rightarrow> SourcePort ctx
        | AsTarget \<Rightarrow> TargetPort ctx
        | AsVlessRoute \<Rightarrow> VlessRoute ctx)"

definition User_Apply :: "('d, 'i) platform \<Rightarrow> UserMatcher \<Rightarrow> rctx \<Rightarrow> bool" where
  "User_Apply P v ctx =
     (let user = User ctx
      in if length user = 0 then False
         else if user \<in> set (um_user v) then True
         else if um_emailDomain v \<noteq> [] \<and>
           (case last_index_byte user CHR ''@'' of
              Some at \<Rightarrow> ToLower P (drop (at + 1) user) \<in> set (um_emailDomain v)
            | None \<Rightarrow> False) then True
         else list_ex (\<lambda>re. re user) (um_pattern v))"

text \<open>The headers are entered in a map by their lower-case key: the last of a key stays.\<close>

definition Attribute_Match :: "('d, 'i) platform \<Rightarrow> (string \<times> (string \<Rightarrow> bool)) list \<Rightarrow> (string \<times> string) list \<Rightarrow> bool" where
  "Attribute_Match P configuredKeys attrs =
     (let httpHeaders = foldl (\<lambda>m (key, value). m(ToLower P key \<mapsto> value)) Map.empty attrs
      in list_all (\<lambda>(key, regex). case httpHeaders key of None \<Rightarrow> False | Some a \<Rightarrow> regex a) configuredKeys)"

definition Process_Apply :: "('d, 'i) platform \<Rightarrow> ProcessNameMatcher \<Rightarrow> rctx \<Rightarrow> bool" where
  "Process_Apply P m ctx =
     (if SourceIPs ctx = [] then False
      else
        let srcIP = ip_string (hd (SourceIPs ctx));
            dst = (case original_TargetIPs ctx of
                     Some ips \<Rightarrow> if ips \<noteq> [] then ips else TargetIPs ctx
                   | None \<Rightarrow> TargetIPs ctx);
            dstIP = (if dst \<noteq> [] then ip_string (hd dst) else '''');
            dstPort = (if dst \<noteq> [] then TargetPort ctx else 0);
            run = (\<lambda>network. case FindProcess P network srcIP (SourcePort ctx) dstIP dstPort of
                     Inl err \<Rightarrow> False
                   | Inr (pid, name, absPath) \<Rightarrow>
                       (MatchXraySelf m \<and> pid = Getpid P) \<or> name \<in> set (ProcessNames m) \<or> absPath \<in> set (AbsPaths m)
                       \<or> list_ex (\<lambda>f. has_prefix absPath f) (Folders m))
        in case ctx_Network ctx of
             Network_TCP \<Rightarrow> run ''tcp''
           | Network_UDP \<Rightarrow> run ''udp''
           | _ \<Rightarrow> False)"

definition Domain_Apply :: "('d, 'i) platform \<Rightarrow> (string \<Rightarrow> bool) \<Rightarrow> rctx \<Rightarrow> bool" where
  "Domain_Apply P m ctx = (if length (TargetDomain ctx) = 0 then False else m (ToLower P (TargetDomain ctx)))"

definition Network_Apply :: "Network list \<Rightarrow> rctx \<Rightarrow> bool" where
  "Network_Apply l ctx \<longleftrightarrow> ctx_Network ctx \<in> set l"

definition InboundTag_Apply :: "string list \<Rightarrow> rctx \<Rightarrow> bool" where
  "InboundTag_Apply tags ctx =
     (if length (InboundTag ctx) = 0 then False else list_ex (\<lambda>t. t = InboundTag ctx) tags)"

definition Protocol_Apply :: "string list \<Rightarrow> rctx \<Rightarrow> bool" where
  "Protocol_Apply protocols ctx =
     (if length (Protocol ctx) = 0 then False else list_ex (\<lambda>p. has_prefix (Protocol ctx) p) protocols)"

definition Attribute_Apply :: "('d, 'i) platform \<Rightarrow> (string \<times> (string \<Rightarrow> bool)) list \<Rightarrow> rctx \<Rightarrow> bool" where
  "Attribute_Apply P keys ctx = (case Attributes ctx of None \<Rightarrow> False | Some attrs \<Rightarrow> Attribute_Match P keys attrs)"

text \<open>The interface \<open>Condition\<close>: a call of \<open>Apply\<close> goes to the matcher at hand.\<close>

fun Condition_Apply :: "('d, 'i) platform \<Rightarrow> Condition \<Rightarrow> rctx \<Rightarrow> bool res" where
  "Condition_Apply P (DomainMatcher m) ctx = Inr (Domain_Apply P m ctx)"
| "Condition_Apply P (IPMatcher m asType) ctx = IP_Apply m asType ctx"
| "Condition_Apply P (PortMatcher port asType) ctx = Inr (Port_Apply port asType ctx)"
| "Condition_Apply P (NetworkMatcher l) ctx = Inr (Network_Apply l ctx)"
| "Condition_Apply P (UserCondition m) ctx = Inr (User_Apply P m ctx)"
| "Condition_Apply P (InboundTagMatcher tags) ctx = Inr (InboundTag_Apply tags ctx)"
| "Condition_Apply P (ProtocolMatcher protocols) ctx = Inr (Protocol_Apply protocols ctx)"
| "Condition_Apply P (AttributeMatcher keys) ctx = Inr (Attribute_Apply P keys ctx)"
| "Condition_Apply P (ProcessCondition m) ctx = Inr (Process_Apply P m ctx)"
| "Condition_Apply P (LocalOSMatcher matched) ctx = Inr matched"

fun ConditionChan_Apply :: "('d, 'i) platform \<Rightarrow> Condition list \<Rightarrow> rctx \<Rightarrow> bool res" where
  "ConditionChan_Apply P [] ctx = Inr True"
| "ConditionChan_Apply P (cond # v) ctx =
     (case Condition_Apply P cond ctx of
        Inl err \<Rightarrow> Inl err
      | Inr matched \<Rightarrow> if \<not> matched then Inr False else ConditionChan_Apply P v ctx)"

section \<open>Building the conditions of a rule\<close>

text \<open>A message field that is not set is \<open>None\<close>; a repeated field that is not set is empty.\<close>

datatype target_tag = Tag string | BalancingTag string | NoTarget

record ('d, 'i) RoutingRule =
  TargetTag :: target_tag
  RuleTag :: string
  rr_Domain :: "'d list"
  rr_Ip :: "'i list"
  rr_PortList :: "PortRange list option"
  rr_Networks :: "Network list"
  rr_SourceIp :: "'i list"
  rr_SourcePortList :: "PortRange list option"
  rr_UserEmail :: "string list"
  rr_InboundTag :: "string list"
  rr_Protocol :: "string list"
  rr_Attributes :: "(string \<times> string) list"
  rr_LocalIp :: "'i list"
  rr_LocalPortList :: "PortRange list option"
  rr_VlessRouteList :: "PortRange list option"
  rr_Process :: "string list"
  rr_LocalOs :: "string list"
  rr_Webhook :: bool

definition when_set :: "bool \<Rightarrow> Condition \<Rightarrow> Condition list" where
  "when_set c cond = (if c then [cond] else [])"

definition port_condition :: "PortRange list option \<Rightarrow> MatcherAsType \<Rightarrow> Condition list" where
  "port_condition l asType = (case l of None \<Rightarrow> [] | Some list \<Rightarrow> [NewPortMatcher list asType])"

text \<open>\<open>regexp.MustCompile\<close> panics on a pattern that does not compile; the last of a key stays.\<close>

fun configured_keys :: "('d, 'i) platform \<Rightarrow> (string \<times> string) list \<Rightarrow> (string \<times> (string \<Rightarrow> bool)) list res" where
  "configured_keys P [] = Inr []"
| "configured_keys P ((key, value) # kvs) =
     (case regexp_Compile P value of
        None \<Rightarrow> Inl (GoPanic ''regexp: Compile'')
      | Some re \<Rightarrow>
          map_sum id
            (\<lambda>ks. if ToLower P key \<in> fst ` set ks then ks else (ToLower P key, re) # ks)
            (configured_keys P kvs))"

definition matcher_unless_empty :: "'a list \<Rightarrow> Condition res \<Rightarrow> Condition list res" where
  "matcher_unless_empty rules c = (if rules = [] then Inr [] else map_sum id (\<lambda>x. [x]) c)"

fun seq_conditions :: "Condition list res list \<Rightarrow> Condition list res" where
  "seq_conditions [] = Inr []"
| "seq_conditions (c # cs) =
     (case c of Inl err \<Rightarrow> Inl err | Inr xs \<Rightarrow> map_sum id ((@) xs) (seq_conditions cs))"

definition rule_conditions :: "('d, 'i) platform \<Rightarrow> ('d, 'i) RoutingRule \<Rightarrow> Condition list res list" where
  "rule_conditions P rr =
     [Inr (when_set (rr_LocalOs rr \<noteq> []) (NewLocalOSMatcher P (rr_LocalOs rr))),
      Inr (when_set (rr_InboundTag rr \<noteq> []) (NewInboundTagMatcher (rr_InboundTag rr))),
      Inr (when_set (rr_Networks rr \<noteq> []) (NewNetworkMatcher (rr_Networks rr))),
      Inr (when_set (rr_Protocol rr \<noteq> []) (NewProtocolMatcher (rr_Protocol rr))),
      Inr (port_condition (rr_PortList rr) AsTarget),
      Inr (port_condition (rr_SourcePortList rr) AsSource),
      Inr (port_condition (rr_LocalPortList rr) AsLocal),
      Inr (port_condition (rr_VlessRouteList rr) AsVlessRoute),
      Inr (when_set (rr_UserEmail rr \<noteq> []) (NewUserMatcher P (rr_UserEmail rr))),
      (if rr_Attributes rr = [] then Inr []
       else map_sum id (\<lambda>ks. [AttributeMatcher ks]) (configured_keys P (rr_Attributes rr))),
      matcher_unless_empty (rr_Ip rr) (NewIPMatcher P (rr_Ip rr) AsTarget),
      matcher_unless_empty (rr_SourceIp rr) (NewIPMatcher P (rr_SourceIp rr) AsSource),
      matcher_unless_empty (rr_LocalIp rr) (NewIPMatcher P (rr_LocalIp rr) AsLocal),
      matcher_unless_empty (rr_Domain rr) (NewDomainMatcher P (rr_Domain rr)),
      Inr (when_set (rr_Process rr \<noteq> []) (NewProcessNameMatcher P (rr_Process rr)))]"

definition BuildCondition :: "('d, 'i) platform \<Rightarrow> ('d, 'i) RoutingRule \<Rightarrow> Condition list res" where
  "BuildCondition P rr =
     (case seq_conditions (rule_conditions P rr) of
        Inl err \<Rightarrow> Inl err
      | Inr conds \<Rightarrow> if length conds = 0 then Inl (Err ''this rule has no effective fields'') else Inr conds)"

section \<open>What a built rule matches\<close>

lemma ConditionChan_Apply_iff:
  "ConditionChan_Apply P v ctx = Inr True \<longleftrightarrow> (\<forall>c \<in> set v. Condition_Apply P c ctx = Inr True)"
  by (induction v) (auto split: sum.splits)

lemma ConditionChan_Apply_total:
  "(\<forall>c \<in> set v. is_ok (Condition_Apply P c ctx)) \<Longrightarrow> is_ok (ConditionChan_Apply P v ctx)"
  by (induction v) (auto split: sum.splits)

lemma seq_conditions_set:
  "seq_conditions cs = Inr xs \<Longrightarrow> c \<in> set xs \<longleftrightarrow> (\<exists>ys. Inr ys \<in> set cs \<and> c \<in> set ys)"
  by (induction cs arbitrary: xs) (auto split: sum.splits simp: map_sum_Inr_iff)

lemma BuildCondition_mem:
  assumes "BuildCondition P rr = Inr conds"
  shows "c \<in> set conds \<longleftrightarrow> (\<exists>ys. Inr ys \<in> set (rule_conditions P rr) \<and> c \<in> set ys)"
  using assms seq_conditions_set [of "rule_conditions P rr"] by (auto simp: BuildCondition_def split: sum.splits if_splits)

lemma Inr_map_sum_iff: "Inr y = map_sum f g r \<longleftrightarrow> (\<exists>x. r = Inr x \<and> y = g x)"
  by (cases r) auto

lemma when_set_set [simp]: "set (when_set b c) = (if b then {c} else {})"
  by (simp add: when_set_def)

lemma port_condition_set [simp]: "c \<in> set (port_condition l t) \<longleftrightarrow> (\<exists>x. l = Some x \<and> c = NewPortMatcher x t)"
  by (auto simp: port_condition_def split: option.split)

lemma matcher_unless_empty_set [simp]:
  "Inr ys = matcher_unless_empty rules r \<longleftrightarrow> rules = [] \<and> ys = [] \<or> rules \<noteq> [] \<and> (\<exists>x. r = Inr x \<and> ys = [x])"
  by (cases r) (auto simp: matcher_unless_empty_def)

text \<open>The kinds of a matcher: only the port matchers are built for the VLESS route.\<close>

lemma built_not_vless:
  assumes "BuildCondition P rr = Inr conds" "c \<in> set conds"
  shows "is_ok (Condition_Apply P c ctx)"
proof (rule ccontr)
  assume "\<not> is_ok (Condition_Apply P c ctx)"
  then obtain m where c: "c = IPMatcher m AsVlessRoute"
    by (cases c) (auto simp: IP_Apply_def split: MatcherAsType.splits)
  obtain ys where "Inr ys \<in> set (rule_conditions P rr)" "c \<in> set ys"
    using assms BuildCondition_mem by blast
  then show False
    unfolding c rule_conditions_def
    by (auto simp: NewLocalOSMatcher_def NewInboundTagMatcher_def NewNetworkMatcher_def NewProtocolMatcher_def
        NewPortMatcher_def NewUserMatcher_def NewIPMatcher_def NewDomainMatcher_def NewProcessNameMatcher_def
        map_sum_Inr_iff Inr_map_sum_iff split: if_splits)
qed

definition port_match :: "PortRange list option \<Rightarrow> u16 \<Rightarrow> bool" where
  "port_match l p \<longleftrightarrow> (case l of None \<Rightarrow> True | Some rs \<Rightarrow> \<exists>r \<in> set rs. ucast (From r) \<le> p \<and> p \<le> ucast (To r))"

definition inbound_match :: "string list \<Rightarrow> string \<Rightarrow> bool" where
  "inbound_match tags tag \<longleftrightarrow> tags = [] \<or> tag \<noteq> '''' \<and> tag \<in> set tags"

definition basic_match :: "('d, 'i) RoutingRule \<Rightarrow> rctx \<Rightarrow> bool" where
  "basic_match rr ctx \<longleftrightarrow>
     inbound_match (rr_InboundTag rr) (InboundTag ctx)
     \<and> (rr_Networks rr = [] \<or> ctx_Network ctx \<in> set (rr_Networks rr))
     \<and> (rr_Protocol rr = [] \<or> (\<exists>p \<in> set (rr_Protocol rr). p \<noteq> '''' \<and> has_prefix (Protocol ctx) p))
     \<and> port_match (rr_PortList rr) (TargetPort ctx) \<and> port_match (rr_SourcePortList rr) (SourcePort ctx)
     \<and> port_match (rr_LocalPortList rr) (LocalPort ctx) \<and> port_match (rr_VlessRouteList rr) (VlessRoute ctx)"

definition only_basic :: "('d, 'i) RoutingRule \<Rightarrow> bool" where
  "only_basic rr \<longleftrightarrow> rr_LocalOs rr = [] \<and> rr_UserEmail rr = [] \<and> rr_Attributes rr = [] \<and> rr_Ip rr = []
     \<and> rr_SourceIp rr = [] \<and> rr_LocalIp rr = [] \<and> rr_Domain rr = [] \<and> rr_Process rr = []"

lemma inbound_apply:
  "tags \<noteq> [] \<Longrightarrow> Condition_Apply P (NewInboundTagMatcher tags) ctx = Inr (inbound_match tags (InboundTag ctx))"
  by (auto simp: NewInboundTagMatcher_def inbound_match_def InboundTag_Apply_def list_ex_iff)

lemma protocol_apply:
  "Condition_Apply P (NewProtocolMatcher ps) ctx = Inr (\<exists>p \<in> set ps. p \<noteq> '''' \<and> has_prefix (Protocol ctx) p)"
  by (auto simp: NewProtocolMatcher_def Protocol_Apply_def list_ex_iff has_prefix_iff)

lemma network_apply: "Condition_Apply P (NewNetworkMatcher ns) ctx = Inr (ctx_Network ctx \<in> set ns)"
  by (simp add: NewNetworkMatcher_def Network_Apply_def)

lemma port_apply:
  "Condition_Apply P (NewPortMatcher l AsTarget) ctx = Inr (port_match (Some l) (TargetPort ctx))"
  "Condition_Apply P (NewPortMatcher l AsSource) ctx = Inr (port_match (Some l) (SourcePort ctx))"
  "Condition_Apply P (NewPortMatcher l AsLocal) ctx = Inr (port_match (Some l) (LocalPort ctx))"
  "Condition_Apply P (NewPortMatcher l AsVlessRoute) ctx = Inr (port_match (Some l) (VlessRoute ctx))"
  by (simp_all add: NewPortMatcher_def Port_Apply_def MemoryPortList_Contains_iff PortListFromProto_def port_match_def)

lemmas basic_apply = inbound_apply protocol_apply network_apply port_apply

lemma rule_conditions_mem:
  "Inr (when_set (rr_InboundTag rr \<noteq> []) (NewInboundTagMatcher (rr_InboundTag rr))) \<in> set (rule_conditions P rr)"
  "Inr (when_set (rr_Networks rr \<noteq> []) (NewNetworkMatcher (rr_Networks rr))) \<in> set (rule_conditions P rr)"
  "Inr (when_set (rr_Protocol rr \<noteq> []) (NewProtocolMatcher (rr_Protocol rr))) \<in> set (rule_conditions P rr)"
  "Inr (port_condition (rr_PortList rr) AsTarget) \<in> set (rule_conditions P rr)"
  "Inr (port_condition (rr_SourcePortList rr) AsSource) \<in> set (rule_conditions P rr)"
  "Inr (port_condition (rr_LocalPortList rr) AsLocal) \<in> set (rule_conditions P rr)"
  "Inr (port_condition (rr_VlessRouteList rr) AsVlessRoute) \<in> set (rule_conditions P rr)"
  unfolding rule_conditions_def list.set insert_iff by blast+

lemma BuildCondition_fields:
  assumes "BuildCondition P rr = Inr conds"
  shows "rr_InboundTag rr \<noteq> [] \<Longrightarrow> NewInboundTagMatcher (rr_InboundTag rr) \<in> set conds"
    "rr_Networks rr \<noteq> [] \<Longrightarrow> NewNetworkMatcher (rr_Networks rr) \<in> set conds"
    "rr_Protocol rr \<noteq> [] \<Longrightarrow> NewProtocolMatcher (rr_Protocol rr) \<in> set conds"
    "rr_PortList rr = Some l \<Longrightarrow> NewPortMatcher l AsTarget \<in> set conds"
    "rr_SourcePortList rr = Some l \<Longrightarrow> NewPortMatcher l AsSource \<in> set conds"
    "rr_LocalPortList rr = Some l \<Longrightarrow> NewPortMatcher l AsLocal \<in> set conds"
    "rr_VlessRouteList rr = Some l \<Longrightarrow> NewPortMatcher l AsVlessRoute \<in> set conds"
  unfolding BuildCondition_mem [OF assms]
  by (rule exI, rule conjI, rule rule_conditions_mem, simp)+

lemma built_basic:
  assumes "BuildCondition P rr = Inr conds" "only_basic rr" "basic_match rr ctx" "c \<in> set conds"
  shows "Condition_Apply P c ctx = Inr True"
proof -
  obtain ys where "Inr ys \<in> set (rule_conditions P rr)" "c \<in> set ys"
    using assms(1,4) BuildCondition_mem by blast
  then show ?thesis
    using assms(2,3) unfolding rule_conditions_def
    by (auto simp: only_basic_def basic_match_def basic_apply split: if_splits)
qed


definition sample_rule :: "(nat, nat) RoutingRule" where
  "sample_rule =
     \<lparr>TargetTag = Tag ''out'', RuleTag = ''r'', rr_Domain = [], rr_Ip = [],
      rr_PortList = Some [\<lparr>From = 80, To = 90\<rparr>], rr_Networks = [], rr_SourceIp = [], rr_SourcePortList = None,
      rr_UserEmail = [], rr_InboundTag = [''in''], rr_Protocol = [], rr_Attributes = [], rr_LocalIp = [],
      rr_LocalPortList = None, rr_VlessRouteList = None, rr_Process = [], rr_LocalOs = [], rr_Webhook = False\<rparr>"

definition sample_platform :: "(nat, nat) platform" where
  "sample_platform =
     \<lparr>regexp_Compile = (\<lambda>p. Some (\<lambda>s. s = p)), BuildDomainMatcher = (\<lambda>_. Inr (\<lambda>_. False)),
      BuildIPMatcher = (\<lambda>_. Inr (\<lambda>_. False)), FindProcess = (\<lambda>_ _ _ _ _. Inl (Err ''process is not local'')), Getpid = 1,
      Executable = Inr ''/xray'', ToSlash = id, GOOS = ''linux'', unicode_ToLower = id, unicode_EqualFold = (=)\<rparr>"

definition sample_ctx :: "string \<Rightarrow> u16 \<Rightarrow> rctx" where
  "sample_ctx tag port =
     \<lparr>InboundTag = tag, SourceIPs = [], SourcePort = 0, TargetIPs = [], TargetPort = port, LocalIPs = [],
      LocalPort = 0, TargetDomain = '''', ctx_Network = Network_TCP, Protocol = '''', User = '''', VlessRoute = 0,
      Attributes = None, SkipDNSResolve = False, original_TargetIPs = None\<rparr>"

lemma sample_rule_built:
  "BuildCondition sample_platform sample_rule =
     Inr [InboundTagMatcher [''in''], PortMatcher [\<lparr>mFrom = 80, mTo = 90\<rparr>] AsTarget]"
  by (simp add: BuildCondition_def rule_conditions_def sample_rule_def when_set_def port_condition_def
      matcher_unless_empty_def NewInboundTagMatcher_def NewPortMatcher_def PortListFromProto_def)


section \<open>Attributes whose keys differ in case\<close>


end
