(* ===== verification/Loop_Check.thy ===== *)
theory Loop_Check
  imports Graph_Cycle Go_Net
begin

text \<open>
  \<open>common/loopcheck\<close>: the cycles of a graph in which each vertex has at most one edge.  The Go map
  \<open>next\<close> is an association list with one entry per key.  The walk from a vertex runs on fuel,
  \<open>None\<close> when it runs out, which is shown not to happen.
\<close>

datatype visit_state = Unvisited | Walking | Done

definition index_of :: "'a list \<Rightarrow> 'a \<Rightarrow> nat" where
  "index_of xs v = length (takeWhile (\<lambda>x. x \<noteq> v) xs)"

definition rotate_min :: "string list \<Rightarrow> string list" where
  "rotate_min cycle = (let first = index_of cycle (Min (set cycle)) in drop first cycle @ take first cycle)"

definition Format :: "string list \<Rightarrow> string" where
  "Format cycle = (let vertices = rotate_min cycle in join_sep '' -> '' (vertices @ [vertices ! 0]))"

fun walk_from :: "nat \<Rightarrow> (string \<times> string) list \<Rightarrow> string \<Rightarrow> (string \<Rightarrow> visit_state) \<Rightarrow> string list
    \<Rightarrow> (string option \<times> string list) option" where
  "walk_from fuel nexts v state walked =
     (if state v = Done then Some (None, walked)
      else if state v = Walking then Some (Some (Format (drop (index_of walked v) walked)), walked)
      else case fuel of
        0 \<Rightarrow> None
      | Suc k \<Rightarrow>
          (case map_of nexts v of
             None \<Rightarrow> Some (None, walked @ [v])
           | Some w \<Rightarrow> walk_from k nexts w (state(v := Walking)) (walked @ [v])))"

declare walk_from.simps [simp del]

definition mark_done :: "string list \<Rightarrow> (string \<Rightarrow> visit_state) \<Rightarrow> string \<Rightarrow> visit_state" where
  "mark_done walked state = (\<lambda>v. if v \<in> set walked then Done else state v)"

fun functional_loop :: "(string \<times> string) list \<Rightarrow> string list \<Rightarrow> (string \<Rightarrow> visit_state) \<Rightarrow> string list \<Rightarrow> string list option" where
  "functional_loop nexts [] state cycles = Some cycles"
| "functional_loop nexts (start # starts) state cycles =
     (case walk_from (length nexts + 1) nexts start state [] of
        None \<Rightarrow> None
      | Some (c, walked) \<Rightarrow>
          functional_loop nexts starts (mark_done walked state)
            (cycles @ (case c of None \<Rightarrow> [] | Some x \<Rightarrow> [x])))"

definition Functional :: "(string \<times> string) list \<Rightarrow> string list option" where
  "Functional nexts = map_option sort (functional_loop nexts (sort (map fst nexts)) (\<lambda>_. Unvisited) [])"

section \<open>Correctness\<close>

definition next_edges :: "(string \<times> string) list \<Rightarrow> string \<Rightarrow> string list" where
  "next_edges nexts v = (case map_of nexts v of None \<Rightarrow> [] | Some w \<Rightarrow> [w])"

lemma next_edges_iff: "w \<in> set (next_edges nexts v) \<longleftrightarrow> map_of nexts v = Some w"
  by (auto simp: next_edges_def split: option.split)

text \<open>
  During a walk: the walked vertices are distinct, each is followed by its edge, none of them is
  done, and the walk stands at the edge of its last vertex.
\<close>

definition walk_inv :: "(string \<times> string) list \<Rightarrow> string set \<Rightarrow> (string \<Rightarrow> visit_state) \<Rightarrow> string list \<Rightarrow> string \<Rightarrow> bool" where
  "walk_inv nexts D state walked v \<longleftrightarrow>
     distinct walked \<and> (\<forall>x. state x = Done \<longleftrightarrow> x \<in> D) \<and> (\<forall>x. state x = Walking \<longleftrightarrow> x \<in> set walked)
     \<and> set walked \<inter> D = {} \<and> set walked \<subseteq> fst ` set nexts
     \<and> (\<forall>i < length walked. map_of nexts (walked ! i) = Some ((walked @ [v]) ! Suc i))"

definition closed_acyclic :: "(string \<times> string) list \<Rightarrow> string set \<Rightarrow> bool" where
  "closed_acyclic nexts D \<longleftrightarrow> (\<forall>v \<in> D. \<forall>w. map_of nexts v = Some w \<longrightarrow> w \<in> D) \<and> (\<forall>v \<in> D. \<not> on_cycle (next_edges nexts) v)"

lemma closed_reach_D:
  "closed_acyclic nexts D \<Longrightarrow> reach (next_edges nexts) v w \<Longrightarrow> v \<in> D \<Longrightarrow> w \<in> D"
  by (erule reach_closed) (auto simp: closed_acyclic_def next_edges_iff)

text \<open>Prepending a vertex whose edge leads into a closed acyclic set keeps it so.\<close>

lemma closed_acyclic_insert:
  assumes "closed_acyclic nexts D" "v \<notin> D" "\<And>w. map_of nexts v = Some w \<Longrightarrow> w \<in> D"
  shows "closed_acyclic nexts (insert v D)"
proof -
  have "\<not> on_cycle (next_edges nexts) v"
    using assms closed_reach_D [OF assms(1)] by (auto simp: on_cycle_def next_edges_iff)
  then show ?thesis using assms by (auto simp: closed_acyclic_def)
qed

lemma closed_acyclic_walk:
  assumes "closed_acyclic nexts D" "distinct walked" "set walked \<inter> D = {}" "last_next = None \<or> the last_next \<in> D"
    "\<And>i. i < length walked \<Longrightarrow> map_of nexts (walked ! i) =
       (if Suc i < length walked then Some (walked ! Suc i) else last_next)"
  shows "closed_acyclic nexts (D \<union> set walked)"
  using assms
proof (induction walked)
  case (Cons v walked)
  have IH: "closed_acyclic nexts (D \<union> set walked)"
  proof (rule Cons.IH [OF Cons.prems(1)])
    show "map_of nexts (walked ! i) = (if Suc i < length walked then Some (walked ! Suc i) else last_next)"
      if "i < length walked" for i
      using Cons.prems(5) [of "Suc i"] that by auto
  qed (use Cons.prems in auto)
  have "closed_acyclic nexts (insert v (D \<union> set walked))"
  proof (rule closed_acyclic_insert [OF IH])
    show "v \<notin> D \<union> set walked" using Cons.prems(2,3) by auto
    show "w \<in> D \<union> set walked" if "map_of nexts v = Some w" for w
      using Cons.prems(4) Cons.prems(5) [of 0] that by (cases walked) auto
  qed
  then show ?case by simp
qed simp

lemma walk_reaches:
  assumes "\<And>i. i < length walked \<Longrightarrow> map_of nexts (walked ! i) = Some ((walked @ [v]) ! Suc i)" "i \<le> j" "j \<le> length walked"
  shows "reach (next_edges nexts) ((walked @ [v]) ! i) ((walked @ [v]) ! j)"
  using assms(2,3)
proof (induction j rule: dec_induct)
  case (step n)
  then have "map_of nexts ((walked @ [v]) ! n) = Some ((walked @ [v]) ! Suc n)"
    using assms(1) [of n] by (simp add: nth_append)
  then show ?case
    using step reach_step [of "next_edges nexts" "(walked @ [v]) ! i" "(walked @ [v]) ! n"] by (simp add: next_edges_iff)
qed simp

lemma walk_closes:
  assumes "\<And>i. i < length walked \<Longrightarrow> map_of nexts (walked ! i) = Some ((walked @ [v]) ! Suc i)" "v \<in> set walked"
  shows "on_cycle (next_edges nexts) v"
proof -
  obtain i where i: "i < length walked" "walked ! i = v" using assms(2) by (auto simp: in_set_conv_nth)
  have "(walked @ [v]) ! Suc i \<in> set (next_edges nexts v)" using assms(1) [OF i(1)] i(2) by (simp add: next_edges_iff)
  moreover have "reach (next_edges nexts) ((walked @ [v]) ! Suc i) v"
    using walk_reaches [OF assms(1), of "Suc i" "length walked"] i(1) by simp
  ultimately show ?thesis by (auto simp: on_cycle_def)
qed

text \<open>
  The result of a walk: it ends at a vertex without an edge or at a done vertex, or it closes a
  cycle.
\<close>

lemma walk_from_ok:
  assumes "walk_inv nexts D state walked v" "card (fst ` set nexts - set walked) < fuel"
  shows "\<exists>c walked'. walk_from fuel nexts v state walked = Some (c, walked')
    \<and> (v \<in> D \<or> v \<in> set walked') \<and> set walked \<subseteq> set walked'
    \<and> (c = None \<longrightarrow> closed_acyclic nexts D \<longrightarrow> closed_acyclic nexts (D \<union> set walked'))
    \<and> (c \<noteq> None \<longrightarrow> (\<exists>x. on_cycle (next_edges nexts) x))"
  using assms
proof (induction fuel arbitrary: state walked v)
  case (Suc fuel)
  have inv: "distinct walked" "\<And>x. state x = Done \<longleftrightarrow> x \<in> D" "\<And>x. state x = Walking \<longleftrightarrow> x \<in> set walked"
    "set walked \<inter> D = {}" "set walked \<subseteq> fst ` set nexts"
    "\<And>i. i < length walked \<Longrightarrow> map_of nexts (walked ! i) = Some ((walked @ [v]) ! Suc i)"
    using Suc.prems(1) by (auto simp: walk_inv_def)
  consider (finished) "v \<in> D" | (cycle) "v \<in> set walked" | (fresh) "v \<notin> D" "v \<notin> set walked" by blast
  then show ?case
  proof cases
    case finished
    have "map_of nexts (walked ! i) = (if Suc i < length walked then Some (walked ! Suc i) else Some v)"
      if "i < length walked" for i
      using inv(6) [OF that] that by (auto simp: nth_append less_Suc_eq)
    then have "closed_acyclic nexts D \<Longrightarrow> closed_acyclic nexts (D \<union> set walked)"
      using closed_acyclic_walk [OF _ inv(1,4), of nexts "Some v"] finished by simp
    then show ?thesis using finished inv(2) by (simp add: walk_from.simps)
  next
    case cycle
    have "v \<notin> D" using cycle inv(4) by blast
    moreover have "\<exists>x. on_cycle (next_edges nexts) x" using walk_closes [OF inv(6) cycle] by blast
    ultimately show ?thesis using cycle inv(2,3) by (simp add: walk_from.simps)
  next
    case fresh
    then have un: "state v = Unvisited" using inv(2,3) by (metis visit_state.exhaust)
    show ?thesis
    proof (cases "map_of nexts v")
      case None
      have "map_of nexts ((walked @ [v]) ! i) =
          (if Suc i < length (walked @ [v]) then Some ((walked @ [v]) ! Suc i) else None)" if "i < length (walked @ [v])" for i
        using inv(6) [of i] that None by (cases "i < length walked") (auto simp: nth_append)
      then have "closed_acyclic nexts D \<Longrightarrow> closed_acyclic nexts (D \<union> set (walked @ [v]))"
        using closed_acyclic_walk [of nexts D "walked @ [v]" None] inv(1,4) fresh by simp
      then show ?thesis using un None by (simp add: walk_from.simps subset_insertI)
    next
      case (Some w)
      have key: "v \<in> fst ` set nexts" using Some by (metis domI dom_map_of_conv_image_fst)
      have "fst ` set nexts - set (walked @ [v]) \<subset> fst ` set nexts - set walked" using key fresh by auto
      then have "card (fst ` set nexts - set (walked @ [v])) < card (fst ` set nexts - set walked)"
        by (rule psubset_card_mono [rotated]) simp
      then have "card (fst ` set nexts - set (walked @ [v])) < fuel" using Suc.prems(2) by simp
      moreover have "walk_inv nexts D (state(v := Walking)) (walked @ [v]) w"
        unfolding walk_inv_def
      proof (intro conjI)
        show "\<forall>i<length (walked @ [v]). map_of nexts ((walked @ [v]) ! i) = Some (((walked @ [v]) @ [w]) ! Suc i)"
          using inv(6) Some by (auto simp: nth_append less_Suc_eq)
        show "\<forall>x. ((state(v := Walking)) x = Done) = (x \<in> D)" using inv(2) fresh(1) by simp
        show "\<forall>x. ((state(v := Walking)) x = Walking) = (x \<in> set (walked @ [v]))" using inv(3) by simp
        show "set (walked @ [v]) \<inter> D = {}" using inv(4) fresh(1) by auto
        show "set (walked @ [v]) \<subseteq> fst ` set nexts" using inv(5) key by simp
        show "distinct (walked @ [v])" using inv(1) fresh(2) by simp
      qed
      ultimately have IH: "\<exists>c walked'. walk_from fuel nexts w (state(v := Walking)) (walked @ [v]) = Some (c, walked')
        \<and> (w \<in> D \<or> w \<in> set walked') \<and> set (walked @ [v]) \<subseteq> set walked'
        \<and> (c = None \<longrightarrow> closed_acyclic nexts D \<longrightarrow> closed_acyclic nexts (D \<union> set walked'))
        \<and> (c \<noteq> None \<longrightarrow> (\<exists>x. on_cycle (next_edges nexts) x))"
        by (intro Suc.IH)
      have "walk_from (Suc fuel) nexts v state walked = walk_from fuel nexts w (state(v := Walking)) (walked @ [v])"
        using un Some by (subst walk_from.simps) simp
      then show ?thesis using IH by (elim exE conjE) (intro exI conjI; simp)
    qed
  qed
qed simp

lemma functional_loop_ok:
  assumes "cycles = [] \<longrightarrow> closed_acyclic nexts D" "cycles \<noteq> [] \<longrightarrow> (\<exists>x. on_cycle (next_edges nexts) x)"
    "\<forall>x. state x = (if x \<in> D then Done else Unvisited)"
  shows "\<exists>cs. functional_loop nexts starts state cycles = Some cs
    \<and> (cs = [] \<longrightarrow> (\<exists>D'. closed_acyclic nexts D' \<and> set starts \<subseteq> D' \<and> D \<subseteq> D'))
    \<and> (cs \<noteq> [] \<longrightarrow> (\<exists>x. on_cycle (next_edges nexts) x))"
  using assms
proof (induction starts arbitrary: D state cycles)
  case Nil
  then show ?case by auto
next
  case (Cons start starts)
  have "walk_inv nexts D state [] start" using Cons.prems(3) by (simp add: walk_inv_def)
  moreover have "card (fst ` set nexts - set []) < length nexts + 1"
    using card_length [of "map fst nexts"] by simp
  ultimately have "\<exists>c walked. walk_from (length nexts + 1) nexts start state [] = Some (c, walked)
      \<and> (start \<in> D \<or> start \<in> set walked) \<and> set [] \<subseteq> set walked
      \<and> (c = None \<longrightarrow> closed_acyclic nexts D \<longrightarrow> closed_acyclic nexts (D \<union> set walked))
      \<and> (c \<noteq> None \<longrightarrow> (\<exists>x. on_cycle (next_edges nexts) x))" by (rule walk_from_ok)
  then obtain c walked where w: "walk_from (length nexts + 1) nexts start state [] = Some (c, walked)"
      "start \<in> D \<or> start \<in> set walked" "c = None \<Longrightarrow> closed_acyclic nexts D \<Longrightarrow> closed_acyclic nexts (D \<union> set walked)"
      "c \<noteq> None \<Longrightarrow> \<exists>x. on_cycle (next_edges nexts) x"
    by (elim exE conjE) iprover
  let ?cycles = "cycles @ (case c of None \<Rightarrow> [] | Some x \<Rightarrow> [x])"
  have "?cycles = [] \<longrightarrow> closed_acyclic nexts (D \<union> set walked)"
    using w(3) Cons.prems(1) by (auto split: option.splits)
  moreover have "?cycles \<noteq> [] \<longrightarrow> (\<exists>x. on_cycle (next_edges nexts) x)"
    using w(4) Cons.prems(2) by (auto split: option.splits)
  moreover have "\<forall>x. mark_done walked state x = (if x \<in> D \<union> set walked then Done else Unvisited)"
    using Cons.prems(3) by (auto simp: mark_done_def)
  ultimately have "\<exists>cs. functional_loop nexts starts (mark_done walked state) ?cycles = Some cs
      \<and> (cs = [] \<longrightarrow> (\<exists>D'. closed_acyclic nexts D' \<and> set starts \<subseteq> D' \<and> D \<union> set walked \<subseteq> D'))
      \<and> (cs \<noteq> [] \<longrightarrow> (\<exists>x. on_cycle (next_edges nexts) x))" by (rule Cons.IH)
  moreover have "functional_loop nexts (start # starts) state cycles = functional_loop nexts starts (mark_done walked state) ?cycles"
    using w(1) by simp
  moreover have "set (start # starts) \<subseteq> D' \<and> D \<subseteq> D'" if "set starts \<subseteq> D'" "D \<union> set walked \<subseteq> D'" for D'
    using that w(2) by auto
  ultimately show ?case by metis
qed

lemma Functional_ok: "\<exists>cs. Functional nexts = Some cs \<and> (cs = [] \<longleftrightarrow> acyclic (succs (next_edges nexts)))"
proof -
  obtain cs where cs: "functional_loop nexts (sort (map fst nexts)) (\<lambda>_. Unvisited) [] = Some cs"
      "cs = [] \<longrightarrow> (\<exists>D. closed_acyclic nexts D \<and> fst ` set nexts \<subseteq> D)"
      "cs \<noteq> [] \<longrightarrow> (\<exists>x. on_cycle (next_edges nexts) x)"
    using functional_loop_ok [of "[]" nexts "{}" "\<lambda>_. Unvisited" "sort (map fst nexts)"]
    by (auto simp: closed_acyclic_def)
  have "\<not> on_cycle (next_edges nexts) x" if "closed_acyclic nexts D" "fst ` set nexts \<subseteq> D" for x D
  proof
    assume c: "on_cycle (next_edges nexts) x"
    then obtain w where "map_of nexts x = Some w" by (auto simp: on_cycle_def next_edges_iff)
    then have "x \<in> fst ` set nexts" by (metis domI dom_map_of_conv_image_fst)
    then show False using c that by (auto simp: closed_acyclic_def)
  qed
  then have "cs = [] \<longleftrightarrow> (\<forall>x. \<not> on_cycle (next_edges nexts) x)" using cs(2,3) by blast
  moreover have "sort cs = [] \<longleftrightarrow> cs = []" by (metis length_0_conv length_sort)
  ultimately show ?thesis using cs(1) by (simp add: Functional_def acyclic_on_cycle)
qed

text \<open>
  C19: the search for cycles of a graph with at most one edge per vertex always ends, and it reports
  no cycle exactly when there is none.
\<close>

theorem Functional_finds_cycles:
  "\<exists>cycles. Functional nexts = Some cycles \<and> (cycles = [] \<longleftrightarrow> acyclic (succs (next_edges nexts)))"
  by (rule Functional_ok)

end
