(* ===== verification/Outbound_Manager.thy ===== *)
theory Outbound_Manager
  imports Loop_Check "HOL-Library.AList"
begin

text \<open>
  The registry of outbound handlers: \<open>app/proxyman/outbound/outbound.go\<close> and \<open>loops.go\<close>, with what
  the loop checks read of a handler (\<open>features/outbound\<close>).  A handler is a record that carries
  its identity; the calls on it that may fail (\<open>Start\<close>, \<open>Close\<close>) are fields.  The operations hold
  the manager's lock, so each is one step on the state; the end of a retirement, which a goroutine
  waits for, is a step of its own.
\<close>

section \<open>Handlers\<close>

record loop_view =
  DialerProxy :: string
  LoopbackInbound :: "string option"

text \<open>
  \<open>view\<close> is \<open>None\<close> for a handler that is no \<open>LoopView\<close>; \<open>retirement\<close> is \<open>None\<close> for one without a
  \<open>Retirement\<close>, else it tells whether \<open>Retire\<close> returns a channel to wait for.
\<close>

record handler =
  handler_id :: nat
  handler_tag :: string
  view :: "loop_view option"
  proxy_type :: string
  start_error :: "go_error option"
  retirement :: "bool option"

definition HandlerName :: "handler \<Rightarrow> string" where
  "HandlerName h = (if handler_tag h \<noteq> '''' then handler_tag h else ''(untagged)'')"

fun loopback_walk :: "nat \<Rightarrow> (string \<times> handler) list \<Rightarrow> handler option \<Rightarrow> string list \<Rightarrow> (string \<times> string) option" where
  "loopback_walk 0 byTag h hops = None"
| "loopback_walk (Suc k) byTag None hops = None"
| "loopback_walk (Suc k) byTag (Some h) hops =
     (let hops' = hops @ [HandlerName h]
      in case view h of
           None \<Rightarrow> None
         | Some v \<Rightarrow>
             (case LoopbackInbound v of
                Some tag \<Rightarrow> Some (tag, join_sep '' via '' hops')
              | None \<Rightarrow>
                  if DialerProxy v = '''' then None
                  else loopback_walk k byTag (map_of byTag (DialerProxy v)) hops'))"

text \<open>The walk of \<open>LoopbackReached\<close> visits at most \<open>len(byTag) + 1\<close> handlers.\<close>

definition LoopbackReached :: "handler \<Rightarrow> (string \<times> handler) list \<Rightarrow> (string \<times> string) option" where
  "LoopbackReached h byTag = loopback_walk (length byTag + 1) byTag (Some h) []"

text \<open>The loop that enters the tagged handlers of a list in a Go map.\<close>

definition by_tag :: "handler list \<Rightarrow> (string \<times> handler) list" where
  "by_tag hs = foldl (\<lambda>m h. if handler_tag h \<noteq> '''' then AList.update (handler_tag h) h m else m) [] hs"

section \<open>The checks\<close>

definition dialer_next :: "handler list \<Rightarrow> (string \<times> string) list" where
  "dialer_next hs =
     foldl (\<lambda>m h. case view h of
              Some v \<Rightarrow> if handler_tag h \<noteq> '''' \<and> DialerProxy v \<noteq> '''' then AList.update (handler_tag h) (DialerProxy v) m else m
            | None \<Rightarrow> m) [] hs"

text \<open>The outer option is the fuel of the cycle search.\<close>

definition checkDialerProxyCycles :: "handler list \<Rightarrow> go_error option option" where
  "checkDialerProxyCycles hs =
     map_option (\<lambda>cycles. if cycles \<noteq> [] then Some (Err (''dialerProxy cycle: '' @ join_sep ''; '' cycles)) else None)
       (Functional (dialer_next hs))"

definition checkDefaultLoop :: "handler list \<Rightarrow> handler option \<Rightarrow> go_error option" where
  "checkDefaultLoop hs def =
     (case def of
        None \<Rightarrow> None
      | Some d \<Rightarrow>
          (case LoopbackReached d (by_tag hs) of
             None \<Rightarrow> None
           | Some (inbound, path) \<Rightarrow>
               Some (Err (''loopback loop: '' @ inbound @ '' -> [default] '' @ path @ '' -> '' @ inbound))))"

section \<open>The manager\<close>

record Manager =
  defaultHandler :: "handler option"
  taggedHandler :: "(string \<times> handler) list"
  untaggedHandlers :: "handler list"
  running :: bool
  closed :: bool
  tagsCache :: "(string \<times> string list) list"
  retiring :: "handler list"

definition New_Manager :: Manager where
  "New_Manager = \<lparr>defaultHandler = None, taggedHandler = [], untaggedHandlers = [], running = False, closed = False,
     tagsCache = [], retiring = []\<rparr>"

definition GetHandler :: "Manager \<Rightarrow> string \<Rightarrow> handler option" where
  "GetHandler m tag = map_of (taggedHandler m) tag"

definition ListHandlers :: "Manager \<Rightarrow> handler list" where
  "ListHandlers m = untaggedHandlers m @ map snd (taggedHandler m)"

fun start_all :: "handler list \<Rightarrow> go_error option" where
  "start_all [] = None"
| "start_all (h # hs) = (case start_error h of Some err \<Rightarrow> Some err | None \<Rightarrow> start_all hs)"

definition Manager_Start :: "Manager \<Rightarrow> go_error option \<times> Manager" where
  "Manager_Start m =
     (if closed m then (Some (Err ''outbound manager is closed''), m)
      else (start_all (map snd (taggedHandler m) @ untaggedHandlers m), m\<lparr>running := True\<rparr>))"

definition Manager_Close :: "Manager \<Rightarrow> handler list \<times> Manager" where
  "Manager_Close m =
     (map snd (taggedHandler m) @ untaggedHandlers m @ retiring m, m\<lparr>running := False, closed := True\<rparr>)"

text \<open>
  \<open>checker\<close> is the router's \<open>CheckLoopbackLoops\<close>, \<open>None\<close> without a routing section.  Running out of
  fuel would be a check that does not return.
\<close>

definition checkLoops :: "(handler list \<Rightarrow> handler option \<Rightarrow> go_error option option) option \<Rightarrow> handler list \<Rightarrow> handler option
    \<Rightarrow> go_error option option" where
  "checkLoops checker hs def =
     (case checkDialerProxyCycles hs of
        None \<Rightarrow> None
      | Some (Some err) \<Rightarrow> Some (Some err)
      | Some None \<Rightarrow>
          (case checker of
             Some check \<Rightarrow> check hs def
           | None \<Rightarrow> Some (checkDefaultLoop hs def)))"

definition add_guard :: "(handler list \<Rightarrow> handler option \<Rightarrow> go_error option option) option \<Rightarrow> Manager \<Rightarrow> handler
    \<Rightarrow> go_error option option" where
  "add_guard checker m h =
     (if \<not> running m then Some None
      else if handler_tag h \<noteq> '''' \<and> GetHandler m (handler_tag h) \<noteq> None
      then Some (Some (Err (''existing tag found: '' @ handler_tag h)))
      else checkLoops checker (ListHandlers m @ [h])
             (case defaultHandler m of None \<Rightarrow> Some h | Some d \<Rightarrow> Some d))"

definition add_locked :: "Manager \<Rightarrow> handler \<Rightarrow> go_error option \<times> Manager" where
  "add_locked m h =
     (if closed m then (Some (Err ''outbound manager is closed''), m)
      else
        let m1 = m\<lparr>tagsCache := []\<rparr>; tag = handler_tag h
        in if length tag > 0 \<and> map_of (taggedHandler m) tag \<noteq> None
           then (Some (Err (''existing tag found: '' @ tag)), m1)
           else if running m \<and> start_error h \<noteq> None then (start_error h, m1)
           else
             let m2 = (if defaultHandler m1 = None then m1\<lparr>defaultHandler := Some h\<rparr> else m1)
             in (None, if length tag > 0 then m2\<lparr>taggedHandler := AList.update tag h (taggedHandler m2)\<rparr>
                       else m2\<lparr>untaggedHandlers := untaggedHandlers m2 @ [h]\<rparr>))"

definition AddHandler :: "(handler list \<Rightarrow> handler option \<Rightarrow> go_error option option) option \<Rightarrow> Manager \<Rightarrow> handler
    \<Rightarrow> (go_error option \<times> Manager) option" where
  "AddHandler checker m h =
     (case add_guard checker m h of
        None \<Rightarrow> None
      | Some (Some err) \<Rightarrow> Some (Some err, m)
      | Some None \<Rightarrow> Some (add_locked m h))"

definition RemoveHandler :: "Manager \<Rightarrow> string \<Rightarrow> go_error option \<times> Manager" where
  "RemoveHandler m tag =
     (if tag = '''' then (Some ErrNoClue, m)
      else
        let h = map_of (taggedHandler m) tag;
            m1 = m\<lparr>tagsCache := [], taggedHandler := AList.delete tag (taggedHandler m)\<rparr>;
            m2 = (case defaultHandler m1 of
                    Some d \<Rightarrow> if handler_tag d = tag then m1\<lparr>defaultHandler := None\<rparr> else m1
                  | None \<Rightarrow> m1)
        in (None, case h of
                    Some x \<Rightarrow> if retirement x = Some True then m2\<lparr>retiring := x # removeAll x (retiring m2)\<rparr> else
                              if retirement x = Some False then m2\<lparr>retiring := removeAll x (retiring m2)\<rparr> else m2
                  | None \<Rightarrow> m2))"

text \<open>The channel of a retirement closes.\<close>

definition retired :: "Manager \<Rightarrow> handler \<Rightarrow> Manager" where
  "retired m h = m\<lparr>retiring := removeAll h (retiring m)\<rparr>"

definition select_tags :: "string list \<Rightarrow> string list \<Rightarrow> string list" where
  "select_tags tags selectors = sort (filter (\<lambda>tag. list_ex (\<lambda>selector. has_prefix tag selector) selectors) tags)"

definition Manager_Select :: "Manager \<Rightarrow> string list \<Rightarrow> string list \<times> Manager" where
  "Manager_Select m selectors =
     (let key = join_sep '','' selectors
      in case map_of (tagsCache m) key of
           Some cache \<Rightarrow> (cache, m)
         | None \<Rightarrow>
             (let tags = select_tags (map fst (taggedHandler m)) selectors
              in (tags, m\<lparr>tagsCache := AList.update key tags (tagsCache m)\<rparr>)))"

section \<open>The loopback that a handler reaches\<close>

text \<open>\<open>leads byTag h ts tag\<close>: dialling through the tags \<open>ts\<close>, \<open>h\<close> reaches a loopback that feeds \<open>tag\<close>.\<close>

inductive leads :: "(string \<times> handler) list \<Rightarrow> handler \<Rightarrow> string list \<Rightarrow> string \<Rightarrow> bool" for byTag where
  loopback: "view h = Some v \<Longrightarrow> LoopbackInbound v = Some tag \<Longrightarrow> leads byTag h [] tag"
| dial: "view h = Some v \<Longrightarrow> LoopbackInbound v = None \<Longrightarrow> DialerProxy v \<noteq> '''' \<Longrightarrow>
    map_of byTag (DialerProxy v) = Some h' \<Longrightarrow> leads byTag h' ts tag \<Longrightarrow> leads byTag h (DialerProxy v # ts) tag"

inductive_cases leadsE: "leads byTag h ts tag"

lemma leads_unique: "leads byTag h ts tag \<Longrightarrow> leads byTag h ts' tag' \<Longrightarrow> ts = ts' \<and> tag = tag'"
proof (induction arbitrary: ts' tag' rule: leads.induct)
  case (loopback h v tag)
  from loopback(3) show ?case by (rule leadsE) (use loopback(1,2) in simp_all)
next
  case (dial h v h' ts tag)
  from dial.prems show ?case
  proof (rule leadsE)
    fix v' h'' ts''
    assume "ts' = DialerProxy v' # ts''" "view h = Some v'" "map_of byTag (DialerProxy v') = Some h''" "leads byTag h'' ts'' tag'"
    then show ?thesis using dial.hyps(1,4) dial.IH [of ts'' tag'] by simp
  qed (use dial.hyps(1,2) in simp)
qed

lemma leads_suffix:
  "leads byTag h ts tag \<Longrightarrow> ts = pre @ d # suf \<Longrightarrow> \<exists>h'. map_of byTag d = Some h' \<and> leads byTag h' suf tag"
proof (induction arbitrary: pre rule: leads.induct)
  case (dial h v h' ts tag)
  then show ?case by (cases pre) auto
qed simp

lemma leads_distinct: "leads byTag h ts tag \<Longrightarrow> distinct ts \<and> set ts \<subseteq> fst ` set byTag"
proof (induction rule: leads.induct)
  case (dial h v h' ts tag)
  have "DialerProxy v \<notin> set ts"
  proof
    assume "DialerProxy v \<in> set ts"
    then obtain pre suf where ts: "ts = pre @ DialerProxy v # suf" by (meson split_list)
    then have "leads byTag h' suf tag" using leads_suffix [OF dial.hyps(5) ts] dial.hyps(4) by auto
    then have "ts = suf" using leads_unique [OF dial.hyps(5)] by blast
    then show False using ts by simp
  qed
  moreover have "DialerProxy v \<in> fst ` set byTag" using dial.hyps(4) by (metis domI dom_map_of_conv_image_fst)
  ultimately show ?case using dial.IH by simp
qed simp

lemma leads_walk: "leads byTag h ts tag \<Longrightarrow> length ts < k \<Longrightarrow> \<exists>p. loopback_walk k byTag (Some h) hops = Some (tag, p)"
proof (induction arbitrary: k hops rule: leads.induct)
  case (loopback h v tag)
  then show ?case by (cases k) (simp_all add: Let_def)
next
  case (dial h v h' ts tag)
  then show ?case by (cases k) (simp_all add: Let_def)
qed

lemma walk_leads: "loopback_walk k byTag (Some h) hops = Some (tag, p) \<Longrightarrow> \<exists>ts. leads byTag h ts tag"
proof (induction k arbitrary: h hops)
  case (Suc k)
  then obtain v where v: "view h = Some v" by (auto simp: Let_def split: option.splits)
  show ?case
  proof (cases "LoopbackInbound v")
    case None
    then have w: "DialerProxy v \<noteq> ''''" "loopback_walk k byTag (map_of byTag (DialerProxy v)) (hops @ [HandlerName h]) = Some (tag, p)"
      using Suc.prems v by (auto simp: Let_def split: if_splits)
    then obtain h' where h': "map_of byTag (DialerProxy v) = Some h'"
      by (cases "map_of byTag (DialerProxy v)"; cases k) simp_all
    then obtain ts where "leads byTag h' ts tag" using Suc.IH w(2) by metis
    then show ?thesis using leads.dial [OF v None w(1) h'] by blast
  next
    case (Some t)
    then show ?thesis using Suc.prems v leads.loopback [OF v Some] by (auto simp: Let_def)
  qed
qed simp

lemma LoopbackReached_iff: "(\<exists>p. LoopbackReached h byTag = Some (tag, p)) \<longleftrightarrow> (\<exists>ts. leads byTag h ts tag)"
proof
  assume "\<exists>ts. leads byTag h ts tag"
  then obtain ts where ts: "leads byTag h ts tag" by blast
  have "length ts = card (set ts)" using leads_distinct [OF ts] by (simp add: distinct_card)
  also have "\<dots> \<le> card (set (map fst byTag))" using leads_distinct [OF ts] by (intro card_mono) auto
  also have "\<dots> \<le> length byTag" using card_length [of "map fst byTag"] by simp
  finally show "\<exists>p. LoopbackReached h byTag = Some (tag, p)"
    unfolding LoopbackReached_def by (intro leads_walk [OF ts]) simp
next
  assume "\<exists>p. LoopbackReached h byTag = Some (tag, p)"
  then show "\<exists>ts. leads byTag h ts tag" unfolding LoopbackReached_def using walk_leads by blast
qed

text \<open>
  C20: following the dialer proxies of a handler for at most one hop more than there are tagged
  handlers decides exactly whether it reaches a loopback, and which inbound tag that feeds.
\<close>

theorem LoopbackReached_exact:
  "(\<exists>path. LoopbackReached h byTag = Some (tag, path)) \<longleftrightarrow> (\<exists>ts. leads byTag h ts tag)"
  by (rule LoopbackReached_iff)

section \<open>The invariant of the registry\<close>

definition registry_ok :: "Manager \<Rightarrow> bool" where
  "registry_ok m \<longleftrightarrow>
     distinct (map fst (taggedHandler m))
     \<and> (\<forall>(t, h) \<in> set (taggedHandler m). handler_tag h = t \<and> t \<noteq> '''')
     \<and> (\<forall>h \<in> set (untaggedHandlers m). handler_tag h = '''')
     \<and> (\<forall>d. defaultHandler m = Some d \<longrightarrow> d \<in> set (ListHandlers m))"

text \<open>Selectors that \<open>strings.Join\<close> with a comma keeps apart.\<close>

definition selectors_ok :: "string list \<Rightarrow> bool" where
  "selectors_ok sels \<longleftrightarrow> sels \<noteq> [] \<and> (\<forall>s \<in> set sels. CHR '','' \<notin> set s)"

definition cache_ok :: "Manager \<Rightarrow> bool" where
  "cache_ok m \<longleftrightarrow>
     (\<forall>key tags. map_of (tagsCache m) key = Some tags \<longrightarrow>
        (\<exists>sels. selectors_ok sels \<and> key = join_sep '','' sels \<and> tags = select_tags (map fst (taggedHandler m)) sels))"

inductive manager_reach :: "(handler list \<Rightarrow> handler option \<Rightarrow> go_error option option) option \<Rightarrow> Manager \<Rightarrow> bool" for checker where
  init: "manager_reach checker New_Manager"
| start: "manager_reach checker m \<Longrightarrow> manager_reach checker (snd (Manager_Start m))"
| close: "manager_reach checker m \<Longrightarrow> manager_reach checker (snd (Manager_Close m))"
| add: "manager_reach checker m \<Longrightarrow> AddHandler checker m h = Some (err, m') \<Longrightarrow> manager_reach checker m'"
| remove: "manager_reach checker m \<Longrightarrow> manager_reach checker (snd (RemoveHandler m tag))"
| retired: "manager_reach checker m \<Longrightarrow> manager_reach checker (retired m h)"
| select: "manager_reach checker m \<Longrightarrow> selectors_ok sels \<Longrightarrow> manager_reach checker (snd (Manager_Select m sels))"

lemma join_sep_Cons: "ss \<noteq> [] \<Longrightarrow> join_sep sep (s # ss) = s @ sep @ join_sep sep ss"
  by (cases ss) auto

lemma append_comma_inj:
  assumes "CHR '','' \<notin> set a" "CHR '','' \<notin> set b" "a @ CHR '','' # x = b @ CHR '','' # y"
  shows "a = b \<and> x = y"
proof -
  have "takeWhile (\<lambda>c. c \<noteq> CHR '','') (a @ CHR '','' # x) = a" "takeWhile (\<lambda>c. c \<noteq> CHR '','') (b @ CHR '','' # y) = b"
    using assms(1,2) by (auto simp: takeWhile_append takeWhile_eq_all_conv)
  then show ?thesis using assms(3) by auto
qed

lemma join_comma_inj: "selectors_ok xs \<Longrightarrow> selectors_ok ys \<Longrightarrow> join_sep '','' xs = join_sep '','' ys \<Longrightarrow> xs = ys"
proof (induction xs arbitrary: ys)
  case (Cons x xs)
  then obtain y ys' where ys: "ys = y # ys'" by (cases ys) (auto simp: selectors_ok_def)
  have no: "CHR '','' \<notin> set x" "CHR '','' \<notin> set y" using Cons.prems ys by (auto simp: selectors_ok_def)
  show ?case
  proof (cases "xs = [] \<or> ys' = []")
    case True
    then show ?thesis
      using Cons.prems(3) no unfolding ys
      by (cases "xs = []"; cases "ys' = []") (auto simp: join_sep_Cons dest: arg_cong [of _ _ set])
  next
    case False
    then have "x = y \<and> join_sep '','' xs = join_sep '','' ys'"
      using Cons.prems(3) append_comma_inj [OF no] unfolding ys by (simp add: join_sep_Cons)
    moreover have "selectors_ok xs" "selectors_ok ys'" using Cons.prems(1,2) False unfolding ys by (auto simp: selectors_ok_def)
    ultimately show ?thesis using Cons.IH ys by blast
  qed
qed (simp add: selectors_ok_def)

lemma update_new: "map_of al k = None \<Longrightarrow> AList.update k v al = al @ [(k, v)]"
  by (induction al) (auto split: if_splits)

lemma registry_add: "registry_ok m \<Longrightarrow> registry_ok (snd (add_locked m h))"
proof (cases "handler_tag h = ''''")
  case True
  assume "registry_ok m"
  then show ?thesis using True
    by (auto simp: registry_ok_def add_locked_def ListHandlers_def Let_def split: if_splits)
next
  case False
  assume ok: "registry_ok m"
  show ?thesis
  proof (cases "closed m \<or> map_of (taggedHandler m) (handler_tag h) \<noteq> None \<or> running m \<and> start_error h \<noteq> None")
    case True
    then show ?thesis using ok False by (auto simp: registry_ok_def add_locked_def ListHandlers_def Let_def)
  next
    case new: False
    then have "AList.update (handler_tag h) h (taggedHandler m) = taggedHandler m @ [(handler_tag h, h)]"
      by (intro update_new) auto
    then show ?thesis using ok False new
      by (auto simp: registry_ok_def add_locked_def ListHandlers_def Let_def map_of_eq_None_iff)
  qed
qed

lemma AddHandler_cases:
  assumes "AddHandler checker m h = Some (err, m')"
  shows "m' = m \<or> m' = snd (add_locked m h)"
  using assms by (auto simp: AddHandler_def split: option.splits)

lemma RemoveHandler_fields:
  assumes "tag \<noteq> ''''"
  shows "taggedHandler (snd (RemoveHandler m tag)) = AList.delete tag (taggedHandler m)"
    "untaggedHandlers (snd (RemoveHandler m tag)) = untaggedHandlers m" "tagsCache (snd (RemoveHandler m tag)) = []"
    "defaultHandler (snd (RemoveHandler m tag)) =
       (case defaultHandler m of Some d \<Rightarrow> if handler_tag d = tag then None else Some d | None \<Rightarrow> None)"
  using assms by (simp_all add: RemoveHandler_def Let_def split: option.split)

lemma registry_remove: "registry_ok m \<Longrightarrow> registry_ok (snd (RemoveHandler m tag))"
proof (cases "tag = ''''")
  case False
  assume ok: "registry_ok m"
  let ?T = "AList.delete tag (taggedHandler m)"
  have set: "set ?T = {x \<in> set (taggedHandler m). fst x \<noteq> tag}" by (auto simp: AList.delete_eq)
  have "distinct (map fst ?T)" using ok by (simp add: registry_ok_def AList.distinct_delete)
  moreover have "d \<in> set (untaggedHandlers m @ map snd ?T)" if "defaultHandler m = Some d" "handler_tag d \<noteq> tag" for d
  proof -
    have "d \<in> set (untaggedHandlers m) \<or> d \<in> snd ` set (taggedHandler m)"
      using ok that(1) by (simp add: registry_ok_def ListHandlers_def)
    then show ?thesis
    proof
      assume "d \<in> snd ` set (taggedHandler m)"
      then obtain t where "(t, d) \<in> set (taggedHandler m)" by auto
      then have "(t, d) \<in> set ?T" using ok that(2) unfolding set registry_ok_def by auto
      then show ?thesis by force
    qed simp
  qed
  ultimately show ?thesis
    using ok unfolding registry_ok_def ListHandlers_def RemoveHandler_fields [OF False]
    by (auto simp: set split: option.splits if_splits)
qed (simp add: RemoveHandler_def)

lemma cache_empty: "tagsCache m = [] \<Longrightarrow> cache_ok m"
  by (simp add: cache_ok_def)

lemma Manager_Select_cache:
  assumes "cache_ok m" "selectors_ok sels"
  shows "fst (Manager_Select m sels) = select_tags (map fst (taggedHandler m)) sels \<and> cache_ok (snd (Manager_Select m sels))"
proof (cases "map_of (tagsCache m) (join_sep '','' sels)")
  case None
  then show ?thesis
    using assms by (auto simp: Manager_Select_def Let_def cache_ok_def update_conv')
next
  case (Some tags)
  then obtain sels' where "selectors_ok sels'" "join_sep '','' sels = join_sep '','' sels'"
      "tags = select_tags (map fst (taggedHandler m)) sels'"
    using assms(1) unfolding cache_ok_def by blast
  then show ?thesis using join_comma_inj [OF assms(2)] Some assms(1) by (simp add: Manager_Select_def Let_def)
qed

lemma cache_add: "cache_ok m \<Longrightarrow> cache_ok (snd (add_locked m h))"
proof (cases "closed m")
  case False
  then have "tagsCache (snd (add_locked m h)) = []" by (simp add: add_locked_def Let_def)
  then show ?thesis by (rule cache_empty)
qed (simp add: add_locked_def)

lemma cache_remove: "cache_ok m \<Longrightarrow> cache_ok (snd (RemoveHandler m tag))"
proof (cases "tag = ''''")
  case False
  then show ?thesis by (intro cache_empty RemoveHandler_fields)
qed (simp add: RemoveHandler_def)

lemma other_fields:
  "taggedHandler (snd (Manager_Start m)) = taggedHandler m" "untaggedHandlers (snd (Manager_Start m)) = untaggedHandlers m"
  "defaultHandler (snd (Manager_Start m)) = defaultHandler m" "tagsCache (snd (Manager_Start m)) = tagsCache m"
  "taggedHandler (snd (Manager_Select m sels)) = taggedHandler m" "untaggedHandlers (snd (Manager_Select m sels)) = untaggedHandlers m"
  "defaultHandler (snd (Manager_Select m sels)) = defaultHandler m"
  by (simp_all add: Manager_Start_def Manager_Select_def Let_def split: option.split)

lemma manager_reach_ok: "manager_reach checker m \<Longrightarrow> registry_ok m \<and> cache_ok m"
proof (induction rule: manager_reach.induct)
  case init
  then show ?case by (simp add: New_Manager_def registry_ok_def cache_ok_def)
next
  case (start m)
  then show ?case by (simp add: registry_ok_def cache_ok_def ListHandlers_def other_fields)
next
  case (close m)
  then show ?case by (simp add: registry_ok_def cache_ok_def ListHandlers_def Manager_Close_def)
next
  case (add m h err m')
  then show ?case using AddHandler_cases [OF add.hyps(2)] registry_add [of m h] cache_add [of m h] by auto
next
  case (remove m tag)
  then show ?case by (simp add: registry_remove cache_remove)
next
  case (retired m h)
  then show ?case by (simp add: registry_ok_def cache_ok_def ListHandlers_def retired_def)
next
  case (select m sels)
  then show ?case using Manager_Select_cache [of m sels] by (simp add: registry_ok_def ListHandlers_def other_fields)
qed

text \<open>
  C11: in every state of the outbound manager that its operations can reach, one handler is
  registered per tag and under its own tag, and the default handler, when there is one, is a
  registered handler.
\<close>

theorem manager_registry_invariant: "manager_reach checker m \<Longrightarrow> registry_ok m"
  using manager_reach_ok by blast

definition sample_handler :: "string \<Rightarrow> string \<Rightarrow> handler" where
  "sample_handler tag via =
     \<lparr>handler_id = 0, handler_tag = tag, view = Some \<lparr>DialerProxy = via, LoopbackInbound = None\<rparr>, proxy_type = '''',
      start_error = None, retirement = None\<rparr>"

definition sample_manager :: Manager where
  "sample_manager = snd (add_locked New_Manager (sample_handler ''a1'' ''''))"

lemma sample_manager_fields:
  "taggedHandler sample_manager = [(''a1'', sample_handler ''a1'' '''')]" "tagsCache sample_manager = []"
  "defaultHandler sample_manager = Some (sample_handler ''a1'' '''')"
  by (simp_all add: sample_manager_def add_locked_def New_Manager_def sample_handler_def Let_def)

lemma sample_manager_reach: "manager_reach None sample_manager"
proof (rule manager_reach.add [OF manager_reach.init, of None "sample_handler ''a1'' ''''" None])
  have "fst (add_locked New_Manager (sample_handler ''a1'' '''')) = None"
    by (simp add: add_locked_def New_Manager_def sample_handler_def Let_def)
  then show "AddHandler None New_Manager (sample_handler ''a1'' '''') = Some (None, sample_manager)"
    by (simp add: AddHandler_def add_guard_def sample_manager_def prod_eq_iff) (simp add: New_Manager_def)
qed

theorem manager_registry_invariant_witness:
  "registry_ok sample_manager \<and> defaultHandler sample_manager = Some (sample_handler ''a1'' '''')"
  using manager_registry_invariant [OF sample_manager_reach] by (simp add: sample_manager_fields)




end
