(* ===== verification/Router_Loops.thy ===== *)
theory Router_Loops
  imports Router_Chain Router_Rules Outbound_Manager
begin

text \<open>
  The check that routing cannot bring a connection that a loopback fed back into routing to a
  loopback again: \<open>app/router/loops.go\<close>.  The states of the graph are the inbound tags that
  loopbacks feed.  The slice \<open>out\<close> and the map \<open>seen\<close>, which the Go code updates through pointers,
  are passed and returned; the recursion through member balancers and the loop along the fallbacks
  run on fuel, one unit per balancer, which is shown to be enough.
\<close>

section \<open>Rules\<close>

record ('d, 'i) Rule =
  rule_Tag :: string
  rule_RuleTag :: string
  rule_Balancer :: "ref option"
  rule_Condition :: "Condition list"
  rule_Webhook :: "nat option"
  rule_Config :: "('d, 'i) RoutingRule"

text \<open>
  The inbound tag is the only condition: ranging over the populated fields of the message finds
  none but \<open>inbound_tag\<close> and the fields that say where the rule leads.
\<close>

definition matchesOnInboundOnly :: "('d, 'i) RoutingRule \<Rightarrow> bool" where
  "matchesOnInboundOnly rr \<longleftrightarrow>
     rr_InboundTag rr \<noteq> [] \<and> rr_Domain rr = [] \<and> rr_Ip rr = [] \<and> rr_PortList rr = None \<and> rr_Networks rr = []
     \<and> rr_SourceIp rr = [] \<and> rr_SourcePortList rr = None \<and> rr_UserEmail rr = [] \<and> rr_Protocol rr = []
     \<and> rr_Attributes rr = [] \<and> rr_LocalIp rr = [] \<and> rr_LocalPortList rr = None \<and> rr_VlessRouteList rr = None
     \<and> rr_Process rr = [] \<and> rr_LocalOs rr = []"

section \<open>The edges of a state\<close>

record loopEdge =
  le_to :: string
  le_label :: string
  le_via :: string

record ('d, 'i) loopGraph =
  g_rules :: "('d, 'i) Rule list"
  g_balancers :: balancer_map
  g_override :: "string \<rightharpoonup> string"
  g_byTag :: "(string \<times> handler) list"
  g_tags :: "string list"
  g_def :: "handler option"

text \<open>The edges that \<open>reach\<close> appends.\<close>

definition g_reach :: "('d, 'i) loopGraph \<Rightarrow> handler option \<Rightarrow> string \<Rightarrow> loopEdge list" where
  "g_reach g h label =
     (case h of
        None \<Rightarrow> []
      | Some x \<Rightarrow>
          (case LoopbackReached x (g_byTag g) of
             None \<Rightarrow> []
           | Some (inbound, path) \<Rightarrow> [\<lparr>le_to = inbound, le_label = label, le_via = path\<rparr>]))"

definition selector_edges :: "('d, 'i) loopGraph \<Rightarrow> Balancer \<Rightarrow> string \<Rightarrow> loopEdge list" where
  "selector_edges g b lev =
     concat (map (\<lambda>tag. if list_ex (\<lambda>selector. has_prefix tag selector) (selectors b)
                        then g_reach g (map_of (g_byTag g) tag) lev else []) (g_tags g))"

definition override_edges :: "('d, 'i) loopGraph \<Rightarrow> Balancer \<Rightarrow> string \<Rightarrow> loopEdge list" where
  "override_edges g b lev =
     (let target = (case g_override g (bal_tag b) of Some t \<Rightarrow> t | None \<Rightarrow> override_Get b)
      in if target \<noteq> '''' then g_reach g (map_of (g_byTag g) target) (lev @ '' override'') else [])"

fun member_levels :: "(ref \<Rightarrow> string \<Rightarrow> loopEdge list \<times> string list \<Rightarrow> (loopEdge list \<times> string list) option)
    \<Rightarrow> balancer_map \<Rightarrow> string \<Rightarrow> string list \<Rightarrow> loopEdge list \<times> string list \<Rightarrow> (loopEdge list \<times> string list) option" where
  "member_levels f m lev [] st = Some st"
| "member_levels f m lev (x # xs) st =
     (case map_of m x of
        None \<Rightarrow> member_levels f m lev xs st
      | Some inner \<Rightarrow>
          (case f inner (lev @ '' member '' @ x) st of
             None \<Rightarrow> None
           | Some st' \<Rightarrow> member_levels f m lev xs st'))"

fun level :: "nat \<Rightarrow> heap \<Rightarrow> ('d, 'i) loopGraph \<Rightarrow> ref \<Rightarrow> string \<Rightarrow> loopEdge list \<times> string list
    \<Rightarrow> (loopEdge list \<times> string list) option" where
  "level fuel h g b lev (out, sn) =
     (if bal_tag (h b) \<in> set sn then Some (out, sn)
      else case fuel of
        0 \<Rightarrow> None
      | Suc k \<Rightarrow>
          (case member_levels (level k h g) (g_balancers g) lev (members (h b))
                  (out @ selector_edges g (h b) lev, bal_tag (h b) # sn) of
             None \<Rightarrow> None
           | Some (out2, sn2) \<Rightarrow>
               (let out3 = out2 @ override_edges g (h b) lev
                in if fallbackTag (h b) = '''' then Some (out3 @ g_reach g (g_def g) (lev @ '' default''), sn2)
                   else case map_of (g_balancers g) (fallbackTag (h b)) of
                     Some b2 \<Rightarrow> level k h g b2 (lev @ '' -> '' @ bal_tag (h b2)) (out3, sn2)
                   | None \<Rightarrow>
                       Some (out3 @ g_reach g (map_of (g_byTag g) (fallbackTag (h b))) (lev @ '' fallback''), sn2))))"

declare level.simps [simp del]

definition g_chain :: "heap \<Rightarrow> ('d, 'i) loopGraph \<Rightarrow> ref \<Rightarrow> string \<Rightarrow> loopEdge list option" where
  "g_chain h g b label =
     map_option fst (level (length (g_balancers g)) h g b (label @ '', balancer '' @ bal_tag (h b)) ([], []))"

definition rule_label :: "nat \<Rightarrow> ('d, 'i) Rule \<Rightarrow> string" where
  "rule_label i rule = (if rule_RuleTag rule = '''' then ''rule #'' @ itoa (i + 1) else ''rule '' @ rule_RuleTag rule)"

fun from_loop :: "heap \<Rightarrow> ('d, 'i) loopGraph \<Rightarrow> string \<Rightarrow> nat \<Rightarrow> ('d, 'i) Rule list \<Rightarrow> loopEdge list option" where
  "from_loop h g state i [] = Some (g_reach g (g_def g) ''default'')"
| "from_loop h g state i (rule # rules) =
     (let inbound = rr_InboundTag (rule_Config rule)
      in if inbound \<noteq> [] \<and> state \<notin> set inbound then from_loop h g state (i + 1) rules
         else
           (case (case rule_Balancer rule of
                    Some b \<Rightarrow> g_chain h g b (rule_label i rule)
                  | None \<Rightarrow> Some (g_reach g (map_of (g_byTag g) (rule_Tag rule)) (rule_label i rule))) of
              None \<Rightarrow> None
            | Some out \<Rightarrow>
                if matchesOnInboundOnly (rule_Config rule) then Some out
                else map_option ((@) out) (from_loop h g state (i + 1) rules)))"

definition g_from :: "heap \<Rightarrow> ('d, 'i) loopGraph \<Rightarrow> string \<Rightarrow> loopEdge list option" where
  "g_from h g state = from_loop h g state 0 (g_rules g)"

section \<open>The check\<close>

definition loop_states :: "handler list \<Rightarrow> string list" where
  "loop_states hs = remdups (concat (map (\<lambda>h. case view h of
     None \<Rightarrow> [] | Some v \<Rightarrow> (case LoopbackInbound v of None \<Rightarrow> [] | Some t \<Rightarrow> [t])) hs))"

fun state_edges :: "heap \<Rightarrow> ('d, 'i) loopGraph \<Rightarrow> string list \<Rightarrow> (string \<times> loopEdge list) list option" where
  "state_edges h g [] = Some []"
| "state_edges h g (s # ss) =
     (case g_from h g s of None \<Rightarrow> None | Some es \<Rightarrow> map_option ((#) (s, es)) (state_edges h g ss))"

definition edges_at :: "(string \<times> loopEdge list) list \<Rightarrow> string \<Rightarrow> loopEdge list" where
  "edges_at edges v = (case map_of edges v of None \<Rightarrow> [] | Some es \<Rightarrow> es)"

definition stronglyConnected :: "(string \<times> loopEdge list) list \<Rightarrow> string list list option" where
  "stronglyConnected edges = components (sort (map fst edges)) (targets le_to (edges_at edges))"

definition format_step :: "loopEdge \<Rightarrow> string" where
  "format_step p = '' -> ['' @ le_label p @ ''] '' @ le_via p @ '' -> '' @ le_to p"

definition shortestCycle :: "(string \<times> loopEdge list) list \<Rightarrow> string list \<Rightarrow> string option" where
  "shortestCycle edges component =
     map_option (\<lambda>r. case r of None \<Rightarrow> '''' | Some path \<Rightarrow> hd component @ concat (map format_step path))
       (find_cycle le_to (edges_at edges) component)"

fun loop_cycles :: "(string \<times> loopEdge list) list \<Rightarrow> string list list \<Rightarrow> string list option" where
  "loop_cycles edges [] = Some []"
| "loop_cycles edges (c # cs) =
     (case shortestCycle edges c of
        None \<Rightarrow> None
      | Some cycle \<Rightarrow> map_option (\<lambda>rest. if cycle \<noteq> '''' then cycle # rest else rest) (loop_cycles edges cs))"

definition loopbackLoops :: "heap \<Rightarrow> ('d, 'i) loopGraph \<Rightarrow> handler list \<Rightarrow> go_error option option" where
  "loopbackLoops h g0 hs =
     (let byTag = by_tag hs; states = loop_states hs
      in if states = [] then Some None
         else
           let g = g0\<lparr>g_byTag := byTag, g_tags := sort (map fst byTag)\<rparr>
           in case state_edges h g states of
                None \<Rightarrow> None
              | Some edges \<Rightarrow>
                  (case stronglyConnected edges of
                     None \<Rightarrow> None
                   | Some cs \<Rightarrow>
                       (case loop_cycles edges cs of
                          None \<Rightarrow> None
                        | Some cycles \<Rightarrow>
                            if cycles = [] then Some None
                            else Some (Some (Err (''loopback loop: '' @ join_sep ''; '' (sort cycles)))))))"

section \<open>Observation of members\<close>

fun reach_tags :: "nat \<Rightarrow> heap \<Rightarrow> balancer_map \<Rightarrow> string list \<Rightarrow> string list \<Rightarrow> string list option" where
  "reach_tags fuel h m [] reached = Some reached"
| "reach_tags fuel h m (tag # tags) reached =
     (case map_of m tag of
        None \<Rightarrow> reach_tags fuel h m tags reached
      | Some b \<Rightarrow>
          if tag \<in> set reached then reach_tags fuel h m tags reached
          else case fuel of
            0 \<Rightarrow> None
          | Suc k \<Rightarrow>
              (case reach_tags k h m (members (h b) @ [fallbackTag (h b)]) (tag # reached) of
                 None \<Rightarrow> None
               | Some reached' \<Rightarrow> reach_tags (Suc k) h m tags reached'))"

definition all_by_tag :: "handler list \<Rightarrow> (string \<times> handler) list" where
  "all_by_tag hs = foldl (\<lambda>m h. AList.update (handler_tag h) h m) [] hs"

definition observed_outbounds :: "heap \<Rightarrow> balancer_map \<Rightarrow> (string \<times> handler) list \<Rightarrow> string \<Rightarrow> string list" where
  "observed_outbounds h m byTag tag =
     (let b = h (the (map_of m tag))
      in filter (\<lambda>t. list_ex (\<lambda>selector. has_prefix t selector) (selectors b)) (sort (map fst byTag))
         @ (if map_of m (fallbackTag b) = None \<and> fallbackTag b \<noteq> '''' \<and>
               (case map_of byTag (fallbackTag b) of None \<Rightarrow> True | Some x \<Rightarrow> proxy_type x \<noteq> ''xray.proxy.blackhole.Config'')
            then [fallbackTag b] else []))"

definition checkMemberObservation :: "(string \<Rightarrow> bool) \<Rightarrow> heap \<Rightarrow> balancer_map \<Rightarrow> handler list \<Rightarrow> go_error option option" where
  "checkMemberObservation observes h m hs =
     (case reach_tags (length m) h m (filter (\<lambda>tag. members (h (the (map_of m tag))) \<noteq> []) (sort (map fst m))) [] of
        None \<Rightarrow> None
      | Some reached \<Rightarrow>
          Some (case find (\<lambda>(tag, out). \<not> observes out)
                       (concat (map (\<lambda>tag. map (Pair tag) (observed_outbounds h m (all_by_tag hs) tag)) (sort reached))) of
                  None \<Rightarrow> None
                | Some (tag, out) \<Rightarrow>
                    Some (Err (''balancer '' @ tag @ '': outbound '' @ out
                      @ '' is not observed (balancer members need every outbound observed)''))))"

section \<open>The check decides the graph\<close>

abbreviation loop_succs :: "(string \<times> loopEdge list) list \<Rightarrow> string \<Rightarrow> string list" where
  "loop_succs edges \<equiv> targets le_to (edges_at edges)"

lemma loop_succs_key: "w \<in> set (loop_succs edges v) \<Longrightarrow> v \<in> fst ` set edges"
  by (cases "map_of edges v") (auto simp: targets_def edges_at_def dest: map_of_Some_key)

interpretation loop_digraph: finite_graph "loop_succs edges"
  "set (map fst edges) \<union> \<Union> (set ` loop_succs edges ` set (map fst edges))" for edges
  by unfold_locales (auto dest: loop_succs_key)

lemma loop_cycles_ok:
  assumes "\<forall>c \<in> set cs. distinct c \<and> is_scc (loop_succs edges) (set c)"
  shows "\<exists>cy. loop_cycles edges cs = Some cy \<and> (cy = [] \<longleftrightarrow> (\<forall>c \<in> set cs. \<forall>x \<in> set c. \<not> on_cycle (loop_succs edges) x))"
  using assms
proof (induction cs)
  case (Cons c cs)
  obtain r where r: "find_cycle le_to (edges_at edges) c = Some r"
      "r = None \<longleftrightarrow> (\<forall>x \<in> set c. \<not> on_cycle (loop_succs edges) x)" "\<And>path. r = Some path \<Longrightarrow> path \<noteq> []"
    using find_cycle_scc [of c le_to "edges_at edges"] Cons.prems by force
  obtain cycle where cycle: "shortestCycle edges c = Some cycle"
      "cycle = '''' \<longleftrightarrow> (\<forall>x \<in> set c. \<not> on_cycle (loop_succs edges) x)"
  proof (cases r)
    case None
    then show ?thesis using that [of "''''"] r by (simp add: shortestCycle_def)
  next
    case (Some path)
    then obtain e es where "path = e # es" using r(3) by (cases path) auto
    then have "hd c @ concat (map format_step path) \<noteq> ''''" by (simp add: format_step_def)
    moreover have "\<not> (\<forall>x \<in> set c. \<not> on_cycle (loop_succs edges) x)" using r(2) Some by simp
    moreover have "shortestCycle edges c = Some (hd c @ concat (map format_step path))"
      using r(1) Some by (simp add: shortestCycle_def)
    ultimately show ?thesis using that by blast
  qed
  obtain cy where cy: "loop_cycles edges cs = Some cy"
      "cy = [] \<longleftrightarrow> (\<forall>c \<in> set cs. \<forall>x \<in> set c. \<not> on_cycle (loop_succs edges) x)"
    using Cons.IH Cons.prems by force
  show ?case using cycle cy by (cases "cycle = ''''") simp_all
qed simp

lemma loop_graph_decided:
  "\<exists>cs cy. stronglyConnected edges = Some cs \<and> loop_cycles edges cs = Some cy
    \<and> (cy = [] \<longleftrightarrow> acyclic (succs (loop_succs edges)))"
proof -
  let ?V = "set (map fst edges) \<union> \<Union> (set ` loop_succs edges ` set (map fst edges))"
  obtain cs where cs: "stronglyConnected edges = Some cs" "\<Union> (set ` set cs) = ?V"
      "\<forall>c \<in> set cs. is_scc (loop_succs edges) (set c) \<and> sorted c \<and> distinct c"
    using loop_digraph.components_ok [of "sort (map fst edges)" edges] unfolding stronglyConnected_def by auto
  obtain cy where cy: "loop_cycles edges cs = Some cy"
      "cy = [] \<longleftrightarrow> (\<forall>c \<in> set cs. \<forall>x \<in> set c. \<not> on_cycle (loop_succs edges) x)"
    using loop_cycles_ok [of cs edges] cs(3) by auto
  have "x \<in> \<Union> (set ` set cs)" if "on_cycle (loop_succs edges) x" for x
    using that unfolding cs(2) on_cycle_def by (auto dest: loop_succs_key)
  then have "(\<forall>c \<in> set cs. \<forall>x \<in> set c. \<not> on_cycle (loop_succs edges) x) \<longleftrightarrow> (\<forall>x. \<not> on_cycle (loop_succs edges) x)"
    by blast
  then show ?thesis using cs(1) cy unfolding acyclic_on_cycle by blast
qed

section \<open>Every level of a chain is visited\<close>

definition keyed :: "heap \<Rightarrow> balancer_map \<Rightarrow> bool" where
  "keyed h m \<longleftrightarrow> (\<forall>t b. map_of m t = Some b \<longrightarrow> bal_tag (h b) = t)"

definition reached_states :: "('d, 'i) loopGraph \<Rightarrow> handler option \<Rightarrow> string set" where
  "reached_states g h = {s. \<exists>x p. h = Some x \<and> LoopbackReached x (g_byTag g) = Some (s, p)}"

definition override_of :: "('d, 'i) loopGraph \<Rightarrow> Balancer \<Rightarrow> string" where
  "override_of g b = (case g_override g (bal_tag b) of Some t \<Rightarrow> t | None \<Rightarrow> override_Get b)"

text \<open>The outbounds of a level: its candidates, its override, and its last resort.\<close>

definition level_handlers :: "('d, 'i) loopGraph \<Rightarrow> Balancer \<Rightarrow> handler option set" where
  "level_handlers g b =
     {map_of (g_byTag g) tag |tag. tag \<in> set (g_tags g) \<and> (\<exists>s \<in> set (selectors b). has_prefix tag s)}
     \<union> {map_of (g_byTag g) t |t. t = override_of g b \<and> t \<noteq> ''''}
     \<union> (if fallbackTag b = '''' then {g_def g}
        else if map_of (g_balancers g) (fallbackTag b) = None then {map_of (g_byTag g) (fallbackTag b)} else {})"

definition level_states :: "('d, 'i) loopGraph \<Rightarrow> Balancer \<Rightarrow> string set" where
  "level_states g b = \<Union> (reached_states g ` level_handlers g b)"

lemma le_to_reach: "le_to ` set (g_reach g h l) = reached_states g h"
proof (cases h)
  case (Some x)
  then show ?thesis by (cases "LoopbackReached x (g_byTag g)") (auto simp: g_reach_def reached_states_def)
qed (simp add: g_reach_def reached_states_def)

lemma le_to_selector:
  "le_to ` set (selector_edges g b l) =
     \<Union> (reached_states g ` {map_of (g_byTag g) tag |tag. tag \<in> set (g_tags g) \<and> (\<exists>s \<in> set (selectors b). has_prefix tag s)})"
proof -
  have "le_to ` set (if c then g_reach g x l else []) = (if c then reached_states g x else {})" for c x
    by (simp add: le_to_reach split: if_split)
  then show ?thesis
    unfolding selector_edges_def set_concat set_map image_UN image_image by (auto simp: list_ex_iff split: if_splits)
qed

lemma le_to_override:
  "le_to ` set (override_edges g b l) = \<Union> (reached_states g ` {map_of (g_byTag g) t |t. t = override_of g b \<and> t \<noteq> ''''})"
  unfolding override_edges_def override_of_def [symmetric] Let_def
  by (cases "override_of g b = ''''") (simp_all add: le_to_reach)

definition chain_succs :: "heap \<Rightarrow> balancer_map \<Rightarrow> string \<Rightarrow> string set" where
  "chain_succs h m u =
     {w. \<exists>b. map_of m u = Some b \<and> (w \<in> set (members (h b)) \<or> w = fallbackTag (h b) \<and> w \<noteq> '''') \<and> map_of m w \<noteq> None}"

abbreviation chain_rel :: "heap \<Rightarrow> balancer_map \<Rightarrow> (string \<times> string) set" where
  "chain_rel h m \<equiv> {(u, w). w \<in> chain_succs h m u}"

abbreviation lstates :: "heap \<Rightarrow> ('d, 'i) loopGraph \<Rightarrow> string \<Rightarrow> string set" where
  "lstates h g u \<equiv> level_states g (h (the (map_of (g_balancers g) u)))"

text \<open>
  The walk from \<open>st\<close> to \<open>st'\<close> added the balancers \<open>new\<close>: every level they lead to is visited, and the
  edges added are those of the new levels.
\<close>

definition grown :: "heap \<Rightarrow> ('d, 'i) loopGraph \<Rightarrow> string set \<Rightarrow> loopEdge list \<times> string list \<Rightarrow> loopEdge list \<times> string list \<Rightarrow> bool" where
  "grown h g new st st' \<longleftrightarrow>
     set (snd st') = set (snd st) \<union> new \<and> new \<subseteq> fst ` set (g_balancers g)
     \<and> \<Union> (chain_succs h (g_balancers g) ` new) \<subseteq> set (snd st')
     \<and> le_to ` set (fst st') = le_to ` set (fst st) \<union> \<Union> (lstates h g ` new)"

lemma grown_refl [simp]: "grown h g {} st st"
  by (simp add: grown_def)

lemma grownD:
  assumes "grown h g A a b"
  shows "set (snd b) = set (snd a) \<union> A" "A \<subseteq> fst ` set (g_balancers g)" "\<Union> (chain_succs h (g_balancers g) ` A) \<subseteq> set (snd b)"
    "le_to ` set (fst b) = le_to ` set (fst a) \<union> \<Union> (lstates h g ` A)"
proof -
  note D = assms [unfolded grown_def]
  show "set (snd b) = set (snd a) \<union> A" by (rule D [THEN conjunct1])
  show "A \<subseteq> fst ` set (g_balancers g)" by (rule D [THEN conjunct2, THEN conjunct1])
  show "\<Union> (chain_succs h (g_balancers g) ` A) \<subseteq> set (snd b)" by (rule D [THEN conjunct2, THEN conjunct2, THEN conjunct1])
  show "le_to ` set (fst b) = le_to ` set (fst a) \<union> \<Union> (lstates h g ` A)" by (rule D [THEN conjunct2, THEN conjunct2, THEN conjunct2])
qed

lemma grown_trans:
  assumes "grown h g A a b" "grown h g B b c"
  shows "grown h g (A \<union> B) a c"
proof -
  let ?m = "g_balancers g"
  note 1 = grownD [OF assms(1)] and 2 = grownD [OF assms(2)]
  have "\<Union> (chain_succs h ?m ` A) \<subseteq> set (snd c)" using 1(3) 2(1) by blast
  then have "\<Union> (chain_succs h ?m ` (A \<union> B)) \<subseteq> set (snd c)" using 2(3) unfolding image_Un Union_Un_distrib by (rule Un_least)
  moreover have "le_to ` set (fst c) = le_to ` set (fst a) \<union> \<Union> (lstates h g ` (A \<union> B))"
    unfolding 2(4) 1(4) image_Un Union_Un_distrib by (rule Un_assoc)
  moreover have "set (snd c) = set (snd a) \<union> (A \<union> B)" unfolding 2(1) 1(1) by (rule Un_assoc)
  moreover have "A \<union> B \<subseteq> fst ` set ?m" using 1(2) 2(2) by (rule Un_least)
  ultimately show ?thesis unfolding grown_def by (intro conjI)
qed

lemma level_states_split:
  "level_states g b =
     le_to ` set (selector_edges g b l1) \<union> le_to ` set (override_edges g b l2)
     \<union> (if fallbackTag b = '''' then reached_states g (g_def g)
        else if map_of (g_balancers g) (fallbackTag b) = None then reached_states g (map_of (g_byTag g) (fallbackTag b)) else {})"
  unfolding level_states_def level_handlers_def le_to_selector le_to_override image_Un by (simp add: Un_assoc)

text \<open>One level: its own outbounds and the levels it leads to account for the level.\<close>

lemma grown_level:
  assumes "grown h g A (out1, t # sn) (out2, sn2)"
    and "t \<in> fst ` set (g_balancers g)" "chain_succs h (g_balancers g) t \<subseteq> set sn2"
    and "le_to ` set out1 \<union> own = le_to ` set out \<union> lstates h g t" "le_to ` set out3 = le_to ` set out2 \<union> own"
  shows "grown h g (insert t A) (out, sn) (out3, sn2)"
proof -
  note a = grownD [OF assms(1), unfolded fst_conv snd_conv]
  have "le_to ` set out3 = le_to ` set out \<union> \<Union> (lstates h g ` insert t A)" unfolding assms(5) a(4) using assms(4) by auto
  then show ?thesis using a(1-3) assms(2,3) by (simp add: grown_def)
qed

lemma member_levels_ok:
  assumes f: "\<And>t b lev st. map_of m t = Some b \<Longrightarrow> card (fst ` set m - set (snd st)) \<le> k \<Longrightarrow>
      \<exists>st' A. f b lev st = Some st' \<and> grown h g A st st' \<and> t \<in> set (snd st') \<and> A \<subseteq> (chain_rel h m)\<^sup>* `` {t}"
    and m: "g_balancers g = m" and k: "card (fst ` set m - set (snd st)) \<le> k"
  shows "\<exists>st' A. member_levels f m lev xs st = Some st' \<and> grown h g A st st'
    \<and> (\<forall>x \<in> set xs. map_of m x \<noteq> None \<longrightarrow> x \<in> set (snd st'))
    \<and> A \<subseteq> (chain_rel h m)\<^sup>* `` {x \<in> set xs. map_of m x \<noteq> None}"
  using k
proof (induction xs arbitrary: st)
  case Nil
  show ?case by (intro exI [of _ st] exI [of _ "{}"]) simp
next
  case (Cons x xs)
  show ?case
  proof (cases "map_of m x")
    case None
    obtain st' A where "member_levels f m lev xs st = Some st'" "grown h g A st st'"
        "\<forall>y \<in> set xs. map_of m y \<noteq> None \<longrightarrow> y \<in> set (snd st')" "A \<subseteq> (chain_rel h m)\<^sup>* `` {y \<in> set xs. map_of m y \<noteq> None}"
      using Cons.IH [OF Cons.prems] by blast
    moreover have "{y \<in> set (x # xs). map_of m y \<noteq> None} = {y \<in> set xs. map_of m y \<noteq> None}" using None by auto
    ultimately show ?thesis using None by (intro exI [of _ st'] exI [of _ A]) auto
  next
    case (Some b)
    obtain st1 A where st1: "f b (lev @ '' member '' @ x) st = Some st1" "grown h g A st st1" "x \<in> set (snd st1)"
        "A \<subseteq> (chain_rel h m)\<^sup>* `` {x}"
      using f [OF Some Cons.prems] by blast
    have "card (fst ` set m - set (snd st1)) \<le> card (fst ` set m - set (snd st))"
      using grownD(1) [OF st1(2)] by (intro card_mono) auto
    then have "card (fst ` set m - set (snd st1)) \<le> k" using Cons.prems by simp
    then obtain st2 B where st2: "member_levels f m lev xs st1 = Some st2" "grown h g B st1 st2"
        "\<forall>y \<in> set xs. map_of m y \<noteq> None \<longrightarrow> y \<in> set (snd st2)" "B \<subseteq> (chain_rel h m)\<^sup>* `` {y \<in> set xs. map_of m y \<noteq> None}"
      using Cons.IH by blast
    have "x \<in> set (snd st2)" using st1(3) grownD(1) [OF st2(2)] by blast
    moreover have "A \<union> B \<subseteq> (chain_rel h m)\<^sup>* `` {y \<in> set (x # xs). map_of m y \<noteq> None}"
    proof (rule Un_least)
      show "A \<subseteq> (chain_rel h m)\<^sup>* `` {y \<in> set (x # xs). map_of m y \<noteq> None}"
        using st1(4) by (rule order_trans) (rule Image_mono, use Some in auto)
      show "B \<subseteq> (chain_rel h m)\<^sup>* `` {y \<in> set (x # xs). map_of m y \<noteq> None}"
        using st2(4) by (rule order_trans) (rule Image_mono, auto)
    qed
    ultimately show ?thesis
      using Some st1(1) st2(1,3) grown_trans [OF st1(2) st2(2)] by (intro exI [of _ st2] exI [of _ "A \<union> B"]) simp
  qed
qed

lemma chain_step: "w \<in> chain_succs h m t \<Longrightarrow> (chain_rel h m)\<^sup>* `` {w} \<subseteq> (chain_rel h m)\<^sup>* `` {t}"
  by (auto intro: converse_rtrancl_into_rtrancl)

lemma level_ok:
  assumes keyed: "keyed h m" and m: "g_balancers g = m"
  shows "map_of m t = Some b \<Longrightarrow> card (fst ` set m - set (snd st)) \<le> k \<Longrightarrow>
    \<exists>st' A. level k h g b lev st = Some st' \<and> grown h g A st st' \<and> t \<in> set (snd st') \<and> A \<subseteq> (chain_rel h m)\<^sup>* `` {t}"
proof (induction k arbitrary: t b lev st)
  case (0 t b lev st)
  then have "fst ` set m - set (snd st) = {}" by simp
  then have t: "t \<in> set (snd st)" using map_of_Some_key [OF 0(1)] by blast
  then have "level 0 h g b lev st = Some st" using 0(1) keyed by (cases st) (auto simp: level.simps keyed_def)
  then show ?case using t by (intro exI [of _ st] exI [of _ "{}"]) simp
next
  case (Suc k t b lev st)
  obtain out sn where st: "st = (out, sn)" by fastforce
  have bt: "bal_tag (h b) = t" using keyed Suc.prems(1) by (simp add: keyed_def)
  show ?case
  proof (cases "t \<in> set sn")
    case True
    then have "level (Suc k) h g b lev st = Some st" using bt by (simp add: st level.simps)
    then show ?thesis using True st by (intro exI [of _ st] exI [of _ "{}"]) simp
  next
    case False
    let ?out1 = "out @ selector_edges g (h b) lev" and ?f = "fallbackTag (h b)" and ?R = "(chain_rel h m)\<^sup>*"
    have key: "t \<in> fst ` set m" using Suc.prems(1) by (rule map_of_Some_key)
    then have "fst ` set m - set (t # sn) \<subset> fst ` set m - set sn" using False by auto
    then have "card (fst ` set m - set (t # sn)) < card (fst ` set m - set sn)" by (rule psubset_card_mono [rotated]) simp
    then have k: "card (fst ` set m - set (snd (?out1, t # sn))) \<le> k" using Suc.prems(2) st by simp
    obtain st2 A where "member_levels (level k h g) m lev (members (h b)) (?out1, t # sn) = Some st2"
        "grown h g A (?out1, t # sn) st2" "\<forall>x \<in> set (members (h b)). map_of m x \<noteq> None \<longrightarrow> x \<in> set (snd st2)"
        "A \<subseteq> ?R `` {x \<in> set (members (h b)). map_of m x \<noteq> None}"
      using member_levels_ok [where f = "level k h g" and h = h, OF Suc.IH m k] by blast
    then obtain out2 sn2 where m2: "member_levels (level k h g) m lev (members (h b)) (?out1, t # sn) = Some (out2, sn2)"
        "grown h g A (?out1, t # sn) (out2, sn2)" "\<forall>x \<in> set (members (h b)). map_of m x \<noteq> None \<longrightarrow> x \<in> set sn2"
        "A \<subseteq> ?R `` {x \<in> set (members (h b)). map_of m x \<noteq> None}"
      by (cases st2) simp
    have "?R `` {x \<in> set (members (h b)). map_of m x \<noteq> None} \<subseteq> ?R `` {t}"
    proof -
      have "x \<in> chain_succs h m t" if "x \<in> set (members (h b))" "map_of m x \<noteq> None" for x
        using that Suc.prems(1) by (simp add: chain_succs_def)
      then show ?thesis using chain_step [of _ h m t] by blast
    qed
    then have A: "insert t A \<subseteq> ?R `` {t}" using m2(4) by blast
    let ?out3 = "out2 @ override_edges g (h b) lev"
    have step: "level (Suc k) h g b lev st =
        (if ?f = '''' then Some (?out3 @ g_reach g (g_def g) (lev @ '' default''), sn2)
         else case map_of m ?f of
           Some b2 \<Rightarrow> level k h g b2 (lev @ '' -> '' @ bal_tag (h b2)) (?out3, sn2)
         | None \<Rightarrow> Some (?out3 @ g_reach g (map_of (g_byTag g) ?f) (lev @ '' fallback''), sn2))"
      using False bt m m2(1) by (simp add: st level.simps Let_def)
    have ls: "lstates h g t = level_states g (h b)" using m Suc.prems(1) by simp
    have t2: "t \<in> set sn2" using grownD(1) [OF m2(2)] by simp
    have sub: "chain_succs h m t \<subseteq> set sn2 \<union> {w. w = ?f \<and> ?f \<noteq> '''' \<and> map_of m ?f \<noteq> None}"
      using m2(3) Suc.prems(1) by (auto simp: chain_succs_def)
    consider (none) "?f = ''''" | (outbound) "?f \<noteq> ''''" "map_of m ?f = None"
      | (balancer) b2 where "?f \<noteq> ''''" "map_of m ?f = Some b2" by blast
    then show ?thesis
    proof cases
      case none
      let ?o = "?out3 @ g_reach g (g_def g) (lev @ '' default'')"
      have "grown h g (insert t A) (out, sn) (?o, sn2)"
        by (rule grown_level [OF m2(2), where own = "le_to ` set (override_edges g (h b) lev) \<union> reached_states g (g_def g)"])
          (use key m sub none in \<open>auto simp: ls level_states_split [of g "h b" lev lev] image_Un le_to_reach\<close>)
      then show ?thesis using step none st A t2 by (intro exI [of _ "(?o, sn2)"] exI [of _ "insert t A"]) simp
    next
      case outbound
      let ?o = "?out3 @ g_reach g (map_of (g_byTag g) ?f) (lev @ '' fallback'')"
      have "grown h g (insert t A) (out, sn) (?o, sn2)"
        by (rule grown_level [OF m2(2), where own = "le_to ` set (override_edges g (h b) lev) \<union> reached_states g (map_of (g_byTag g) ?f)"])
          (use key m sub outbound in \<open>auto simp: ls level_states_split [of g "h b" lev lev] image_Un le_to_reach\<close>)
      then show ?thesis using step outbound st A t2 by (intro exI [of _ "(?o, sn2)"] exI [of _ "insert t A"]) simp
    next
      case balancer
      have "card (fst ` set m - set sn2) \<le> card (fst ` set m - set (t # sn))"
        using grownD(1) [OF m2(2)] by (intro card_mono) auto
      then have "card (fst ` set m - set (snd (?out3, sn2))) \<le> k" using k by simp
      then obtain st4 B where st4: "level k h g b2 (lev @ '' -> '' @ bal_tag (h b2)) (?out3, sn2) = Some st4"
          "grown h g B (?out3, sn2) st4" "?f \<in> set (snd st4)" "B \<subseteq> ?R `` {?f}"
        using Suc.IH [OF balancer(2)] by blast
      have "?f \<in> chain_succs h m t" using balancer Suc.prems(1) by (simp add: chain_succs_def)
      then have B: "insert t (A \<union> B) \<subseteq> ?R `` {t}" using A st4(4) chain_step [of ?f h m t] by blast
      obtain out4 sn4 where st4': "st4 = (out4, sn4)" by fastforce
      have g4: "grown h g (A \<union> B) (?out1 @ override_edges g (h b) lev, t # sn) (out4, sn4)"
        by (rule grown_trans [OF _ st4(2) [unfolded st4']]) (use m2(2) in \<open>auto simp: grown_def image_Un\<close>)
      have sn4: "set sn2 \<subseteq> set sn4" using grownD(1) [OF st4(2)] unfolding st4' by simp
      then have "grown h g (insert t (A \<union> B)) (out, sn) (out4, sn4)"
        by (intro grown_level [OF g4, where own = "{}"])
          (use key m sub balancer st4(3) in \<open>auto simp: st4' ls level_states_split [of g "h b" lev lev] image_Un\<close>)
      then show ?thesis using step balancer st st4(1) B t2 sn4 by (intro exI [of _ st4] exI [of _ "insert t (A \<union> B)"]) (auto simp: st4')
    qed
  qed
qed

text \<open>The states that the chain from balancer \<open>t\<close> leads to.\<close>

definition chain_states :: "heap \<Rightarrow> ('d, 'i) loopGraph \<Rightarrow> string \<Rightarrow> string set" where
  "chain_states h g t = \<Union> (lstates h g ` ((chain_rel h (g_balancers g))\<^sup>* `` {t}))"

lemma g_chain_ok:
  assumes "keyed h (g_balancers g)" "map_of (g_balancers g) t = Some b"
  shows "\<exists>out. g_chain h g b label = Some out \<and> le_to ` set out = chain_states h g t"
proof -
  let ?m = "g_balancers g" and ?R = "(chain_rel h (g_balancers g))\<^sup>*"
  have "card (fst ` set ?m - set (snd ([], []))) \<le> length ?m" using card_length [of "map fst ?m"] by simp
  then obtain st A where st: "level (length ?m) h g b (label @ '', balancer '' @ bal_tag (h b)) ([], []) = Some st"
      "grown h g A ([], []) st" "t \<in> set (snd st)" "A \<subseteq> ?R `` {t}"
    using level_ok [OF assms(1) refl assms(2)] by blast
  have A: "set (snd st) = A" using grownD(1) [OF st(2)] by simp
  have "u \<in> A" if "(t, u) \<in> ?R" for u
    using that
  proof (induction rule: rtrancl_induct)
    case base
    show ?case using st(3) A by simp
  next
    case (step y z)
    then show ?case using grownD(3) [OF st(2)] A by auto
  qed
  then have "A = ?R `` {t}" using st(4) by auto
  then have "le_to ` set (fst st) = chain_states h g t" using grownD(4) [OF st(2)] by (simp add: chain_states_def)
  then show ?thesis using st(1) by (simp add: g_chain_def)
qed

section \<open>Every rule that may be taken is accounted for\<close>

text \<open>The balancers of the rules are those of the map.\<close>

definition rules_known :: "heap \<Rightarrow> balancer_map \<Rightarrow> ('d, 'i) Rule list \<Rightarrow> bool" where
  "rules_known h m rules \<longleftrightarrow> keyed h m
     \<and> (\<forall>rule \<in> set rules. \<forall>b. rule_Balancer rule = Some b \<longrightarrow> (\<exists>t. map_of m t = Some b))"

definition rule_states :: "heap \<Rightarrow> ('d, 'i) loopGraph \<Rightarrow> ('d, 'i) Rule \<Rightarrow> string set" where
  "rule_states h g rule =
     (case rule_Balancer rule of
        Some b \<Rightarrow> chain_states h g (bal_tag (h b))
      | None \<Rightarrow> reached_states g (map_of (g_byTag g) (rule_Tag rule)))"

lemma rule_edges_ok:
  assumes "rules_known h (g_balancers g) rules" "rule \<in> set rules"
  shows "\<exists>out. (case rule_Balancer rule of
                  Some b \<Rightarrow> g_chain h g b label
                | None \<Rightarrow> Some (g_reach g (map_of (g_byTag g) (rule_Tag rule)) label)) = Some out
    \<and> le_to ` set out = rule_states h g rule"
proof (cases "rule_Balancer rule")
  case None
  then show ?thesis by (simp add: rule_states_def le_to_reach)
next
  case (Some b)
  then obtain t where t: "map_of (g_balancers g) t = Some b" using assms by (auto simp: rules_known_def)
  have k: "keyed h (g_balancers g)" using assms(1) by (simp add: rules_known_def)
  then have "bal_tag (h b) = t" using t by (simp add: keyed_def)
  then show ?thesis using g_chain_ok [OF k t, of label] Some by (simp add: rule_states_def)
qed

definition inbound_may_match :: "('d, 'i) Rule \<Rightarrow> string \<Rightarrow> bool" where
  "inbound_may_match rule state \<longleftrightarrow> rr_InboundTag (rule_Config rule) = [] \<or> state \<in> set (rr_InboundTag (rule_Config rule))"

text \<open>A rule that the walk cannot pass: its only condition is an inbound tag, and it is this one.\<close>

definition ends_walk :: "('d, 'i) Rule \<Rightarrow> string \<Rightarrow> bool" where
  "ends_walk rule state \<longleftrightarrow> matchesOnInboundOnly (rule_Config rule) \<and> state \<in> set (rr_InboundTag (rule_Config rule))"

text \<open>The states to which routing may bring a connection whose inbound tag is \<open>state\<close>.\<close>

fun walk_states :: "heap \<Rightarrow> ('d, 'i) loopGraph \<Rightarrow> string \<Rightarrow> ('d, 'i) Rule list \<Rightarrow> string set" where
  "walk_states h g state [] = reached_states g (g_def g)"
| "walk_states h g state (rule # rules) =
     (if inbound_may_match rule state then rule_states h g rule else {})
     \<union> (if ends_walk rule state then {} else walk_states h g state rules)"

lemma from_loop_ok:
  assumes "rules_known h (g_balancers g) rules"
  shows "\<exists>out. from_loop h g state i rules = Some out \<and> le_to ` set out = walk_states h g state rules"
  using assms
proof (induction rules arbitrary: i)
  case Nil
  then show ?case by (simp add: le_to_reach)
next
  case (Cons r rules)
  have known: "rules_known h (g_balancers g) rules" using Cons.prems by (auto simp: rules_known_def)
  obtain out1 where out1: "from_loop h g state (i + 1) rules = Some out1" "le_to ` set out1 = walk_states h g state rules"
    using Cons.IH [OF known, of "i + 1"] by blast
  obtain out0 where out0: "(case rule_Balancer r of
        Some b \<Rightarrow> g_chain h g b (rule_label i r)
      | None \<Rightarrow> Some (g_reach g (map_of (g_byTag g) (rule_Tag r)) (rule_label i r))) = Some out0"
      "le_to ` set out0 = rule_states h g r"
    using rule_edges_ok [OF Cons.prems, of r "rule_label i r"] by auto
  consider (skip) "\<not> inbound_may_match r state" | (ends) "inbound_may_match r state" "matchesOnInboundOnly (rule_Config r)"
    | (more) "inbound_may_match r state" "\<not> matchesOnInboundOnly (rule_Config r)" by blast
  then show ?case
  proof cases
    case skip
    then have "from_loop h g state i (r # rules) = Some out1" "\<not> ends_walk r state"
      using out1(1) by (simp_all add: inbound_may_match_def ends_walk_def)
    then show ?thesis using out1(2) skip by simp
  next
    case ends
    then have "from_loop h g state i (r # rules) = Some out0"
      using out0(1) by (auto simp: inbound_may_match_def Let_def)
    moreover have "ends_walk r state"
      using ends by (auto simp: ends_walk_def matchesOnInboundOnly_def inbound_may_match_def)
    ultimately show ?thesis using out0(2) ends(1) by simp
  next
    case more
    then have "from_loop h g state i (r # rules) = Some (out0 @ out1)" "\<not> ends_walk r state"
      using out0(1) out1(1) by (auto simp: inbound_may_match_def ends_walk_def Let_def)
    then show ?thesis using out0(2) out1(2) more(1) by (simp add: image_Un)
  qed
qed

lemma state_edges_ok:
  assumes "rules_known h (g_balancers g) (g_rules g)"
  shows "\<exists>edges. state_edges h g ss = Some edges \<and> map fst edges = ss
    \<and> (\<forall>s \<in> set ss. set (loop_succs edges s) = walk_states h g s (g_rules g))"
proof -
  have *: "\<exists>edges. state_edges h g ss = Some edges \<and> map fst edges = ss
    \<and> (\<forall>(s, es) \<in> set edges. le_to ` set es = walk_states h g s (g_rules g))"
  proof (induction ss)
    case (Cons s ss)
    obtain es where "g_from h g s = Some es" "le_to ` set es = walk_states h g s (g_rules g)"
      using from_loop_ok [OF assms, of s 0] unfolding g_from_def by blast
    then show ?case using Cons.IH by auto
  qed simp
  then obtain edges where e: "state_edges h g ss = Some edges" "map fst edges = ss"
      "\<forall>(s, es) \<in> set edges. le_to ` set es = walk_states h g s (g_rules g)"
    by blast
  have "set (loop_succs edges s) = walk_states h g s (g_rules g)" if "s \<in> set ss" for s
  proof -
    have "s \<in> fst ` set edges" using that e(2) by (metis list.set_map)
    then obtain es where "map_of edges s = Some es" by (metis map_of_eq_None_iff option.exhaust)
    then show ?thesis using e(3) map_of_SomeD by (fastforce simp: targets_def edges_at_def)
  qed
  then show ?thesis using e(1,2) by blast
qed

text \<open>The graph over handlers \<open>hs\<close> that the check builds, and its moves between states.\<close>

definition check_graph :: "('d, 'i) loopGraph \<Rightarrow> handler list \<Rightarrow> ('d, 'i) loopGraph" where
  "check_graph g hs = g\<lparr>g_byTag := by_tag hs, g_tags := sort (map fst (by_tag hs))\<rparr>"

definition moves :: "heap \<Rightarrow> ('d, 'i) loopGraph \<Rightarrow> handler list \<Rightarrow> (string \<times> string) set" where
  "moves h g hs = {(s, s'). s \<in> set (loop_states hs) \<and> s' \<in> walk_states h (check_graph g hs) s (g_rules g)}"

lemma loopbackLoops_ok:
  assumes "rules_known h (g_balancers g) (g_rules g)"
  shows "\<exists>r. loopbackLoops h g hs = Some r \<and> (r = None \<longleftrightarrow> acyclic (moves h g hs))"
proof -
  let ?g = "check_graph g hs"
  have known: "rules_known h (g_balancers ?g) (g_rules ?g)" using assms by (simp add: check_graph_def)
  obtain edges where e: "state_edges h ?g (loop_states hs) = Some edges" "map fst edges = loop_states hs"
      "\<forall>s \<in> set (loop_states hs). set (loop_succs edges s) = walk_states h ?g s (g_rules ?g)"
    using state_edges_ok [OF known, of "loop_states hs"] by blast
  obtain cs cy where cs: "stronglyConnected edges = Some cs" "loop_cycles edges cs = Some cy"
      "cy = [] \<longleftrightarrow> acyclic (succs (loop_succs edges))"
    using loop_graph_decided by blast
  have r: "loopbackLoops h g hs = Some (if loop_states hs = [] \<or> cy = [] then None
      else Some (Err (''loopback loop: '' @ join_sep ''; '' (sort cy))))"
    using e(1) cs(1,2) by (simp add: loopbackLoops_def Let_def check_graph_def)
  have "s \<in> set (loop_states hs)" if "s' \<in> set (loop_succs edges s)" for s s'
    using loop_succs_key [OF that] e(2) by (metis list.set_map)
  then have "succs (loop_succs edges) = moves h g hs"
    using e(3) by (auto simp: succs_def moves_def check_graph_def)
  moreover have "acyclic (moves h g hs)" if "loop_states hs = []" using that by (simp add: moves_def acyclic_def)
  ultimately show ?thesis using r cs(3) by auto
qed

text \<open>
  C5: the loop check always returns, and it accepts exactly when no sequence of moves leads from an
  inbound tag that a loopback feeds back to that tag, where a move takes any rule whose inbound tags
  admit the connection and that no earlier rule on the inbound tag alone shadows (or the default
  outbound after the last), any level of the rule's balancer chain, and the dialer proxies of the
  outbound reached there.
\<close>

theorem loopbackLoops_decides:
  assumes "rules_known h (g_balancers g) (g_rules g)"
  shows "\<exists>r. loopbackLoops h g hs = Some r \<and> (r = None \<longleftrightarrow> acyclic (moves h g hs))"
  using loopbackLoops_ok [OF assms] .

definition loopback_handler :: "string \<Rightarrow> string \<Rightarrow> handler" where
  "loopback_handler tag inbound =
     \<lparr>handler_id = 1, handler_tag = tag, view = Some \<lparr>DialerProxy = '''', LoopbackInbound = Some inbound\<rparr>, proxy_type = '''',
      start_error = None, retirement = None\<rparr>"

definition sample_graph :: "string list \<Rightarrow> (nat, nat) loopGraph" where
  "sample_graph inbounds =
     \<lparr>g_rules = [\<lparr>rule_Tag = ''out'', rule_RuleTag = ''r'', rule_Balancer = None, rule_Condition = [], rule_Webhook = None,
        rule_Config = sample_rule\<lparr>rr_InboundTag := inbounds, rr_PortList := None\<rparr>\<rparr>],
      g_balancers = [], g_override = Map.empty, g_byTag = [], g_tags = [], g_def = Some (loopback_handler ''lo'' ''in'')\<rparr>"

definition sample_handlers :: "handler list" where
  "sample_handlers = [loopback_handler ''lo'' ''in'', sample_handler ''out'' '''']"

lemma sample_graph_known: "rules_known h (g_balancers (sample_graph ins)) (g_rules (sample_graph ins))"
  by (simp add: rules_known_def keyed_def sample_graph_def)

lemma sample_graph_check:
  "loopbackLoops h (sample_graph [''in'']) sample_handlers = Some None"
  "loopbackLoops h (sample_graph [''other'']) sample_handlers =
     Some (Some (Err ''loopback loop: in -> [default] lo -> in''))"
  by code_simp+

theorem loopbackLoops_decides_witness:
  "acyclic (moves sample_heap (sample_graph [''in'']) sample_handlers)
    \<and> \<not> acyclic (moves sample_heap (sample_graph [''other'']) sample_handlers)"
  using loopbackLoops_decides [OF sample_graph_known, of sample_heap "[''in'']" sample_handlers]
    loopbackLoops_decides [OF sample_graph_known, of sample_heap "[''other'']" sample_handlers]
    sample_graph_check [of sample_heap]
  by auto

section \<open>Which balancers need their outbounds observed\<close>

definition obs_succs :: "heap \<Rightarrow> balancer_map \<Rightarrow> string \<Rightarrow> string set" where
  "obs_succs h m u = {w. \<exists>b. map_of m u = Some b \<and> (w \<in> set (members (h b)) \<or> w = fallbackTag (h b)) \<and> map_of m w \<noteq> None}"

abbreviation obs_rel :: "heap \<Rightarrow> balancer_map \<Rightarrow> (string \<times> string) set" where
  "obs_rel h m \<equiv> {(u, w). w \<in> obs_succs h m u}"

abbreviation known_tags :: "balancer_map \<Rightarrow> string list \<Rightarrow> string set" where
  "known_tags m tags \<equiv> {t \<in> set tags. map_of m t \<noteq> None}"

lemma reach_tags_ok:
  "card (fst ` set m - set reached) \<le> k \<Longrightarrow>
    \<exists>r A. reach_tags k h m tags reached = Some r \<and> set r = set reached \<union> A \<and> A \<subseteq> (obs_rel h m)\<^sup>* `` known_tags m tags
      \<and> known_tags m tags \<subseteq> set r \<and> \<Union> (obs_succs h m ` A) \<subseteq> set r"
proof (induction k h m tags reached rule: reach_tags.induct)
  case (1 k h m reached)
  then show ?case by simp
next
  case (2 k h m tag tags reached)
  have sub: "known_tags m tags \<subseteq> known_tags m (tag # tags)" by auto
  show ?case
  proof (cases "map_of m tag")
    case None
    then have eq: "reach_tags k h m (tag # tags) reached = reach_tags k h m tags reached"
        "known_tags m (tag # tags) = known_tags m tags" by auto
    show ?thesis unfolding eq using "2.IH"(1) [OF None "2.prems"] .
  next
    case (Some b)
    show ?thesis
    proof (cases "tag \<in> set reached")
      case True
      then obtain r A where "reach_tags k h m tags reached = Some r" "set r = set reached \<union> A" "A \<subseteq> (obs_rel h m)\<^sup>* `` known_tags m tags"
          "known_tags m tags \<subseteq> set r" "\<Union> (obs_succs h m ` A) \<subseteq> set r"
        using "2.IH"(2) [OF Some True "2.prems"] by blast
      then show ?thesis using True Some Image_mono [OF order_refl sub, of "(obs_rel h m)\<^sup>*"]
        by (intro exI [of _ r] exI [of _ A]) auto
    next
      case False
      have key: "tag \<in> fst ` set m" using Some by (rule map_of_Some_key)
      then have "fst ` set m - set (tag # reached) \<subset> fst ` set m - set reached" using False by auto
      then have "card (fst ` set m - set (tag # reached)) < card (fst ` set m - set reached)" by (rule psubset_card_mono [rotated]) simp
      then obtain j where j: "k = Suc j" "card (fst ` set m - set (tag # reached)) \<le> j"
        using "2.prems" by (cases k) auto
      let ?ts = "members (h b) @ [fallbackTag (h b)]"
      obtain r1 A where 1: "reach_tags j h m ?ts (tag # reached) = Some r1" "set r1 = set (tag # reached) \<union> A"
          "A \<subseteq> (obs_rel h m)\<^sup>* `` known_tags m ?ts" "known_tags m ?ts \<subseteq> set r1" "\<Union> (obs_succs h m ` A) \<subseteq> set r1"
        using "2.IH"(3) [OF Some False j(1)] j(2) by blast
      have "card (fst ` set m - set r1) \<le> card (fst ` set m - set (tag # reached))" using 1(2) by (intro card_mono) auto
      then have "card (fst ` set m - set r1) \<le> Suc j" using j(2) by simp
      then obtain r2 B where 2: "reach_tags (Suc j) h m tags r1 = Some r2" "set r2 = set r1 \<union> B"
          "B \<subseteq> (obs_rel h m)\<^sup>* `` known_tags m tags" "known_tags m tags \<subseteq> set r2" "\<Union> (obs_succs h m ` B) \<subseteq> set r2"
        using "2.IH"(4) [OF Some False j(1) 1(1)] by blast
      have succs: "known_tags m ?ts = obs_succs h m tag" using Some by (auto simp: obs_succs_def)
      have "(obs_rel h m)\<^sup>* `` obs_succs h m tag \<subseteq> (obs_rel h m)\<^sup>* `` {tag}"
        by (auto intro: converse_rtrancl_into_rtrancl)
      then have A: "A \<subseteq> (obs_rel h m)\<^sup>* `` {tag}" using 1(3) unfolding succs by blast
      have "reach_tags k h m (tag # tags) reached = Some r2" using Some False 1(1) 2(1) by (simp add: j(1))
      moreover have "set r2 = set reached \<union> insert tag (A \<union> B)" using 1(2) 2(2) by auto
      moreover have "insert tag (A \<union> B) \<subseteq> (obs_rel h m)\<^sup>* `` known_tags m (tag # tags)"
        using A 2(3) Some Image_mono [OF order_refl sub, of "(obs_rel h m)\<^sup>*"] by auto
      moreover have "known_tags m (tag # tags) \<subseteq> set r2" using 2(2,4) 1(2) by auto
      moreover have "\<Union> (obs_succs h m ` insert tag (A \<union> B)) \<subseteq> set r2"
        using 1(4,5) 2(2,5) unfolding succs by auto
      ultimately show ?thesis by blast
    qed
  qed
qed

lemma reach_tags_closure:
  "\<exists>r. reach_tags (length m) h m tags [] = Some r \<and> set r = (obs_rel h m)\<^sup>* `` known_tags m tags"
proof -
  have "card (fst ` set m - set []) \<le> length m" using card_length [of "map fst m"] by simp
  from reach_tags_ok [OF this, of h tags] obtain r where r: "reach_tags (length m) h m tags [] = Some r"
      "set r \<subseteq> (obs_rel h m)\<^sup>* `` known_tags m tags" "known_tags m tags \<subseteq> set r" "\<Union> (obs_succs h m ` set r) \<subseteq> set r"
    by auto
  have "w \<in> set r" if "(u, w) \<in> (obs_rel h m)\<^sup>*" "u \<in> set r" for u w
    using that by (induction rule: rtrancl_induct) (use r(4) in auto)
  then have "set r = (obs_rel h m)\<^sup>* `` known_tags m tags" using r(2,3) by blast
  then show ?thesis using r(1) by blast
qed

definition observed_balancers :: "heap \<Rightarrow> balancer_map \<Rightarrow> string set" where
  "observed_balancers h m = (obs_rel h m)\<^sup>* `` {t. \<exists>b. map_of m t = Some b \<and> members (h b) \<noteq> []}"


definition member_heap :: heap where
  "member_heap r =
     (if r = 0 then \<lparr>bal_tag = ''top'', selectors = [], strategy = LeastPing, fallbackTag = '''', members = [''in''], override_target = ''''\<rparr>
      else \<lparr>bal_tag = ''in'', selectors = [''a''], strategy = LeastPing, fallbackTag = ''b'', members = [], override_target = ''''\<rparr>)"

definition all_observed :: "(string \<Rightarrow> bool) \<Rightarrow> bool" where
  "all_observed observes \<longleftrightarrow>
     (\<forall>tag \<in> observed_balancers member_heap [(''top'', 0), (''in'', 1)].
        \<forall>out \<in> set (observed_outbounds member_heap [(''top'', 0), (''in'', 1)] (all_by_tag [sample_handler ''a1'' '''']) tag). observes out)"


end
