(* ===== verification/Routing.thy ===== *)
theory Routing
  imports Router_Loops
begin

text \<open>
  The router as a state: \<open>app/router/router.go\<close>, \<open>Build\<close> of \<open>config.go\<close>, \<open>pickTag\<close> of
  \<open>fallback_chain.go\<close>, \<open>SetOverrideTarget\<close> of \<open>balancing.go\<close>, the guards of \<open>loops.go\<close> and the
  resolving context of \<open>features/routing/dns\<close>.  The operations that change routing hold the graph
  lock and the router's lock, so each is one step; a pick reads the published rules and, later, the
  map of balancers its rule was published with, so its two halves are separate functions.
\<close>

section \<open>Building balancers\<close>

text \<open>The strategy's settings: what \<open>GetInstance\<close> makes of the typed message.\<close>

datatype strategy_settings = NoInstance go_error | LeastLoadConfig LeastLoad | WeightedLeastPingConfig | OtherConfig

record BalancingRule =
  br_Tag :: string
  br_OutboundSelector :: "string list"
  br_Strategy :: string
  br_StrategySettings :: strategy_settings
  br_FallbackTag :: string
  br_Balancers :: "string list"

definition new_Balancer :: "BalancingRule \<Rightarrow> strategy \<Rightarrow> Balancer" where
  "new_Balancer br s =
     \<lparr>bal_tag = br_Tag br, selectors = br_OutboundSelector br, strategy = s, fallbackTag = br_FallbackTag br,
      members = [], override_target = ''''\<rparr>"

definition build :: "('d, 'i) platform \<Rightarrow> BalancingRule \<Rightarrow> Balancer res" where
  "build P br =
     (let kind = ToLower P (br_Strategy br)
      in if kind = ''leastping'' then Inr (new_Balancer br LeastPing)
         else if kind = ''roundrobin'' then Inr (new_Balancer br (RoundRobin 0))
         else if kind = ''leastload'' then
           (case br_StrategySettings br of
              NoInstance err \<Rightarrow> Inl err
            | LeastLoadConfig s \<Rightarrow> Inr (new_Balancer br (LeastLoadStrategy s))
            | _ \<Rightarrow> Inl (Err ''not a StrategyLeastLoadConfig''))
         else if kind = ''weightedleastping'' then
           (case br_StrategySettings br of
              NoInstance err \<Rightarrow> Inl err
            | WeightedLeastPingConfig \<Rightarrow> Inr (new_Balancer br WeightedLeastPing)
            | _ \<Rightarrow> Inl (Err ''not a StrategyWeightedLeastPingConfig''))
         else if kind = ''random'' \<or> kind = '''' then Inr (new_Balancer br Random)
         else Inl (Err ''unrecognized balancer type''))"

definition Build :: "('d, 'i) platform \<Rightarrow> BalancingRule \<Rightarrow> Balancer res" where
  "Build P br = map_sum id (\<lambda>b. b\<lparr>members := br_Balancers br\<rparr>) (build P br)"

section \<open>The state\<close>

datatype DomainStrategy = AsIs | IpIfNonMatch | IpOnDemand

record ('d, 'i) Route =
  route_Context :: rctx
  outboundTag :: string
  ruleTag :: string
  route_rule :: "('d, 'i) RoutingRule option"

text \<open>
  \<open>script\<close> is the routing script, which replaces the rules.  Balancers are allocated from \<open>next_ref\<close>;
  \<open>peers\<close> is the field of a balancer that names the newest published map that contains it;
  \<open>injected\<close> are the balancers whose strategy was given the instance.  Webhook notifiers are numbered
  in the order of their creation; \<open>closed_hooks\<close> are those that were closed, \<open>fired\<close> the calls of \<open>Fire\<close>.
\<close>

record ('d, 'i) Router =
  domainStrategy :: DomainStrategy
  script :: "(rctx \<Rightarrow> ('d, 'i) Route res) option"
  rules :: "('d, 'i) Rule list"
  balancers :: balancer_map
  objects :: heap
  next_ref :: nat
  peers :: "ref \<rightharpoonup> balancer_map"
  injected :: "ref list"
  next_hook :: nat
  closed_hooks :: "nat list"
  fired :: "(nat \<times> rctx \<times> string) list"
  fallbackChainGuard :: u64
  loopbackReentryGuard :: u64
  started :: bool

record ('d, 'i) Config =
  cfg_DomainStrategy :: DomainStrategy
  cfg_Rule :: "('d, 'i) RoutingRule list"
  cfg_BalancingRule :: "BalancingRule list"

section \<open>The guards\<close>

definition checkLoopbacks :: "('d, 'i) Router \<Rightarrow> heap \<Rightarrow> ('d, 'i) Rule list \<Rightarrow> balancer_map \<Rightarrow> (string \<rightharpoonup> string)
    \<Rightarrow> handler list \<Rightarrow> handler option \<Rightarrow> go_error option option" where
  "checkLoopbacks r h rs m override hs def =
     (if script r \<noteq> None then Some None
      else loopbackLoops h
             \<lparr>g_rules = rs, g_balancers = m, g_override = override, g_byTag = [], g_tags = [], g_def = def\<rparr> hs)"

definition CheckLoopbackLoops :: "(string \<Rightarrow> bool) \<Rightarrow> ('d, 'i) Router \<Rightarrow> handler list \<Rightarrow> handler option
    \<Rightarrow> (go_error option \<times> ('d, 'i) Router) option" where
  "CheckLoopbackLoops observes r hs def =
     (case checkMemberObservation observes (objects r) (balancers r) hs of
        None \<Rightarrow> None
      | Some (Some err) \<Rightarrow> Some (Some err, r)
      | Some None \<Rightarrow>
          map_option (\<lambda>err. (err, r\<lparr>started := True\<rparr>))
            (checkLoopbacks r (objects r) (rules r) (balancers r) Map.empty hs def))"

text \<open>\<open>ohm\<close> is \<open>None\<close> for an outbound manager that is no \<open>GraphGuard\<close>.\<close>

definition guardRouting :: "(string \<Rightarrow> bool) \<Rightarrow> Manager option \<Rightarrow> ('d, 'i) Router \<Rightarrow> heap \<Rightarrow> ('d, 'i) Rule list \<Rightarrow> balancer_map
    \<Rightarrow> (string \<rightharpoonup> string) \<Rightarrow> go_error option option" where
  "guardRouting observes ohm r h rs m override =
     (case ohm of
        None \<Rightarrow> Some None
      | Some mgr \<Rightarrow>
          (case (if started r then checkMemberObservation observes h m (ListHandlers mgr) else Some None) of
             None \<Rightarrow> None
           | Some (Some err) \<Rightarrow> Some (Some err)
           | Some None \<Rightarrow> checkLoopbacks r h rs m override (ListHandlers mgr) (defaultHandler mgr)))"

section \<open>Changing the rules\<close>

definition hooks :: "('d, 'i) Rule list \<Rightarrow> nat list" where
  "hooks rs = List.map_filter rule_Webhook rs"

definition closeWebhooks :: "('d, 'i) Rule list \<Rightarrow> ('d, 'i) Router \<Rightarrow> ('d, 'i) Router" where
  "closeWebhooks rs r = r\<lparr>closed_hooks := closed_hooks r @ hooks rs\<rparr>"

fun build_balancers :: "('d, 'i) platform \<Rightarrow> BalancingRule list \<Rightarrow> balancer_map \<times> heap \<times> nat \<Rightarrow> (balancer_map \<times> heap \<times> nat) res" where
  "build_balancers P [] st = Inr st"
| "build_balancers P (br # brs) (m, h, n) =
     (if map_of m (br_Tag br) \<noteq> None then Inl (Err ''duplicate balancer tag'')
      else case Build P br of
        Inl err \<Rightarrow> Inl err
      | Inr b \<Rightarrow> build_balancers P brs (m @ [(br_Tag br, n)], h(n := b), n + 1))"

fun GetTag :: "target_tag \<Rightarrow> string" where
  "GetTag (Tag t) = t"
| "GetTag _ = ''''"

fun GetBalancingTag :: "target_tag \<Rightarrow> string" where
  "GetBalancingTag (BalancingTag t) = t"
| "GetBalancingTag _ = ''''"

text \<open>
  The loop over the rules: its error, the rules created, and the next notifier.  \<open>newWebhook\<close> says
  whether creating a notifier fails.
\<close>

fun build_rules :: "('d, 'i) platform \<Rightarrow> (('d, 'i) RoutingRule \<Rightarrow> go_error option) \<Rightarrow> balancer_map \<Rightarrow> ('d, 'i) RoutingRule list
    \<Rightarrow> string list \<Rightarrow> nat \<Rightarrow> ('d, 'i) Rule list \<Rightarrow> go_error option \<times> ('d, 'i) Rule list \<times> nat" where
  "build_rules P newWebhook m [] existTags n created = (None, created, n)"
| "build_rules P newWebhook m (rule # rest) existTags n created =
     (case BuildCondition P rule of
        Inl err \<Rightarrow> (Some err, created, n)
      | Inr cond \<Rightarrow>
          if RuleTag rule \<noteq> '''' \<and> RuleTag rule \<in> set existTags
          then (Some (Err (''duplicate ruleTag '' @ RuleTag rule)), created, n)
          else
            (case (if rr_Webhook rule then newWebhook rule else None) of
               Some err \<Rightarrow> (Some err, created, n)
             | None \<Rightarrow>
                 (let rr = \<lparr>rule_Tag = GetTag (TargetTag rule), rule_RuleTag = RuleTag rule, rule_Balancer = None,
                            rule_Condition = cond, rule_Webhook = (if rr_Webhook rule then Some n else None), rule_Config = rule\<rparr>;
                      n' = (if rr_Webhook rule then n + 1 else n);
                      btag = GetBalancingTag (TargetTag rule)
                  in if length btag > 0 then
                       (case map_of m btag of
                          None \<Rightarrow> (Some (Err (''balancer '' @ btag @ '' not found'')), created @ [rr], n')
                        | Some b \<Rightarrow>
                            build_rules P newWebhook m rest (RuleTag rule # existTags) n' (created @ [rr\<lparr>rule_Balancer := Some b\<rparr>]))
                     else build_rules P newWebhook m rest (RuleTag rule # existTags) n' (created @ [rr]))))"

definition publish :: "('d, 'i) Config \<Rightarrow> bool \<Rightarrow> balancer_map \<Rightarrow> heap \<Rightarrow> nat \<Rightarrow> ('d, 'i) Rule list \<Rightarrow> ('d, 'i) Router \<Rightarrow> ('d, 'i) Router" where
  "publish config shouldAppend m h n newRules r =
     (let r1 = r\<lparr>objects := h, next_ref := n,
                injected := injected r @ map (\<lambda>br. the (map_of m (br_Tag br))) (cfg_BalancingRule config),
                peers := (\<lambda>b. if b \<in> snd ` set m then Some m else peers r b),
                balancers := m, rules := newRules\<rparr>
      in if \<not> shouldAppend then closeWebhooks (rules r) r1 else r1)"

definition reloadRules :: "('d, 'i) platform \<Rightarrow> (('d, 'i) RoutingRule \<Rightarrow> go_error option) \<Rightarrow> (string \<Rightarrow> bool) \<Rightarrow> Manager option
    \<Rightarrow> ('d, 'i) Config \<Rightarrow> bool \<Rightarrow> ('d, 'i) Router \<Rightarrow> (go_error option \<times> ('d, 'i) Router) option" where
  "reloadRules P newWebhook observes ohm config shouldAppend r =
     (let oldRules = rules r; oldBalancers = balancers r
      in case build_balancers P (cfg_BalancingRule config)
                (if shouldAppend then oldBalancers else [], objects r, next_ref r) of
           Inl err \<Rightarrow> Some (Some err, r)
         | Inr (m, h, n) \<Rightarrow>
             (let (err, created, n') =
                    build_rules P newWebhook m (cfg_Rule config)
                      (if shouldAppend then map rule_RuleTag oldRules else []) (next_hook r) [];
                  r1 = r\<lparr>next_hook := n'\<rparr>;
                  newRules = (if shouldAppend then oldRules else []) @ created
              in case err of
                   Some e \<Rightarrow> Some (Some e, closeWebhooks created r1)
                 | None \<Rightarrow>
                     (case checkBalancerGraph h m of
                        None \<Rightarrow> None
                      | Some (Some e) \<Rightarrow> Some (Some e, closeWebhooks created r1)
                      | Some None \<Rightarrow>
                          (case guardRouting observes ohm r h newRules m Map.empty of
                             None \<Rightarrow> None
                           | Some (Some e) \<Rightarrow> Some (Some e, closeWebhooks created r1)
                           | Some None \<Rightarrow> Some (None, publish config shouldAppend m h n newRules r1)))))"

definition RemoveRule :: "(string \<Rightarrow> bool) \<Rightarrow> Manager option \<Rightarrow> string \<Rightarrow> ('d, 'i) Router \<Rightarrow> (go_error option \<times> ('d, 'i) Router) option" where
  "RemoveRule observes ohm tag r =
     (if tag = '''' then Some (Some (Err ''empty tag name!''), r)
      else
        let newRules = filter (\<lambda>rule. rule_RuleTag rule \<noteq> tag) (rules r);
            removed = filter (\<lambda>rule. rule_RuleTag rule = tag) (rules r)
        in case guardRouting observes ohm r (objects r) newRules (balancers r) Map.empty of
             None \<Rightarrow> None
           | Some (Some err) \<Rightarrow> Some (Some err, r)
           | Some None \<Rightarrow> Some (None, closeWebhooks removed (r\<lparr>rules := newRules\<rparr>)))"

definition ListRule :: "('d, 'i) Router \<Rightarrow> (string \<times> string \<times> ('d, 'i) RoutingRule) list" where
  "ListRule r = map (\<lambda>rule. (rule_Tag rule, rule_RuleTag rule, rule_Config rule)) (rules r)"

definition SetOverrideTarget :: "(string \<Rightarrow> bool) \<Rightarrow> Manager option \<Rightarrow> string \<Rightarrow> string \<Rightarrow> ('d, 'i) Router
    \<Rightarrow> (go_error option \<times> ('d, 'i) Router) option" where
  "SetOverrideTarget observes ohm tag target r =
     (case map_of (balancers r) tag of
        None \<Rightarrow> Some (Some (Err ''cannot find tag''), r)
      | Some b \<Rightarrow>
          if map_of (balancers r) target \<noteq> None then Some (Some (Err (''override target '' @ target @ '' is a balancer'')), r)
          else
            (case (if target \<noteq> '''' then guardRouting observes ohm r (objects r) (rules r) (balancers r) [tag \<mapsto> target]
                   else Some None) of
               None \<Rightarrow> None
             | Some (Some err) \<Rightarrow> Some (Some err, r)
             | Some None \<Rightarrow> Some (None, r\<lparr>objects := (objects r)(b := override_Put target (objects r b))\<rparr>)))"

text \<open>\<open>prepared\<close> is what preparing the configured script gives, \<open>None\<close> for an empty script.\<close>

definition Router_Init :: "('d, 'i) platform \<Rightarrow> (('d, 'i) RoutingRule \<Rightarrow> go_error option) \<Rightarrow> (string \<Rightarrow> bool) \<Rightarrow> Manager option
    \<Rightarrow> ('d, 'i) Config \<Rightarrow> (rctx \<Rightarrow> ('d, 'i) Route res) res option \<Rightarrow> heap \<Rightarrow> (go_error option \<times> ('d, 'i) Router) option" where
  "Router_Init P newWebhook observes ohm config prepared h0 =
     (let r0 = \<lparr>domainStrategy = cfg_DomainStrategy config, script = None, rules = [], balancers = [], objects = h0, next_ref = 0,
                peers = Map.empty, injected = [], next_hook = 0, closed_hooks = [], fired = [], fallbackChainGuard = 0,
                loopbackReentryGuard = 0, started = False\<rparr>
      in case prepared of
           Some (Inl err) \<Rightarrow> Some (Some (Err ''failed to prepare routing script''), r0)
         | Some (Inr s) \<Rightarrow> reloadRules P newWebhook observes ohm config False (r0\<lparr>script := Some s\<rparr>)
         | None \<Rightarrow> reloadRules P newWebhook observes ohm config False r0)"

definition Router_Close :: "('d, 'i) Router \<Rightarrow> ('d, 'i) Router" where
  "Router_Close r = closeWebhooks (rules r) r"

section \<open>Picking a route\<close>

text \<open>The context that resolves its target domain: what it has cached, and its \<open>GetTargetIPs\<close>.\<close>

record resolvable =
  cacheIPs :: "byte list list"
  hasError :: bool

definition Resolvable_GetTargetIPs :: "(string \<Rightarrow> byte list list res) \<Rightarrow> rctx \<Rightarrow> resolvable \<Rightarrow> byte list list \<times> resolvable" where
  "Resolvable_GetTargetIPs LookupIP ctx c =
     (if cacheIPs c \<noteq> [] then (cacheIPs c, c)
      else if hasError c then ([], c)
      else
        case (if length (TargetDomain ctx) \<noteq> 0 then LookupIP (TargetDomain ctx) else Inl ErrNoClue) of
          Inr ips \<Rightarrow> (ips, c\<lparr>cacheIPs := ips\<rparr>)
        | Inl err \<Rightarrow>
            if TargetIPs ctx \<noteq> [] then (TargetIPs ctx, c\<lparr>cacheIPs := TargetIPs ctx\<rparr>)
            else ([], c\<lparr>hasError := True\<rparr>))"

text \<open>The addresses are those of the first call; later calls return the same (\<open>resolved_once\<close>).\<close>

definition ContextWithDNSClient :: "(string \<Rightarrow> byte list list res) \<Rightarrow> rctx \<Rightarrow> rctx" where
  "ContextWithDNSClient LookupIP ctx =
     ctx\<lparr>TargetIPs := fst (Resolvable_GetTargetIPs LookupIP ctx \<lparr>cacheIPs = [], hasError = False\<rparr>),
         original_TargetIPs := Some (TargetIPs ctx)\<rparr>"

lemma resolved_once:
  assumes "Resolvable_GetTargetIPs LookupIP ctx \<lparr>cacheIPs = [], hasError = False\<rparr> = (ips, c)"
  shows "Resolvable_GetTargetIPs LookupIP ctx c = (ips, c)"
  using assms by (auto simp: Resolvable_GetTargetIPs_def split: sum.splits if_splits)

definition Rule_Apply :: "('d, 'i) platform \<Rightarrow> ('d, 'i) Rule \<Rightarrow> rctx \<Rightarrow> bool res" where
  "Rule_Apply P rule ctx = ConditionChan_Apply P (rule_Condition rule) ctx"

definition Rule_GetTag :: "env \<Rightarrow> heap \<Rightarrow> ('d, 'i) Rule \<Rightarrow> string res \<times> heap" where
  "Rule_GetTag e h rule =
     (case rule_Balancer rule of
        Some b \<Rightarrow> (let (tag, b') = Balancer_PickOutbound e b (h b) in (tag, h(b := b')))
      | None \<Rightarrow> (Inr (rule_Tag rule), h))"

fun first_match :: "('d, 'i) platform \<Rightarrow> ('d, 'i) Rule list \<Rightarrow> rctx \<Rightarrow> ('d, 'i) Rule option res" where
  "first_match P [] ctx = Inr None"
| "first_match P (rule # rest) ctx =
     (case Rule_Apply P rule ctx of
        Inl err \<Rightarrow> Inl err
      | Inr matched \<Rightarrow> if matched then Inr (Some rule) else first_match P rest ctx)"

definition pickRouteInternal :: "('d, 'i) platform \<Rightarrow> (string \<Rightarrow> byte list list res) \<Rightarrow> ('d, 'i) Router \<Rightarrow> rctx
    \<Rightarrow> (('d, 'i) Rule \<times> rctx) res" where
  "pickRouteInternal P LookupIP r ctx0 =
     (let skipDNSResolve = SkipDNSResolve ctx0;
          ctx = (if domainStrategy r = IpOnDemand \<and> \<not> skipDNSResolve then ContextWithDNSClient LookupIP ctx0 else ctx0)
      in case first_match P (rules r) ctx of
           Inl err \<Rightarrow> Inl err
         | Inr (Some rule) \<Rightarrow> Inr (rule, ctx)
         | Inr None \<Rightarrow>
             if domainStrategy r \<noteq> IpIfNonMatch \<or> length (TargetDomain ctx) = 0 \<or> skipDNSResolve then Inl ErrNoClue
             else
               let ctx2 = ContextWithDNSClient LookupIP ctx
               in case first_match P (rules r) ctx2 of
                    Inl err \<Rightarrow> Inl err
                  | Inr (Some rule) \<Rightarrow> Inr (rule, ctx2)
                  | Inr None \<Rightarrow> Inl ErrNoClue)"

definition pickTag :: "(nat \<Rightarrow> env) \<Rightarrow> ('d, 'i) Router \<Rightarrow> ('d, 'i) Rule \<Rightarrow> string res \<times> ('d, 'i) Router" where
  "pickTag w r rule =
     (case rule_Balancer rule of
        None \<Rightarrow> (Inr (rule_Tag rule), r)
      | Some b \<Rightarrow>
          (let m = (case peers r b of None \<Rightarrow> balancers r | Some m \<Rightarrow> m);
               (tag, h, guard) = resolveChain w m b (objects r) (fallbackChainGuard r)
           in (tag, r\<lparr>objects := h, fallbackChainGuard := guard\<rparr>)))"

definition Fire :: "('d, 'i) Rule \<Rightarrow> rctx \<Rightarrow> string \<Rightarrow> ('d, 'i) Router \<Rightarrow> ('d, 'i) Router" where
  "Fire rule ctx tag r =
     (case rule_Webhook rule of None \<Rightarrow> r | Some n \<Rightarrow> r\<lparr>fired := fired r @ [(n, ctx, tag)]\<rparr>)"

definition PickRoute :: "('d, 'i) platform \<Rightarrow> (string \<Rightarrow> byte list list res) \<Rightarrow> (nat \<Rightarrow> env) \<Rightarrow> ('d, 'i) Router \<Rightarrow> rctx
    \<Rightarrow> ('d, 'i) Route res \<times> ('d, 'i) Router" where
  "PickRoute P LookupIP w r ctx =
     (case script r of
        Some s \<Rightarrow> (s ctx, r)
      | None \<Rightarrow>
          (case pickRouteInternal P LookupIP r ctx of
             Inl err \<Rightarrow> (Inl err, r)
           | Inr (rule, ctx') \<Rightarrow>
               (case pickTag w r rule of
                  (Inl err, r') \<Rightarrow> (Inl err, r')
                | (Inr tag, r') \<Rightarrow>
                    (Inr \<lparr>route_Context = ctx', outboundTag = tag, ruleTag = rule_RuleTag rule,
                          route_rule = Some (rule_Config rule)\<rparr>,
                     Fire rule ctx tag r'))))"

definition RecordLoopbackReentry :: "('d, 'i) Router \<Rightarrow> ('d, 'i) Router" where
  "RecordLoopbackReentry r = r\<lparr>loopbackReentryGuard := loopbackReentryGuard r + 1\<rparr>"

definition LoopGuards :: "('d, 'i) Router \<Rightarrow> u64 \<times> u64" where
  "LoopGuards r = (fallbackChainGuard r, loopbackReentryGuard r)"

section \<open>The invariant\<close>

text \<open>A map of balancers as it is published: one balancer per tag, under its tag, and no cycle.\<close>

definition map_ok :: "heap \<Rightarrow> nat \<Rightarrow> balancer_map \<Rightarrow> bool" where
  "map_ok h n m \<longleftrightarrow> distinct (map fst m) \<and> keyed h m \<and> graph_ok h m \<and> (\<forall>b \<in> snd ` set m. b < n)"

definition maps_ok :: "('d, 'i) Router \<Rightarrow> bool" where
  "maps_ok r \<longleftrightarrow> map_ok (objects r) (next_ref r) (balancers r)
     \<and> (\<forall>b m. peers r b = Some m \<longrightarrow> map_ok (objects r) (next_ref r) m \<and> b \<in> snd ` set m)
     \<and> (\<forall>b \<in> snd ` set (balancers r). peers r b = Some (balancers r))"

definition rule_tags :: "('d, 'i) Rule list \<Rightarrow> string list" where
  "rule_tags rs = filter (\<lambda>t. t \<noteq> '''') (map rule_RuleTag rs)"

definition rules_ok :: "('d, 'i) platform \<Rightarrow> ('d, 'i) Router \<Rightarrow> bool" where
  "rules_ok P r \<longleftrightarrow> distinct (rule_tags (rules r))
     \<and> (\<forall>rule \<in> set (rules r). BuildCondition P (rule_Config rule) = Inr (rule_Condition rule)
          \<and> (\<forall>b. rule_Balancer rule = Some b \<longrightarrow> b \<in> snd ` set (balancers r)))"

text \<open>Every notifier created so far belongs to a published rule or was closed, and never both.\<close>

definition hooks_ok :: "('d, 'i) Router \<Rightarrow> bool" where
  "hooks_ok r \<longleftrightarrow> distinct (hooks (rules r)) \<and> set (hooks (rules r)) \<inter> set (closed_hooks r) = {}
     \<and> set (hooks (rules r)) \<union> set (closed_hooks r) = {..<next_hook r}"

definition router_ok :: "('d, 'i) platform \<Rightarrow> ('d, 'i) Router \<Rightarrow> bool" where
  "router_ok P r \<longleftrightarrow> maps_ok r \<and> rules_ok P r \<and> hooks_ok r"

text \<open>Two heaps with the same balancers below \<open>n\<close>, but for what picks and overrides change.\<close>

definition agree :: "nat \<Rightarrow> heap \<Rightarrow> heap \<Rightarrow> bool" where
  "agree n h h' \<longleftrightarrow> (\<forall>b < n. bal_tag (h' b) = bal_tag (h b) \<and> members (h' b) = members (h b) \<and> fallbackTag (h' b) = fallbackTag (h b))"

lemma agree_shape: "same_shape h h' \<Longrightarrow> agree n h h'"
  by (simp add: agree_def same_shape_fields)

lemma agree_override: "agree n h (h(b := override_Put target (h b)))"
  by (simp add: agree_def override_Put_def)

lemma map_of_ref: "map_of m t = Some b \<Longrightarrow> b \<in> snd ` set m"
  using map_of_SomeD by force

lemma map_ok_agree:
  assumes "map_ok h n m" "agree n h h'" "n \<le> n'"
  shows "map_ok h' n' m"
proof -
  have eq: "bal_tag (h' b) = bal_tag (h b)" "members (h' b) = members (h b)" "fallbackTag (h' b) = fallbackTag (h b)"
    if "map_of m t = Some b" for t b
    using assms(1,2) map_of_ref [OF that] by (auto simp: map_ok_def agree_def)
  have "balancer_graph h' m t = balancer_graph h m t" for t
    by (cases "map_of m t") (simp_all add: balancer_graph_def fallback_edges_def eq)
  then have g: "balancer_graph h' m = balancer_graph h m" by blast
  have "graph_ok h' m"
    using assms(1) unfolding map_ok_def graph_ok_def g
    by (auto simp: eq members_ok_def)
  moreover have "keyed h' m" using assms(1) eq(1) by (auto simp: map_ok_def keyed_def)
  ultimately show ?thesis using assms(1,3) by (auto simp: map_ok_def)
qed

lemma maps_ok_agree:
  assumes "maps_ok r" "agree (next_ref r) (objects r) (objects r')" "next_ref r' = next_ref r" "balancers r' = balancers r" "peers r' = peers r"
  shows "maps_ok r'"
  using assms map_ok_agree [OF _ assms(2) order_refl] unfolding maps_ok_def by simp

lemma Build_fields: "Build P br = Inr b \<Longrightarrow> bal_tag b = br_Tag br"
  unfolding Build_def map_sum_Inr_iff
  by (auto simp: build_def new_Balancer_def Let_def split: if_splits strategy_settings.splits)

lemma build_balancers_ok:
  "build_balancers P brs (m, h, n) = Inr (m', h', n') \<Longrightarrow> distinct (map fst m) \<Longrightarrow> keyed h m \<Longrightarrow> \<forall>b \<in> snd ` set m. b < n \<Longrightarrow>
    distinct (map fst m') \<and> keyed h' m' \<and> (\<forall>b \<in> snd ` set m'. b < n') \<and> n \<le> n' \<and> (\<forall>b < n. h' b = h b) \<and> set m \<subseteq> set m'"
proof (induction P brs "(m, h, n)" arbitrary: m h n rule: build_balancers.induct)
  case (2 P br brs m h n)
  obtain b where b: "map_of m (br_Tag br) = None" "Build P br = Inr b"
      "build_balancers P brs (m @ [(br_Tag br, n)], h(n := b), n + 1) = Inr (m', h', n')"
    using "2.prems"(1) by (auto split: if_splits sum.splits)
  have "keyed (h(n := b)) (m @ [(br_Tag br, n)])"
    using "2.prems"(3,4) Build_fields [OF b(2)] map_of_ref [of m]
    by (fastforce simp: keyed_def map_add_Some_iff split: if_splits)
  moreover have "distinct (map fst (m @ [(br_Tag br, n)]))" using "2.prems"(2) b(1) by (simp add: map_of_eq_None_iff)
  moreover have "\<forall>c \<in> snd ` set (m @ [(br_Tag br, n)]). c < n + 1" using "2.prems"(4) by auto
  ultimately show ?case using "2.hyps" [OF _ b(2) b(3)] b(1) by fastforce
qed auto

lemma hooks_simps [simp]:
  "hooks [] = []" "hooks (xs @ ys) = hooks xs @ hooks ys"
  "hooks (x # xs) = (case rule_Webhook x of None \<Rightarrow> [] | Some n \<Rightarrow> [n]) @ hooks xs"
  by (auto simp: hooks_def List.map_filter_def split: option.split)

lemma rule_tags_simps [simp]:
  "rule_tags [] = []" "rule_tags (xs @ ys) = rule_tags xs @ rule_tags ys"
  "rule_tags (x # xs) = (if rule_RuleTag x = '''' then [] else [rule_RuleTag x]) @ rule_tags xs"
  by (simp_all add: rule_tags_def)

text \<open>One turn of the loop: it fails before or after the rule is created, or goes on with the rule.\<close>

lemma build_rules_turn:
  obtains (fails) e where "build_rules P newWebhook m (rule # rest) existTags n created = (Some e, created, n)"
  | (created) e rr k where "build_rules P newWebhook m (rule # rest) existTags n created = (Some e, created @ [rr], k)"
      "n \<le> k" "hooks [rr] = [n..<k]"
  | (goes_on) rr k where "build_rules P newWebhook m (rule # rest) existTags n created
        = build_rules P newWebhook m rest (rule_RuleTag rr # existTags) k (created @ [rr])"
      "n \<le> k" "hooks [rr] = [n..<k]" "rule_RuleTag rr \<noteq> '''' \<Longrightarrow> rule_RuleTag rr \<notin> set existTags"
      "BuildCondition P (rule_Config rr) = Inr (rule_Condition rr)" "\<And>b. rule_Balancer rr = Some b \<Longrightarrow> b \<in> snd ` set m"
proof (cases "BuildCondition P rule")
  case (Inl err)
  then show ?thesis using that(1) by simp
next
  case (Inr cond)
  let ?k = "if rr_Webhook rule then n + 1 else n"
  let ?rr = "\<lparr>rule_Tag = GetTag (TargetTag rule), rule_RuleTag = RuleTag rule, rule_Balancer = None,
      rule_Condition = cond, rule_Webhook = (if rr_Webhook rule then Some n else None), rule_Config = rule\<rparr>"
  have k: "n \<le> ?k" and hk: "\<And>b. hooks [?rr\<lparr>rule_Balancer := b\<rparr>] = [n..<?k]" by simp_all
  consider (bad) "RuleTag rule \<noteq> '''' \<and> RuleTag rule \<in> set existTags \<or> (\<exists>e. rr_Webhook rule \<and> newWebhook rule = Some e)"
    | (ok) "RuleTag rule = '''' \<or> RuleTag rule \<notin> set existTags" "(if rr_Webhook rule then newWebhook rule else None) = None"
    by (cases "rr_Webhook rule"; cases "newWebhook rule"; cases "RuleTag rule \<noteq> '''' \<and> RuleTag rule \<in> set existTags") auto
  then show ?thesis
  proof cases
    case bad
    then have "\<exists>e. build_rules P newWebhook m (rule # rest) existTags n created = (Some e, created, n)"
      using Inr by (cases "RuleTag rule \<noteq> '''' \<and> RuleTag rule \<in> set existTags") auto
    then show ?thesis using that(1) by blast
  next
    case ok
    let ?btag = "GetBalancingTag (TargetTag rule)"
    show ?thesis
    proof (cases "?btag = ''''")
      case True
      show ?thesis
        by (rule that(3) [of ?rr ?k]) (use Inr ok True k hk [of None] in \<open>auto simp: Let_def\<close>)
    next
      case False
      show ?thesis
      proof (cases "map_of m ?btag")
        case None
        show ?thesis
          by (rule that(2) [of _ ?rr ?k]) (use Inr ok False None k hk [of None] in \<open>auto simp: Let_def\<close>)
      next
        case (Some b)
        show ?thesis
          by (rule that(3) [of "?rr\<lparr>rule_Balancer := Some b\<rparr>" ?k])
            (use Inr ok False Some k hk [of "Some b"] map_of_ref [OF Some] in \<open>auto simp: Let_def\<close>)
      qed
    qed
  qed
qed

definition created_ok :: "('d, 'i) platform \<Rightarrow> balancer_map \<Rightarrow> string list \<Rightarrow> ('d, 'i) Rule list \<Rightarrow> bool" where
  "created_ok P m existTags new \<longleftrightarrow> distinct (rule_tags new) \<and> set (rule_tags new) \<inter> set existTags = {}
     \<and> (\<forall>rule \<in> set new. BuildCondition P (rule_Config rule) = Inr (rule_Condition rule)
          \<and> (\<forall>b. rule_Balancer rule = Some b \<longrightarrow> b \<in> snd ` set m))"

lemma build_rules_ok:
  "build_rules P newWebhook m rs existTags n created = (err, created', n') \<Longrightarrow>
    \<exists>new. created' = created @ new \<and> n \<le> n' \<and> hooks new = [n..<n'] \<and> (err = None \<longrightarrow> created_ok P m existTags new)"
proof (induction rs arbitrary: existTags n created)
  case Nil
  then show ?case by (simp add: created_ok_def)
next
  case (Cons rule rest)
  show ?case
  proof (rule build_rules_turn [of P newWebhook m rule rest existTags n created])
    fix e
    assume "build_rules P newWebhook m (rule # rest) existTags n created = (Some e, created, n)"
    then have "err = Some e" "created' = created" "n' = n" using Cons.prems by (simp_all del: build_rules.simps)
    then show ?thesis by simp
  next
    fix e rr k
    assume "build_rules P newWebhook m (rule # rest) existTags n created = (Some e, created @ [rr], k)" "n \<le> k" "hooks [rr] = [n..<k]"
    then show ?thesis using Cons.prems by (intro exI [of _ "[rr]"]) (simp del: build_rules.simps)
  next
    fix rr k
    assume a: "build_rules P newWebhook m (rule # rest) existTags n created
        = build_rules P newWebhook m rest (rule_RuleTag rr # existTags) k (created @ [rr])"
      "n \<le> k" "hooks [rr] = [n..<k]" "rule_RuleTag rr \<noteq> '''' \<Longrightarrow> rule_RuleTag rr \<notin> set existTags"
      "BuildCondition P (rule_Config rr) = Inr (rule_Condition rr)" "\<And>b. rule_Balancer rr = Some b \<Longrightarrow> b \<in> snd ` set m"
    obtain new where new: "created' = (created @ [rr]) @ new" "k \<le> n'" "hooks new = [k..<n']"
        "err = None \<longrightarrow> created_ok P m (rule_RuleTag rr # existTags) new"
      using Cons.IH [of "rule_RuleTag rr # existTags" k "created @ [rr]"] Cons.prems a(1) by metis
    have "hooks (rr # new) = [n..<n']" using a(2,3) new(2,3) upt_add_eq_append [of n k "n' - k"] by simp
    moreover have "err = None \<longrightarrow> created_ok P m existTags (rr # new)"
      using new(4) a(4-6) by (auto simp: created_ok_def)
    ultimately show ?thesis using new(1,2) a(2) by (intro exI [of _ "rr # new"]) simp
  qed
qed

lemma reloadRules_cases:
  assumes "reloadRules P newWebhook observes ohm config shouldAppend r = Some (err, r')"
  obtains (refused) e where "err = Some e" "r' = r"
  | (undone) e created n where "err = Some e" "r' = closeWebhooks created (r\<lparr>next_hook := n\<rparr>)" "next_hook r \<le> n" "hooks created = [next_hook r..<n]"
  | (published) m h n created k where "err = None"
      "build_balancers P (cfg_BalancingRule config) (if shouldAppend then balancers r else [], objects r, next_ref r) = Inr (m, h, n)"
      "next_hook r \<le> k" "hooks created = [next_hook r..<k]"
      "created_ok P m (if shouldAppend then map rule_RuleTag (rules r) else []) created" "checkBalancerGraph h m = Some None"
      "guardRouting observes ohm r h ((if shouldAppend then rules r else []) @ created) m Map.empty = Some None"
      "r' = publish config shouldAppend m h n ((if shouldAppend then rules r else []) @ created) (r\<lparr>next_hook := k\<rparr>)"
proof (cases "build_balancers P (cfg_BalancingRule config) (if shouldAppend then balancers r else [], objects r, next_ref r)")
  case (Inl e)
  then have "err = Some e" "r' = r" using assms by (simp_all add: reloadRules_def)
  then show ?thesis by (rule that(1))
next
  case (Inr mhn)
  obtain m h n where mhn: "mhn = (m, h, n)" by (cases mhn) simp
  let ?exist = "if shouldAppend then map rule_RuleTag (rules r) else []"
  let ?new = "\<lambda>created. (if shouldAppend then rules r else []) @ created"
  obtain e created k where b: "build_rules P newWebhook m (cfg_Rule config) ?exist (next_hook r) [] = (e, created, k)"
    by (metis prod_cases3)
  then have c: "next_hook r \<le> k" "hooks created = [next_hook r..<k]" "e = None \<Longrightarrow> created_ok P m ?exist created"
    using build_rules_ok [OF b] by auto
  let ?undo = "\<lambda>x. Some (Some x, closeWebhooks created (r\<lparr>next_hook := k\<rparr>))"
  have eq: "reloadRules P newWebhook observes ohm config shouldAppend r =
      (case e of Some x \<Rightarrow> ?undo x
       | None \<Rightarrow> (case checkBalancerGraph h m of None \<Rightarrow> None | Some (Some x) \<Rightarrow> ?undo x
           | Some None \<Rightarrow> (case guardRouting observes ohm r h (?new created) m Map.empty of None \<Rightarrow> None | Some (Some x) \<Rightarrow> ?undo x
               | Some None \<Rightarrow> Some (None, publish config shouldAppend m h n (?new created) (r\<lparr>next_hook := k\<rparr>)))))"
    unfolding reloadRules_def Let_def Inr mhn sum.case prod.case b ..
  consider (undo) x where "reloadRules P newWebhook observes ohm config shouldAppend r = ?undo x"
    | (ok) "e = None" "checkBalancerGraph h m = Some None" "guardRouting observes ohm r h (?new created) m Map.empty = Some None"
        "reloadRules P newWebhook observes ohm config shouldAppend r = Some (None, publish config shouldAppend m h n (?new created) (r\<lparr>next_hook := k\<rparr>))"
    using assms unfolding eq by (auto split: option.splits)
  then show ?thesis
  proof cases
    case undo
    then show ?thesis using that(2) assms c(1,2) by simp
  next
    case ok
    then show ?thesis using that(3) [of m h n k created] assms Inr mhn c by simp
  qed
qed

lemma publish_fields [simp]:
  "objects (publish config a m h n rs r) = h" "next_ref (publish config a m h n rs r) = n"
  "balancers (publish config a m h n rs r) = m" "rules (publish config a m h n rs r) = rs"
  "peers (publish config a m h n rs r) = (\<lambda>b. if b \<in> snd ` set m then Some m else peers r b)"
  "closed_hooks (publish config a m h n rs r) = closed_hooks r @ (if a then [] else hooks (rules r))"
  "next_hook (publish config a m h n rs r) = next_hook r" "script (publish config a m h n rs r) = script r"
  "started (publish config a m h n rs r) = started r" "domainStrategy (publish config a m h n rs r) = domainStrategy r"
  by (simp_all add: publish_def closeWebhooks_def Let_def)

lemma hooks_partition:
  assumes "distinct A" "set A \<inter> set C = {}" "set A \<union> set C = {..<n}" "n \<le> k"
  shows "distinct (A @ [n..<k])" "set (A @ [n..<k]) \<inter> set C = {}" "set (A @ [n..<k]) \<union> set C = {..<k}"
    "set [n..<k] \<inter> (set C \<union> set A) = {}" "set [n..<k] \<union> (set C \<union> set A) = {..<k}"
    "set A \<inter> (set C \<union> set [n..<k]) = {}" "set A \<union> (set C \<union> set [n..<k]) = {..<k}"
proof -
  have A: "x < n" if "x \<in> set A" for x using that assms(3) by auto
  have C: "x < n" if "x \<in> set C" for x using that assms(3) by auto
  have k: "{..<k} = {..<n} \<union> {n..<k}" using assms(4) by auto
  show "distinct (A @ [n..<k])" "set (A @ [n..<k]) \<inter> set C = {}" "set [n..<k] \<inter> (set C \<union> set A) = {}"
    "set A \<inter> (set C \<union> set [n..<k]) = {}"
    using assms(1,2) A C by fastforce+
  show "set (A @ [n..<k]) \<union> set C = {..<k}" "set [n..<k] \<union> (set C \<union> set A) = {..<k}" "set A \<union> (set C \<union> set [n..<k]) = {..<k}"
    unfolding k assms(3) [symmetric] by auto
qed

lemma reload_ok:
  assumes ok: "router_ok P r" and r': "reloadRules P newWebhook observes ohm config shouldAppend r = Some (err, r')"
  shows "router_ok P r'"
  using r'
proof (cases rule: reloadRules_cases)
  case refused
  then show ?thesis using ok by simp
next
  case (undone e created n)
  have "maps_ok r' \<longleftrightarrow> maps_ok r" "rules_ok P r' \<longleftrightarrow> rules_ok P r"
    unfolding undone(2) by (simp_all add: maps_ok_def rules_ok_def closeWebhooks_def)
  moreover have "hooks_ok r'"
    using ok hooks_partition(6,7) [OF _ _ _ undone(3), of "hooks (rules r)" "closed_hooks r"] unfolding undone(2)
    by (simp add: router_ok_def hooks_ok_def closeWebhooks_def undone(4))
  ultimately show ?thesis using ok by (simp add: router_ok_def)
next
  case (published m h n created k)
  let ?m0 = "if shouldAppend then balancers r else []"
  have ok0: "map_ok (objects r) (next_ref r) (balancers r)" and known: "\<And>b m. peers r b = Some m \<Longrightarrow> map_ok (objects r) (next_ref r) m \<and> b \<in> snd ` set m"
    using ok by (simp_all add: router_ok_def maps_ok_def)
  have "distinct (map fst ?m0)" "keyed (objects r) ?m0" "\<forall>b \<in> snd ` set ?m0. b < next_ref r"
    using ok0 by (cases shouldAppend; simp add: map_ok_def keyed_def)+
  then have m: "distinct (map fst m)" "keyed h m" "\<forall>b \<in> snd ` set m. b < n" "next_ref r \<le> n" "\<forall>b < next_ref r. h b = objects r b"
      "set ?m0 \<subseteq> set m"
    using build_balancers_ok [OF published(2)] by blast+
  have "graph_ok h m" using published(6) checkBalancerGraph_ok [of h m] by auto
  then have new: "map_ok h n m" using m(1-3) by (simp add: map_ok_def)
  have "agree (next_ref r) (objects r) h" using m(5) by (simp add: agree_def)
  then have "map_ok h n m'" if "peers r b = Some m'" for b m'
    using map_ok_agree [of "objects r" "next_ref r" m' h n] known [OF that] m(4) by blast
  then have maps: "maps_ok r'" using new known by (auto simp: maps_ok_def published(8))
  have refs: "snd ` set ?m0 \<subseteq> snd ` set m" using m(6) by (rule image_mono)
  have rs: "rules r' = (if shouldAppend then rules r else []) @ created" "balancers r' = m" by (simp_all add: published(8))
  have old: "distinct (rule_tags (rules r))" "\<forall>rule \<in> set (rules r). BuildCondition P (rule_Config rule) = Inr (rule_Condition rule)
          \<and> (\<forall>b. rule_Balancer rule = Some b \<longrightarrow> b \<in> snd ` set (balancers r))"
    using ok by (simp_all add: router_ok_def rules_ok_def)
  have new_rules: "distinct (rule_tags created)" "set (rule_tags created) \<inter> set (if shouldAppend then map rule_RuleTag (rules r) else []) = {}"
      "\<forall>rule \<in> set created. BuildCondition P (rule_Config rule) = Inr (rule_Condition rule) \<and> (\<forall>b. rule_Balancer rule = Some b \<longrightarrow> b \<in> snd ` set m)"
    using published(5) by (simp_all add: created_ok_def)
  have "rules_ok P r'"
  proof (cases shouldAppend)
    case True
    have "set (rule_tags (rules r)) \<subseteq> set (map rule_RuleTag (rules r))" by (auto simp: rule_tags_def)
    then have "set (rule_tags (rules r)) \<inter> set (rule_tags created) = {}" using new_rules(2) True by auto
    moreover have "b \<in> snd ` set m" if "b \<in> snd ` set (balancers r)" for b using that refs True by auto
    ultimately show ?thesis using True old new_rules(1,3) by (simp add: rules_ok_def rs ball_Un)
  next
    case False
    then show ?thesis using new_rules(1,3) by (simp add: rules_ok_def rs)
  qed
  moreover have "hooks_ok r'"
    using ok hooks_partition [OF _ _ _ published(3), of "hooks (rules r)" "closed_hooks r"] published(4)
    by (cases shouldAppend) (simp_all add: router_ok_def hooks_ok_def published(8))
  ultimately show ?thesis using maps by (simp add: router_ok_def)
qed

lemma remove_ok:
  assumes "router_ok P r" "RemoveRule observes ohm tag r = Some (err, r')"
  shows "router_ok P r'"
proof -
  let ?keep = "filter (\<lambda>rule. rule_RuleTag rule \<noteq> tag) (rules r)" and ?gone = "filter (\<lambda>rule. rule_RuleTag rule = tag) (rules r)"
  have cases: "r' = r \<or> r' = closeWebhooks ?gone (r\<lparr>rules := ?keep\<rparr>)"
    using assms(2) by (auto simp: RemoveRule_def Let_def split: if_splits option.splits)
  have "set (hooks rs) = set (hooks (filter Q rs)) \<union> set (hooks (filter (\<lambda>x. \<not> Q x) rs))" for Q and rs :: "('a, 'b) Rule list"
    by (induction rs) auto
  then have all: "set (hooks (rules r)) = set (hooks ?keep) \<union> set (hooks ?gone)" by fastforce
  have "distinct (hooks rs) \<Longrightarrow> distinct (hooks (filter Q rs)) \<and> set (hooks (filter Q rs)) \<inter> set (hooks (filter (\<lambda>x. \<not> Q x) rs)) = {}
      \<and> set (hooks (filter Q rs)) \<subseteq> set (hooks rs) \<and> set (hooks (filter (\<lambda>x. \<not> Q x) rs)) \<subseteq> set (hooks rs)"
    for Q and rs :: "('a, 'b) Rule list"
    by (induction rs) (auto split: option.splits)
  from this [of "rules r" "\<lambda>rule. rule_RuleTag rule \<noteq> tag"]
  have d: "distinct (hooks ?keep)" "set (hooks ?keep) \<inter> set (hooks ?gone) = {}"
    using assms(1) by (simp_all add: router_ok_def hooks_ok_def)
  have "hooks_ok (closeWebhooks ?gone (r\<lparr>rules := ?keep\<rparr>))"
    using assms(1) d all by (auto simp: router_ok_def hooks_ok_def closeWebhooks_def)
  moreover have "maps_ok (closeWebhooks ?gone (r\<lparr>rules := ?keep\<rparr>))"
    using assms(1) by (simp add: router_ok_def maps_ok_def closeWebhooks_def)
  moreover have "rule_tags ?keep = filter (\<lambda>t. t \<noteq> tag) (rule_tags (rules r))" by (induction "rules r") (auto simp: rule_tags_def filter_map o_def conj_commute)
  then have "distinct (rule_tags ?keep)" using assms(1) by (simp add: router_ok_def rules_ok_def)
  then have "rules_ok P (closeWebhooks ?gone (r\<lparr>rules := ?keep\<rparr>))"
    using assms(1) by (auto simp: router_ok_def rules_ok_def closeWebhooks_def)
  ultimately show ?thesis using assms(1) cases by (auto simp: router_ok_def)
qed

text \<open>Steps that leave the published rules, maps and notifiers as they are.\<close>

lemma router_ok_agree:
  assumes "router_ok P r" "agree (next_ref r) (objects r) (objects r')" "next_ref r' = next_ref r" "balancers r' = balancers r"
    "peers r' = peers r" "rules r' = rules r" "closed_hooks r' = closed_hooks r" "next_hook r' = next_hook r"
  shows "router_ok P r'"
  using assms maps_ok_agree [OF _ assms(2-5)] by (simp add: router_ok_def rules_ok_def hooks_ok_def)

lemma resolve_levels_shape: "resolve_levels k w m b h = (res, h') \<Longrightarrow> same_shape h h'"
proof (induction k arbitrary: b h)
  case (Suc k)
  obtain r b' where p: "pick (w k) b (h b) = (r, b')" by fastforce
  have s: "same_shape h (h(b := b'))" using pick_same_shape [of h b "w k"] p by simp
  have "h' = h(b := b') \<or> (\<exists>b2. resolve_levels k w m b2 (h(b := b')) = (res, h'))"
    using Suc.prems by (auto simp: p Let_def split: sum.splits prod.splits if_splits option.splits)
  then show ?case using Suc.IH s same_shape_trans [OF s] by blast
qed (simp add: same_shape_refl)

lemma resolveChain_shape: "resolveChain w m b h g = (res, h', g') \<Longrightarrow> same_shape h h'"
  unfolding resolveChain_def
  by (cases "resolve_levels (length m + 1) w m b h") (auto split: option.splits dest: resolve_levels_shape simp del: resolve_levels.simps)

lemma pickTag_fields:
  assumes "pickTag w r rule = (tag, r')"
  shows "same_shape (objects r) (objects r') \<and> (\<exists>g. r' = r\<lparr>objects := objects r', fallbackChainGuard := g\<rparr>)"
proof (cases "rule_Balancer rule")
  case None
  then have "r' = r" using assms by (simp add: pickTag_def)
  then show ?thesis by (intro conjI exI [of _ "fallbackChainGuard r"]) (simp_all add: same_shape_refl)
next
  case (Some b)
  let ?m = "case peers r b of None \<Rightarrow> balancers r | Some m \<Rightarrow> m"
  obtain t h g where c: "resolveChain w ?m b (objects r) (fallbackChainGuard r) = (t, h, g)" by (metis prod_cases3)
  then have "r' = r\<lparr>objects := h, fallbackChainGuard := g\<rparr>" using assms Some by (simp add: pickTag_def Let_def)
  then show ?thesis using resolveChain_shape [OF c] by auto
qed

lemma pickTag_ok: "router_ok P r \<Longrightarrow> pickTag w r rule = (tag, r') \<Longrightarrow> router_ok P r'"
proof -
  assume "router_ok P r" "pickTag w r rule = (tag, r')"
  then obtain g where g: "same_shape (objects r) (objects r')" "r' = r\<lparr>objects := objects r', fallbackChainGuard := g\<rparr>"
    using pickTag_fields by blast
  show ?thesis
    by (rule router_ok_agree [OF \<open>router_ok P r\<close> agree_shape [OF g(1)]]) (subst g(2), simp)+
qed

lemma override_ok:
  assumes "router_ok P r" "SetOverrideTarget observes ohm tag target r = Some (err, r')"
  shows "router_ok P r'"
proof -
  have "r' = r \<or> (\<exists>b. r' = r\<lparr>objects := (objects r)(b := override_Put target (objects r b))\<rparr>)"
    using assms(2) unfolding SetOverrideTarget_def by (auto split: option.splits if_splits)
  then show ?thesis
    using assms(1) by (elim disjE exE) (simp, rule router_ok_agree [OF assms(1)], simp_all add: agree_override)
qed

text \<open>One step of the router; the two halves of a pick and its webhook call are steps of their own.\<close>

inductive router_step :: "('d, 'i) platform \<Rightarrow> ('d, 'i) Router \<Rightarrow> ('d, 'i) Router \<Rightarrow> bool" for P where
  reload: "reloadRules P newWebhook observes ohm config shouldAppend r = Some (err, r') \<Longrightarrow> router_step P r r'"
| remove: "RemoveRule observes ohm tag r = Some (err, r') \<Longrightarrow> router_step P r r'"
| override: "SetOverrideTarget observes ohm tag target r = Some (err, r') \<Longrightarrow> router_step P r r'"
| check: "CheckLoopbackLoops observes r hs def = Some (err, r') \<Longrightarrow> router_step P r r'"
| picks: "pickTag w r rule = (tag, r') \<Longrightarrow> router_step P r r'"
| fires: "router_step P r (Fire rule ctx tag r)"
| reentry: "router_step P r (RecordLoopbackReentry r)"


definition router_init :: "('d, 'i) platform \<Rightarrow> ('d, 'i) Router \<Rightarrow> bool" where
  "router_init P r \<longleftrightarrow> (\<exists>newWebhook observes ohm config prepared h0. Router_Init P newWebhook observes ohm config prepared h0 = Some (None, r))"

lemma CheckLoopbackLoops_fields:
  "CheckLoopbackLoops observes r hs def = Some (err, r') \<Longrightarrow> r' = r \<or> r' = r\<lparr>started := True\<rparr>"
  unfolding CheckLoopbackLoops_def by (auto split: option.splits)

lemma router_step_ok:
  assumes "router_step P r r'" "router_ok P r"
  shows "router_ok P r'"
  using assms(1)
proof (cases rule: router_step.cases)
  case (reload newWebhook observes ohm config shouldAppend err)
  then show ?thesis using reload_ok [OF assms(2)] by blast
next
  case (remove observes ohm tag err)
  then show ?thesis using remove_ok [OF assms(2)] by blast
next
  case (override observes ohm tag target err)
  then show ?thesis using override_ok [OF assms(2)] by blast
next
  case (check observes hs def err)
  then show ?thesis
    using assms(2) CheckLoopbackLoops_fields [OF check] router_ok_agree [OF assms(2), of r'] by (auto simp: agree_def)
next
  case (picks w rule tag)
  then show ?thesis using pickTag_ok [OF assms(2)] by blast
next
  case (fires rule ctx tag)
  show ?thesis unfolding fires
    by (rule router_ok_agree [OF assms(2)]) (simp_all add: Fire_def agree_def split: option.split)
next
  case reentry
  show ?thesis unfolding reentry
    by (rule router_ok_agree [OF assms(2)]) (simp_all add: RecordLoopbackReentry_def agree_def)
qed

lemma router_init_ok:
  assumes "router_init P r"
  shows "router_ok P r"
proof -
  obtain newWebhook observes ohm config prepared h0 where i: "Router_Init P newWebhook observes ohm config prepared h0 = Some (None, r)"
    using assms by (auto simp: router_init_def)
  have empty: "router_ok P r0" if "rules r0 = []" "balancers r0 = []" "peers r0 = Map.empty" "closed_hooks r0 = []" "next_hook r0 = 0"
    for r0 :: "('a, 'b) Router"
    using that by (simp add: router_ok_def maps_ok_def rules_ok_def hooks_ok_def map_ok_def keyed_def graph_ok_def succs_def
        balancer_succs_iff acyclic_def)
  show ?thesis
    using i unfolding Router_Init_def Let_def
    by (auto split: option.splits sum.splits intro!: reload_ok [OF empty])
qed

lemma router_reach_ok: "router_init P r0 \<Longrightarrow> (router_step P)\<^sup>*\<^sup>* r0 r \<Longrightarrow> router_ok P r"
proof -
  assume i: "router_init P r0"
  show "router_ok P r" if "(router_step P)\<^sup>*\<^sup>* r0 r"
    using that by (induction rule: rtranclp_induct) (blast intro: router_init_ok [OF i] router_step_ok)+
qed

text \<open>
  C6: in every state the router can reach, one balancer is published per tag and under its tag, the
  published map and every map that a balancer still points to have no cycle and no dangling member,
  every published balancer points to the published map, rule tags are unique, every rule's condition
  is the one built from its configuration and its balancer is published, and every webhook notifier
  created so far belongs to a published rule or was closed, never both.
\<close>

theorem router_invariant:
  assumes "router_init P r0" "(router_step P)\<^sup>*\<^sup>* r0 r"
  shows "router_ok P r"
  using router_reach_ok [OF assms] .

definition sample_config :: "(nat, nat) Config" where
  "sample_config =
     \<lparr>cfg_DomainStrategy = AsIs,
      cfg_Rule = [sample_rule\<lparr>TargetTag := BalancingTag ''b'', rr_Webhook := True\<rparr>],
      cfg_BalancingRule = [\<lparr>br_Tag = ''b'', br_OutboundSelector = [''a''], br_Strategy = ''roundRobin'', br_StrategySettings = OtherConfig,
        br_FallbackTag = ''c'', br_Balancers = []\<rparr>]\<rparr>"

definition sample_router :: "(nat, nat) Router" where
  "sample_router =
     snd (the (Router_Init sample_platform (\<lambda>_. None) (\<lambda>_. True) (Some sample_manager) sample_config None sample_heap))"

lemma sample_router_init: "router_init sample_platform sample_router"
proof -
  have "map_option fst (Router_Init sample_platform (\<lambda>_. None) (\<lambda>_. True) (Some sample_manager) sample_config None sample_heap)
      = Some None"
    by code_simp
  then have "Router_Init sample_platform (\<lambda>_. None) (\<lambda>_. True) (Some sample_manager) sample_config None sample_heap
      = Some (None, sample_router)"
    unfolding sample_router_def by auto
  then show ?thesis unfolding router_init_def by blast
qed

lemma sample_router_fields:
  "hooks (rules sample_router) = [0]" "balancers sample_router = [(''b'', 0)]" "peers sample_router 0 = Some [(''b'', 0)]"
  "map rule_Balancer (rules sample_router) = [Some 0]" "next_hook sample_router = 1" "closed_hooks sample_router = []"
  by code_simp+

theorem router_invariant_witness:
  "router_ok sample_platform sample_router \<and> router_ok sample_platform (RecordLoopbackReentry sample_router)
    \<and> hooks (rules sample_router) = [0]"
  using router_invariant [OF sample_router_init] router_invariant [OF sample_router_init r_into_rtranclp [of "router_step sample_platform"], OF router_step.reentry]
  by (simp add: sample_router_fields)

lemma peers_kept:
  assumes "(router_step P)\<^sup>*\<^sup>* r r'" "peers r b \<noteq> None"
  shows "peers r' b \<noteq> None"
proof -
  have step: "peers r' b \<noteq> None" if "router_step P r r'" "peers r b \<noteq> None" for r r' :: "('a, 'b) Router"
    using that(1)
  proof (cases rule: router_step.cases)
    case (reload newWebhook observes ohm config shouldAppend err)
    then show ?thesis using that(2) by (cases rule: reloadRules_cases) (auto simp: closeWebhooks_def)
  next
    case (remove observes ohm tag err)
    then show ?thesis using that(2) by (auto simp: RemoveRule_def closeWebhooks_def Let_def split: if_splits option.splits)
  next
    case (override observes ohm tag target err)
    then show ?thesis using that(2) by (auto simp: SetOverrideTarget_def split: if_splits option.splits)
  next
    case (check observes hs def err)
    then show ?thesis using that(2) CheckLoopbackLoops_fields [OF check] by auto
  next
    case (picks w rule tag)
    then obtain g where "r' = r\<lparr>objects := objects r', fallbackChainGuard := g\<rparr>" using pickTag_fields by blast
    then have "peers r' = peers r" by (rule ssubst [where P = "\<lambda>x. peers x = peers r"]) simp
    then show ?thesis using that(2) by simp
  next
    case (fires rule ctx tag)
    then show ?thesis using that(2) by (auto simp: Fire_def split: option.split)
  next
    case reentry
    then show ?thesis using that(2) by (simp add: RecordLoopbackReentry_def)
  qed
  show ?thesis using assms by (induction rule: rtranclp_induct) (auto dest: step)
qed



text \<open>
  C13: closing the router closes every webhook notifier that was ever created for it: one created by
  a reload that failed, one whose rule was removed or replaced, and one still published.
\<close>

theorem Router_Close_closes_webhooks:
  assumes "router_init P r0" "(router_step P)\<^sup>*\<^sup>* r0 r"
  shows "set (closed_hooks (Router_Close r)) = {..<next_hook r}"
  using router_reach_ok [OF assms] by (auto simp: router_ok_def hooks_ok_def Router_Close_def closeWebhooks_def)

theorem Router_Close_closes_webhooks_witness:
  "set (closed_hooks (Router_Close sample_router)) = {..<1}"
  using Router_Close_closes_webhooks [OF sample_router_init rtranclp.rtrancl_refl] by (simp add: sample_router_fields)

end
