(* ===== verification/Dispatch.thy ===== *)
theory Dispatch
  imports Routing
begin

text \<open>
  A connection on its way through routing: what the session records of it
  (\<open>common/session\<close>), the routing context over it (\<open>features/routing/session\<close>), the dispatcher's
  \<open>DispatchLink\<close> and \<open>routedDispatch\<close> (\<open>app/dispatcher/default.go\<close>) and the loopback outbound
  (\<open>proxy/loopback/loopback.go\<close>), which hands the connection back to the dispatcher.  A session is
  a value; the pointer to the last outbound record, through which the code updates it, is the last
  element of its list.
\<close>

section \<open>The session\<close>

record Inbound =
  Source :: Destination
  Local :: Destination
  in_Tag :: string
  in_User :: "string option"
  in_VlessRoute :: u16

record Outbound =
  OriginalTarget :: Destination
  Target :: Destination
  RouteTarget :: Destination
  ob_Tag :: string

record SniffingRequest =
  ExcludeForDomain :: "(string \<Rightarrow> bool) option"
  ExcludeForIP :: "(byte list \<Rightarrow> bool) option"
  OverrideDestinationForProtocol :: "string list"
  Enabled :: bool
  MetadataOnly :: bool
  RouteOnly :: bool

record Content =
  ct_Protocol :: string
  ct_SniffingRequest :: SniffingRequest
  ct_Attributes :: "(string \<times> string) list option"
  ct_SkipDNSResolve :: bool

record session =
  ses_Inbound :: "Inbound option"
  ses_Outbounds :: "Outbound list"
  ses_Content :: "Content option"
  ses_Loopbacks :: "string list"

definition no_sniffing :: SniffingRequest where
  "no_sniffing = \<lparr>ExcludeForDomain = None, ExcludeForIP = None, OverrideDestinationForProtocol = [], Enabled = False,
     MetadataOnly = False, RouteOnly = False\<rparr>"

definition new_Content :: Content where
  "new_Content = \<lparr>ct_Protocol = '''', ct_SniffingRequest = no_sniffing, ct_Attributes = None, ct_SkipDNSResolve = False\<rparr>"

definition new_Outbound :: Outbound where
  "new_Outbound = \<lparr>OriginalTarget = zero_Destination, Target = zero_Destination, RouteTarget = zero_Destination, ob_Tag = ''''\<rparr>"

definition new_Inbound :: Inbound where
  "new_Inbound = \<lparr>Source = zero_Destination, Local = zero_Destination, in_Tag = '''', in_User = None, in_VlessRoute = 0\<rparr>"

definition SetAttribute :: "Content \<Rightarrow> string \<Rightarrow> string \<Rightarrow> Content" where
  "SetAttribute c name value =
     c\<lparr>ct_Attributes := Some (AList.update name value (case ct_Attributes c of None \<Rightarrow> [] | Some a \<Rightarrow> a))\<rparr>"

definition Attribute :: "Content \<Rightarrow> string \<Rightarrow> string" where
  "Attribute c name =
     (case ct_Attributes c of
        None \<Rightarrow> ''''
      | Some a \<Rightarrow> (case map_of a name of None \<Rightarrow> '''' | Some v \<Rightarrow> v))"

definition GetForcedOutboundTagFromContext :: "session \<Rightarrow> string" where
  "GetForcedOutboundTagFromContext s =
     (case ses_Content s of None \<Rightarrow> '''' | Some c \<Rightarrow> Attribute c ''forcedOutboundTag'')"

definition SetForcedOutboundTagToContext :: "session \<Rightarrow> string \<Rightarrow> session" where
  "SetForcedOutboundTagToContext s tag =
     s\<lparr>ses_Content := Some (SetAttribute (case ses_Content s of None \<Rightarrow> new_Content | Some c \<Rightarrow> c) ''forcedOutboundTag'' tag)\<rparr>"

text \<open>Updating the record behind \<open>outbounds[len(outbounds)-1]\<close>.\<close>

definition set_last :: "(Outbound \<Rightarrow> Outbound) \<Rightarrow> session \<Rightarrow> session" where
  "set_last f s = s\<lparr>ses_Outbounds := butlast (ses_Outbounds s) @ [f (last (ses_Outbounds s))]\<rparr>"

section \<open>The routing context\<close>

text \<open>A valid destination without an address would be a nil dereference.\<close>

definition family_of :: "Destination \<Rightarrow> AddressFamily res" where
  "family_of d = (case Address d of None \<Rightarrow> Inl nil_deref | Some a \<Rightarrow> Inr (addr_Family a))"

definition dest_ips :: "Destination \<Rightarrow> byte list list res" where
  "dest_ips d =
     (if \<not> IsValid d then Inr []
      else case Address d of
        None \<Rightarrow> Inl nil_deref
      | Some a \<Rightarrow> if IsIP (addr_Family a) then map_sum id (\<lambda>ip. [ip]) (addr_IP a) else Inr [])"

definition dest_port :: "Destination \<Rightarrow> u16" where
  "dest_port d = (if \<not> IsValid d then 0 else dPort d)"

record Context =
  cx_Inbound :: "Inbound option"
  cx_Outbound :: "Outbound option"
  cx_Content :: "Content option"

definition GetInboundTag :: "Context \<Rightarrow> string" where
  "GetInboundTag c = (case cx_Inbound c of None \<Rightarrow> '''' | Some i \<Rightarrow> in_Tag i)"

definition GetSourceIPs :: "Context \<Rightarrow> byte list list res" where
  "GetSourceIPs c = (case cx_Inbound c of None \<Rightarrow> Inr [] | Some i \<Rightarrow> dest_ips (Source i))"

definition GetSourcePort :: "Context \<Rightarrow> u16" where
  "GetSourcePort c = (case cx_Inbound c of None \<Rightarrow> 0 | Some i \<Rightarrow> dest_port (Source i))"

definition GetTargetIPs :: "Context \<Rightarrow> byte list list res" where
  "GetTargetIPs c = (case cx_Outbound c of None \<Rightarrow> Inr [] | Some ob \<Rightarrow> dest_ips (Target ob))"

definition GetTargetPort :: "Context \<Rightarrow> u16" where
  "GetTargetPort c = (case cx_Outbound c of None \<Rightarrow> 0 | Some ob \<Rightarrow> dest_port (Target ob))"

definition GetLocalIPs :: "Context \<Rightarrow> byte list list res" where
  "GetLocalIPs c = (case cx_Inbound c of None \<Rightarrow> Inr [] | Some i \<Rightarrow> dest_ips (Local i))"

definition GetLocalPort :: "Context \<Rightarrow> u16" where
  "GetLocalPort c = (case cx_Inbound c of None \<Rightarrow> 0 | Some i \<Rightarrow> dest_port (Local i))"

definition GetTargetDomain :: "Context \<Rightarrow> string res" where
  "GetTargetDomain c =
     (case cx_Outbound c of
        None \<Rightarrow> Inr ''''
      | Some ob \<Rightarrow>
          if \<not> IsValid (Target ob) then Inr ''''
          else
            (case (if IsValid (RouteTarget ob) then map_sum id IsDomain (family_of (RouteTarget ob)) else Inr False) of
               Inl err \<Rightarrow> Inl err
             | Inr True \<Rightarrow> addr_Domain (the (Address (RouteTarget ob)))
             | Inr False \<Rightarrow>
                 (case Address (Target ob) of
                    None \<Rightarrow> Inl nil_deref
                  | Some a \<Rightarrow> if \<not> IsDomain (addr_Family a) then Inr '''' else addr_Domain a)))"

definition GetNetwork :: "Context \<Rightarrow> Network" where
  "GetNetwork c = (case cx_Outbound c of None \<Rightarrow> Network_Unknown | Some ob \<Rightarrow> dNetwork (Target ob))"

definition GetProtocol :: "Context \<Rightarrow> string" where
  "GetProtocol c = (case cx_Content c of None \<Rightarrow> '''' | Some ct \<Rightarrow> ct_Protocol ct)"

definition GetUser :: "Context \<Rightarrow> string" where
  "GetUser c = (case cx_Inbound c of None \<Rightarrow> '''' | Some i \<Rightarrow> (case in_User i of None \<Rightarrow> '''' | Some email \<Rightarrow> email))"

definition GetVlessRoute :: "Context \<Rightarrow> u16" where
  "GetVlessRoute c = (case cx_Inbound c of None \<Rightarrow> 0 | Some i \<Rightarrow> in_VlessRoute i)"

definition GetAttributes :: "Context \<Rightarrow> (string \<times> string) list option" where
  "GetAttributes c = (case cx_Content c of None \<Rightarrow> None | Some ct \<Rightarrow> ct_Attributes ct)"

definition GetSkipDNSResolve :: "Context \<Rightarrow> bool" where
  "GetSkipDNSResolve c = (case cx_Content c of None \<Rightarrow> False | Some ct \<Rightarrow> ct_SkipDNSResolve ct)"

definition AsRoutingContext :: "session \<Rightarrow> Context res" where
  "AsRoutingContext s =
     (if ses_Outbounds s = [] then Inl (GoPanic ''index out of range'')
      else Inr \<lparr>cx_Inbound = ses_Inbound s, cx_Outbound = Some (last (ses_Outbounds s)), cx_Content = ses_Content s\<rparr>)"

text \<open>What the rules read of a context.  A getter that would panic makes the view panic.\<close>

definition routing_view :: "Context \<Rightarrow> rctx res" where
  "routing_view c =
     (case (GetSourceIPs c, GetTargetIPs c, GetLocalIPs c, GetTargetDomain c) of
        (Inr src, Inr dst, Inr loc, Inr domain) \<Rightarrow>
          Inr \<lparr>InboundTag = GetInboundTag c, SourceIPs = src, SourcePort = GetSourcePort c, TargetIPs = dst,
               TargetPort = GetTargetPort c, LocalIPs = loc, LocalPort = GetLocalPort c, TargetDomain = domain,
               ctx_Network = GetNetwork c, Protocol = GetProtocol c, User = GetUser c, VlessRoute = GetVlessRoute c,
               Attributes = GetAttributes c, SkipDNSResolve = GetSkipDNSResolve c, original_TargetIPs = None\<rparr>
      | _ \<Rightarrow> Inl nil_deref)"

section \<open>The dispatcher\<close>

record SniffResult =
  sr_Protocol :: string
  sr_Domain :: string
  sr_ProtocolForDomain :: "string option"
  sr_IsProtoSubsetOf :: "(string \<Rightarrow> bool) option"

text \<open>\<open>fdns\<close> is \<open>IsIPInIPPool\<close> of a fake DNS engine, \<open>None\<close> without one.\<close>

definition domain_protocol :: "SniffResult \<Rightarrow> string" where
  "domain_protocol result = (case sr_ProtocolForDomain result of Some p \<Rightarrow> p | None \<Rightarrow> sr_Protocol result)"

fun override_loop :: "(address option \<Rightarrow> bool) option \<Rightarrow> SniffResult \<Rightarrow> Destination \<Rightarrow> string list \<Rightarrow> bool" where
  "override_loop fdns result destination [] = False"
| "override_loop fdns result destination (p # ps) =
     (let protocolString = domain_protocol result
      in if has_prefix protocolString p \<or> has_prefix p protocolString then True
         else if (case fdns of
                    None \<Rightarrow> False
                  | Some pool \<Rightarrow> protocolString \<noteq> ''bittorrent'' \<and> p = ''fakedns'' \<and> pool (Address destination)) then True
         else if (case sr_IsProtoSubsetOf result of None \<Rightarrow> False | Some sub \<Rightarrow> sub p) then True
         else override_loop fdns result destination ps)"

definition shouldOverride :: "('d, 'i) platform \<Rightarrow> (address option \<Rightarrow> bool) option \<Rightarrow> SniffResult \<Rightarrow> SniffingRequest \<Rightarrow> Destination
    \<Rightarrow> bool res" where
  "shouldOverride P fdns result request destination =
     (let domain = sr_Domain result
      in if domain = '''' then Inr False
         else if (case ExcludeForDomain request of None \<Rightarrow> False | Some m \<Rightarrow> m (ToLower P domain)) then Inr False
         else
           case (case ExcludeForIP request of
                   None \<Rightarrow> Inr False
                 | Some m \<Rightarrow>
                     (case Address destination of
                        None \<Rightarrow> Inl nil_deref
                      | Some a \<Rightarrow> if IsIP (addr_Family a) then map_sum id m (addr_IP a) else Inr False)) of
             Inl err \<Rightarrow> Inl err
           | Inr True \<Rightarrow> Inr False
           | Inr False \<Rightarrow> Inr (override_loop fdns result destination (OverrideDestinationForProtocol request)))"

text \<open>
  \<open>sniffed\<close> is what the sniffer made of the connection's first bytes, \<open>None\<close> for an error.  The result
  of \<open>DispatchLink\<close> is the session with which it calls \<open>routedDispatch\<close>.
\<close>

definition apply_sniffed :: "('d, 'i) platform \<Rightarrow> (address option \<Rightarrow> bool) option \<Rightarrow> SniffResult \<Rightarrow> SniffingRequest \<Rightarrow> Destination
    \<Rightarrow> session \<Rightarrow> session res" where
  "apply_sniffed P fdns result request destination s =
     (case shouldOverride P fdns result request destination of
        Inl err \<Rightarrow> Inl err
      | Inr False \<Rightarrow> Inr s
      | Inr True \<Rightarrow>
          (let destination' = destination\<lparr>Address := ParseAddress (sr_Domain result)\<rparr>;
               protocol = domain_protocol result;
               isFakeIP = (case fdns of None \<Rightarrow> False | Some pool \<Rightarrow> pool (Address (Target (last (ses_Outbounds s)))))
           in if RouteOnly request \<and> protocol \<noteq> ''fakedns'' \<and> protocol \<noteq> ''fakedns+others'' \<and> \<not> isFakeIP
              then Inr (set_last (\<lambda>ob. ob\<lparr>RouteTarget := destination'\<rparr>) s)
              else Inr (set_last (\<lambda>ob. ob\<lparr>Target := destination'\<rparr>) s)))"

definition DispatchLink :: "('d, 'i) platform \<Rightarrow> (address option \<Rightarrow> bool) option \<Rightarrow> SniffResult option \<Rightarrow> Destination \<Rightarrow> session
    \<Rightarrow> session res" where
  "DispatchLink P fdns sniffed destination s0 =
     (if \<not> IsValid destination then Inl (Err ''Dispatcher: Invalid destination.'')
      else
        let s1 = (if ses_Outbounds s0 = [] then s0\<lparr>ses_Outbounds := [new_Outbound]\<rparr> else s0);
            s2 = set_last (\<lambda>ob. ob\<lparr>OriginalTarget := destination, Target := destination\<rparr>) s1;
            content = (case ses_Content s2 of None \<Rightarrow> new_Content | Some c \<Rightarrow> c);
            s3 = s2\<lparr>ses_Content := Some content\<rparr>;
            request = ct_SniffingRequest content
        in if \<not> Enabled request then Inr s3
           else
             (case sniffed of
                None \<Rightarrow> Inr s3
              | Some result \<Rightarrow>
                  apply_sniffed P fdns result request destination
                    (s3\<lparr>ses_Content := Some (content\<lparr>ct_Protocol := sr_Protocol result\<rparr>)\<rparr>)))"

text \<open>\<open>Dispatch\<close> does the same on a link of its own, and panics on an invalid destination.\<close>

definition Dispatcher_Dispatch :: "('d, 'i) platform \<Rightarrow> (address option \<Rightarrow> bool) option \<Rightarrow> SniffResult option \<Rightarrow> Destination \<Rightarrow> session
    \<Rightarrow> session res" where
  "Dispatcher_Dispatch P fdns sniffed destination s0 =
     (if \<not> IsValid destination then Inl (GoPanic ''Dispatcher: Invalid destination.'')
      else DispatchLink P fdns sniffed destination s0)"

text \<open>
  The outcome: the link is closed, or a handler's \<open>Dispatch\<close> is called with the session and the
  detour of the access log.
\<close>

datatype outcome = Closed | Dispatched handler session string | Panicked go_error

definition detour :: "string \<Rightarrow> nat \<Rightarrow> string \<Rightarrow> string" where
  "detour inTag isPickRoute tag =
     (if tag = '''' then ''''
      else if inTag = '''' then tag
      else if isPickRoute = 1 then inTag @ '' ==> '' @ tag
      else if isPickRoute = 2 then inTag @ '' -> '' @ tag
      else inTag @ '' >> '' @ tag)"

definition dispatch_to :: "Manager \<Rightarrow> string \<Rightarrow> nat \<Rightarrow> handler option \<Rightarrow> session \<Rightarrow> outcome" where
  "dispatch_to mgr inTag isPickRoute found s =
     (case (case found of None \<Rightarrow> defaultHandler mgr | Some h \<Rightarrow> Some h) of
        None \<Rightarrow> Closed
      | Some h \<Rightarrow> Dispatched h (set_last (\<lambda>ob. ob\<lparr>ob_Tag := handler_tag h\<rparr>) s) (detour inTag isPickRoute (handler_tag h)))"

definition routedDispatch :: "('d, 'i) platform \<Rightarrow> (string \<Rightarrow> byte list list res) \<Rightarrow> (nat \<Rightarrow> env) \<Rightarrow> ('d, 'i) Router \<Rightarrow> Manager \<Rightarrow> session
    \<Rightarrow> outcome \<times> ('d, 'i) Router" where
  "routedDispatch P LookupIP w r mgr s =
     (case AsRoutingContext s of
        Inl err \<Rightarrow> (Panicked err, r)
      | Inr routingLink \<Rightarrow>
          (let inTag = GetInboundTag routingLink; forced = GetForcedOutboundTagFromContext s
           in if forced \<noteq> '''' then
                (case GetHandler mgr forced of
                   Some h \<Rightarrow> (dispatch_to mgr inTag 1 (Some h) (SetForcedOutboundTagToContext s ''''), r)
                 | None \<Rightarrow> (Closed, r))
              else
                (case routing_view routingLink of
                   Inl err \<Rightarrow> (Panicked err, r)
                 | Inr ctx \<Rightarrow>
                     (case PickRoute P LookupIP w r ctx of
                        (Inr route, r') \<Rightarrow>
                          (case GetHandler mgr (outboundTag route) of
                             Some h \<Rightarrow> (dispatch_to mgr inTag 2 (Some h) s, r')
                           | None \<Rightarrow> (Closed, r'))
                      | (Inl err, r') \<Rightarrow>
                          if err = ErrRouteDropped then (Closed, r')
                          else if panics (Inl err :: unit res) then (Panicked err, r')
                          else (dispatch_to mgr inTag 0 None s, r')))))"

section \<open>The loopback outbound\<close>

text \<open>\<open>Process\<close>: the error and the router, or the session with which it calls \<open>DispatchLink\<close>.\<close>

definition Loopback_Process :: "string \<Rightarrow> SniffingRequest \<Rightarrow> session \<Rightarrow> ('d, 'i) Router \<Rightarrow> (Destination \<times> session) res \<times> ('d, 'i) Router" where
  "Loopback_Process inboundTag sniffingRequest s r =
     (if ses_Outbounds s = [] then (Inl (GoPanic ''index out of range''), r)
      else
        let ob = last (ses_Outbounds s)
        in if \<not> IsValid (Target ob) then (Inl (Err ''target not specified.''), r)
           else if ob_Tag ob \<in> set (ses_Loopbacks s) then (Inl ErrRouteDropped, RecordLoopbackReentry r)
           else
             (Inr (Target ob,
                s\<lparr>ses_Loopbacks := ses_Loopbacks s @ [ob_Tag ob],
                  ses_Content := Some (new_Content\<lparr>ct_SkipDNSResolve := True, ct_SniffingRequest := sniffingRequest\<rparr>),
                  ses_Inbound := Some ((case ses_Inbound s of None \<Rightarrow> new_Inbound | Some i \<Rightarrow> i)\<lparr>in_Tag := inboundTag\<rparr>)\<rparr>),
              r))"

section \<open>Dialling through another outbound\<close>

text \<open>\<open>redirect\<close> of \<open>transport/internet/dialer.go\<close>: the session with which it dispatches to the other handler.\<close>

definition redirect :: "session \<Rightarrow> Destination \<Rightarrow> string \<Rightarrow> session" where
  "redirect s dst obt = s\<lparr>ses_Outbounds := ses_Outbounds s @ [new_Outbound\<lparr>Target := dst, ob_Tag := obt\<rparr>]\<rparr>"

text \<open>
  A connection handed to handler \<open>h\<close> with session \<open>s\<close> arrives at the loopback handler \<open>lo\<close> with session
  \<open>s'\<close>: a handler that is no loopback and dials, dials through its \<open>dialerProxy\<close>.
\<close>

inductive arrives :: "Manager \<Rightarrow> handler \<Rightarrow> session \<Rightarrow> handler \<Rightarrow> session \<Rightarrow> bool" for mgr where
  here: "view h = Some v \<Longrightarrow> LoopbackInbound v \<noteq> None \<Longrightarrow> arrives mgr h s h s"
| dials: "view h = Some v \<Longrightarrow> LoopbackInbound v = None \<Longrightarrow> DialerProxy v \<noteq> '''' \<Longrightarrow>
    GetHandler mgr (DialerProxy v) = Some h' \<Longrightarrow> arrives mgr h' (redirect s dst (DialerProxy v)) lo s' \<Longrightarrow> arrives mgr h s lo s'"

end
