(* ===== verification/Loop_Freedom.thy ===== *)
theory Loop_Freedom
  imports Dispatch
begin

text \<open>
  What the static checks give at run time.  The first part relates the loop check to routing: the
  outbound to which the dispatcher sends a connection is one of those that the check accounted for.
  The second part follows router and outbound manager together: every change of either is checked, so
  the accepted graph stays accepted.  The third part is the guard of the loopback outbound, which
  ends every loop on its own.
\<close>

section \<open>The tagged handlers\<close>

lemma by_tag_tagged:
  assumes "distinct (map fst al)" "\<forall>(t, h) \<in> set al. handler_tag h = t \<and> t \<noteq> ''''" "\<forall>h \<in> set us. handler_tag h = ''''"
  shows "by_tag (us @ map snd al) = al"
proof -
  have untagged: "foldl (\<lambda>m h. if handler_tag h \<noteq> '''' then AList.update (handler_tag h) h m else m) m us = m" for m
    using assms(3) by (induction us arbitrary: m) auto
  have "foldl (\<lambda>m h. if handler_tag h \<noteq> '''' then AList.update (handler_tag h) h m else m) pre (map snd xs) = pre @ xs"
    if "distinct (map fst (pre @ xs))" "\<forall>(t, h) \<in> set xs. handler_tag h = t \<and> t \<noteq> ''''" for pre xs
    using that
  proof (induction xs arbitrary: pre)
    case (Cons x xs)
    obtain t h where x: "x = (t, h)" by fastforce
    have "map_of pre t = None" using Cons.prems(1) x by (simp add: map_of_eq_None_iff)
    then have "AList.update t h pre = pre @ [(t, h)]" by (rule update_new)
    moreover have "distinct (map fst ((pre @ [(t, h)]) @ xs))" using Cons.prems(1) x by simp
    ultimately show ?case using Cons.IH [of "pre @ [(t, h)]"] Cons.prems(2) x by simp
  qed simp
  from this [of "[]" al] show ?thesis using assms(1,2) by (simp add: by_tag_def untagged)
qed

lemma by_tag_registry: "registry_ok mgr \<Longrightarrow> by_tag (ListHandlers mgr) = taggedHandler mgr"
  unfolding ListHandlers_def by (rule by_tag_tagged) (auto simp: registry_ok_def)

lemma GetHandler_listed: "GetHandler mgr t = Some h \<Longrightarrow> h \<in> set (ListHandlers mgr)"
  unfolding GetHandler_def ListHandlers_def using map_of_ref by fastforce

section \<open>What a pick can return\<close>

text \<open>
  The surroundings of a pick agree with the manager: \<open>Select\<close> returns the tags that the selectors
  match, and the weighted strategy picks a candidate or none.
\<close>

definition env_ok :: "Manager \<Rightarrow> env \<Rightarrow> bool" where
  "env_ok mgr e \<longleftrightarrow> Select e = Some (select_tags (map fst (taggedHandler mgr)))
     \<and> (\<forall>r cs. weighted_pick e r cs \<noteq> '''' \<longrightarrow> weighted_pick e r cs \<in> set cs)"

lemma PickOutbound_candidate:
  assumes "env_ok mgr e" "PickOutbound e r s cs = (tag, s')" "tag \<noteq> ''''"
  shows "tag \<in> set cs"
proof (cases s)
  case (RoundRobin i)
  then show ?thesis
    using assms(2,3) round_robin.pick_candidate [of "Observation e r" cs i]
    by (cases "RoundRobin_PickOutbound (Observation e r) cs i") (simp add: PickOutbound_def)
next
  case Random
  then show ?thesis using assms(2,3) random.pick_candidate by (auto simp: PickOutbound_def)
next
  case LeastPing
  then show ?thesis using assms(2,3) least_ping.pick_candidate by (auto simp: PickOutbound_def)
next
  case (LeastLoadStrategy l)
  then show ?thesis using assms(2,3) least_load.pick_candidate by (auto simp: PickOutbound_def)
next
  case WeightedLeastPing
  then show ?thesis using assms by (auto simp: PickOutbound_def env_ok_def)
qed

lemma SelectOutbounds_env:
  "env_ok mgr e \<Longrightarrow> SelectOutbounds e b = Inr (select_tags (map fst (taggedHandler mgr)) (selectors b) @ members b)"
  by (auto simp: SelectOutbounds_def env_ok_def select_tags_def)

text \<open>The tags that end a chain at level \<open>b\<close>.\<close>

definition level_tags :: "Manager \<Rightarrow> balancer_map \<Rightarrow> Balancer \<Rightarrow> string set" where
  "level_tags mgr m b =
     {tag \<in> fst ` set (taggedHandler mgr). \<exists>s \<in> set (selectors b). has_prefix tag s}
     \<union> {t. t = override_target b \<and> t \<noteq> ''''}
     \<union> {t. t = fallbackTag b \<and> t \<noteq> '''' \<and> map_of m t = None}"

lemma pick_level:
  assumes "env_ok mgr e" "pick e r b = (res, b')" "members_ok m b"
  obtains (stop) tag fb where "res = Inr (tag, fb)" "tag \<in> level_tags mgr m b" "fb \<or> tag \<in> set (members b) \<Longrightarrow> map_of m tag = None"
  | (onward) tag fb b2 where "res = Inr (tag, fb)" "map_of m tag = Some b2" "fb \<or> tag \<in> set (members b)" "tag \<in> set (members b) \<or> tag = fallbackTag b \<and> tag \<noteq> ''''"
  | (default) err where "res = Inl err" "fallbackTag b = ''''"
  using assms(2)
proof (cases rule: pick_cases)
  case (no_fallback err)
  then show ?thesis using that(3) by blast
next
  case fallback
  then show ?thesis using that(1,2) by (cases "map_of m (fallbackTag b)") (auto simp: level_tags_def)
next
  case override
  then show ?thesis
    using that(1) [of "override_target b" False] that(2) [of "override_target b" False]
    by (cases "override_target b \<in> set (members b)"; cases "map_of m (override_target b)") (auto simp: level_tags_def)
next
  case (strategy cs tag s)
  have "tag \<in> set cs" by (rule PickOutbound_candidate [OF assms(1) strategy(4,5)])
  then consider "tag \<in> set (members b)" | "tag \<notin> set (members b)" "tag \<in> set (select_tags (map fst (taggedHandler mgr)) (selectors b))"
    using strategy(3) SelectOutbounds_env [OF assms(1), of b] by (cases "tag \<in> set (members b)") auto
  then show ?thesis
  proof cases
    case 1
    then obtain b2 where "map_of m tag = Some b2" using assms(3) by (auto simp: members_ok_def)
    then show ?thesis using that(2) strategy(1) 1 by blast
  next
    case 2
    then have "tag \<in> level_tags mgr m b" by (auto simp: level_tags_def select_tags_def list_ex_iff)
    then show ?thesis using that(1) strategy(1) 2(1) by blast
  qed
qed

lemma level_tags_shape: "same_shape h h1 \<Longrightarrow> level_tags mgr m (h1 b) = level_tags mgr m (h b)"
  by (simp add: level_tags_def same_shape_fields)

lemma resolve_levels_tags:
  assumes "graph_ok h m" "\<And>k. env_ok mgr (w k)"
  shows "map_of m t = Some b \<Longrightarrow> same_shape h h1 \<Longrightarrow> resolve_levels k w m b h1 = (Some res, h2) \<Longrightarrow>
    \<exists>u. (t, u) \<in> (chain_rel h m)\<^sup>*
      \<and> (case res of Inr tag \<Rightarrow> tag \<in> level_tags mgr m (h (the (map_of m u))) | Inl err \<Rightarrow> fallbackTag (h (the (map_of m u))) = '''')"
proof (induction k arbitrary: t b h1)
  case (Suc k)
  obtain r b' where p: "pick (w k) b (h1 b) = (r, b')" by fastforce
  have members: "members_ok m (h1 b)"
    using assms(1) Suc.prems(1) same_shape_fields(1) [OF Suc.prems(2)] by (auto simp: graph_ok_def members_ok_def)
  have s: "same_shape h (h1(b := b'))" using same_shape_trans [OF Suc.prems(2) pick_same_shape [of h1 b "w k"]] p by simp
  show ?case
    using assms(2) [of k] p members
  proof (cases rule: pick_level)
    case (stop tag fb)
    then have "res = Inr tag" using Suc.prems(3) by (cases "fb \<or> tag \<in> set (members (h1 b))") (auto simp: p Let_def)
    then show ?thesis
      using stop(2) Suc.prems(1) by (intro exI [of _ t]) (simp add: level_tags_shape [OF Suc.prems(2)])
  next
    case (onward tag fb b2)
    have "resolve_levels k w m b2 (h1(b := b')) = (Some res, h2)" using Suc.prems(3) onward(1-3) by (auto simp: p Let_def)
    from Suc.IH [OF onward(2) s this] obtain u where u: "(tag, u) \<in> (chain_rel h m)\<^sup>*"
        "case res of Inr tag \<Rightarrow> tag \<in> level_tags mgr m (h (the (map_of m u))) | Inl err \<Rightarrow> fallbackTag (h (the (map_of m u))) = ''''"
      by blast
    have "(t, tag) \<in> chain_rel h m"
      using onward(2,4) Suc.prems(1) by (auto simp: chain_succs_def same_shape_fields [OF Suc.prems(2)])
    then show ?thesis using u by (meson converse_rtrancl_into_rtrancl)
  next
    case (default err)
    then have "res = Inl err" using Suc.prems(3) by (simp add: p Let_def)
    then show ?thesis
      using default(2) Suc.prems(1) by (intro exI [of _ t]) (simp add: same_shape_fields [OF Suc.prems(2)])
  qed
qed simp

section \<open>The check accounts for every route\<close>

definition loop_graph :: "('d, 'i) Router \<Rightarrow> Manager \<Rightarrow> ('d, 'i) loopGraph" where
  "loop_graph r mgr =
     \<lparr>g_rules = rules r, g_balancers = balancers r, g_override = Map.empty, g_byTag = [], g_tags = [], g_def = defaultHandler mgr\<rparr>"

abbreviation now_graph :: "('d, 'i) Router \<Rightarrow> Manager \<Rightarrow> ('d, 'i) loopGraph" where
  "now_graph r mgr \<equiv> check_graph (loop_graph r mgr) (ListHandlers mgr)"

lemma now_graph_fields:
  assumes "registry_ok mgr"
  shows "g_byTag (now_graph r mgr) = taggedHandler mgr" "set (g_tags (now_graph r mgr)) = fst ` set (taggedHandler mgr)"
    "g_balancers (now_graph r mgr) = balancers r" "g_def (now_graph r mgr) = defaultHandler mgr"
    "override_of (now_graph r mgr) b = override_target b"
  by (simp_all add: check_graph_def loop_graph_def by_tag_registry [OF assms] override_of_def override_Get_def)

lemma level_tags_states:
  assumes "registry_ok mgr" "tag \<in> level_tags mgr (balancers r) b"
  shows "reached_states (now_graph r mgr) (GetHandler mgr tag) \<subseteq> level_states (now_graph r mgr) b"
proof -
  have "GetHandler mgr tag \<in> level_handlers (now_graph r mgr) b"
    using assms(2) unfolding level_tags_def level_handlers_def now_graph_fields [OF assms(1)] GetHandler_def
    by (auto split: if_splits)
  then show ?thesis unfolding level_states_def by blast
qed

lemma default_states:
  assumes "registry_ok mgr" "fallbackTag b = ''''"
  shows "reached_states (now_graph r mgr) (defaultHandler mgr) \<subseteq> level_states (now_graph r mgr) b"
  using assms(2) unfolding level_states_def level_handlers_def now_graph_fields [OF assms(1)] by auto

lemma pickTag_states:
  assumes ok: "router_ok P r" "registry_ok mgr" "\<And>k. env_ok mgr (w k)" and rule: "rule \<in> set (rules r)"
    and pick: "pickTag w r rule = (res, r')"
  shows "case res of
      Inr tag \<Rightarrow> reached_states (now_graph r mgr) (GetHandler mgr tag) \<subseteq> rule_states (objects r) (now_graph r mgr) rule
    | Inl err \<Rightarrow> err \<noteq> ErrRouteDropped \<longrightarrow>
        reached_states (now_graph r mgr) (defaultHandler mgr) \<subseteq> rule_states (objects r) (now_graph r mgr) rule"
proof (cases "rule_Balancer rule")
  case None
  then have "res = Inr (rule_Tag rule)" using pick by (simp add: pickTag_def)
  then show ?thesis using None by (simp add: rule_states_def now_graph_fields [OF ok(2)] GetHandler_def)
next
  case (Some b)
  let ?m = "balancers r" and ?h = "objects r"
  have b: "b \<in> snd ` set ?m" using ok(1) rule Some by (simp add: router_ok_def rules_ok_def)
  have m: "map_ok ?h (next_ref r) ?m" "peers r b = Some ?m" using ok(1) b by (auto simp: router_ok_def maps_ok_def)
  obtain t where t: "map_of ?m t = Some b" using b m(1) by (auto simp: map_ok_def)
  then have bt: "bal_tag (?h b) = t" using m(1) by (auto simp: map_ok_def keyed_def)
  have g: "graph_ok ?h ?m" using m(1) by (simp add: map_ok_def)
  obtain rr h2 where res: "resolve_levels (length ?m + 1) w ?m b ?h = (rr, h2)" by fastforce
  have pick': "pickTag w r rule = (case rr of Some x \<Rightarrow> x | None \<Rightarrow> Inl ErrRouteDropped,
      snd (pickTag w r rule))"
    using Some m(2) res by (simp add: pickTag_def resolveChain_def Let_def split: option.split)
  show ?thesis
  proof (cases rr)
    case None
    then show ?thesis using pick pick' by simp
  next
    case (Some x)
    then have x: "res = x" using pick pick' by simp
    obtain u where u: "(t, u) \<in> (chain_rel ?h ?m)\<^sup>*"
        "case x of Inr tag \<Rightarrow> tag \<in> level_tags mgr ?m (?h (the (map_of ?m u))) | Inl err \<Rightarrow> fallbackTag (?h (the (map_of ?m u))) = ''''"
      using resolve_levels_tags [OF g ok(3) t same_shape_refl res [unfolded Some]] by blast
    have "lstates ?h (now_graph r mgr) u \<subseteq> rule_states ?h (now_graph r mgr) rule"
      using u(1) \<open>rule_Balancer rule = Some b\<close> by (auto simp: rule_states_def chain_states_def bt now_graph_fields [OF ok(2)])
    then show ?thesis
      using u(2) level_tags_states [OF ok(2)] default_states [OF ok(2)] unfolding x now_graph_fields [OF ok(2)]
      by (cases x) (simp_all, blast+)
  qed
qed

lemma matching_inbound:
  assumes "BuildCondition P (rule_Config rule) = Inr (rule_Condition rule)" "Rule_Apply P rule ctx = Inr True"
  shows "inbound_may_match rule (InboundTag ctx)"
proof (cases "rr_InboundTag (rule_Config rule) = []")
  case False
  then have "NewInboundTagMatcher (rr_InboundTag (rule_Config rule)) \<in> set (rule_Condition rule)"
    by (rule BuildCondition_fields(1) [OF assms(1)])
  then have "Condition_Apply P (NewInboundTagMatcher (rr_InboundTag (rule_Config rule))) ctx = Inr True"
    using assms(2) by (simp add: Rule_Apply_def ConditionChan_Apply_iff)
  then show ?thesis using False by (simp add: inbound_apply inbound_match_def inbound_may_match_def)
qed (simp add: inbound_may_match_def)

text \<open>A rule on this inbound tag alone matches, unless the tag is empty.\<close>

lemma ending_rule_matches:
  assumes "BuildCondition P (rule_Config rule) = Inr (rule_Condition rule)" "ends_walk rule (InboundTag ctx)" "InboundTag ctx \<noteq> ''''"
  shows "Rule_Apply P rule ctx = Inr True"
proof -
  have "only_basic (rule_Config rule)" "basic_match (rule_Config rule) ctx"
    using assms(2,3) by (auto simp: ends_walk_def matchesOnInboundOnly_def only_basic_def basic_match_def inbound_match_def port_match_def)
  then show ?thesis using built_basic [OF assms(1)] by (simp add: Rule_Apply_def ConditionChan_Apply_iff)
qed

lemma rule_never_panics:
  "BuildCondition P (rule_Config rule) = Inr (rule_Condition rule) \<Longrightarrow> \<exists>x. Rule_Apply P rule ctx = Inr x"
  using ConditionChan_Apply_total [of "rule_Condition rule" P ctx] built_not_vless [of P "rule_Config rule" "rule_Condition rule" _ ctx]
  by (cases "Rule_Apply P rule ctx") (auto simp: Rule_Apply_def)

lemma first_match_states:
  assumes "\<forall>rule \<in> set rs. BuildCondition P (rule_Config rule) = Inr (rule_Condition rule)" "InboundTag ctx \<noteq> ''''"
  shows "\<exists>res. first_match P rs ctx = Inr res
    \<and> (case res of
         Some rule \<Rightarrow> rule \<in> set rs \<and> rule_states h g rule \<subseteq> walk_states h g (InboundTag ctx) rs
       | None \<Rightarrow> reached_states g (g_def g) \<subseteq> walk_states h g (InboundTag ctx) rs)"
  using assms(1)
proof (induction rs)
  case (Cons rule rs)
  have built: "BuildCondition P (rule_Config rule) = Inr (rule_Condition rule)" using Cons.prems by simp
  obtain x where x: "Rule_Apply P rule ctx = Inr x" using rule_never_panics [OF built] by blast
  show ?case
  proof (cases x)
    case True
    then show ?thesis using x matching_inbound [OF built, of ctx] by auto
  next
    case False
    then have "\<not> ends_walk rule (InboundTag ctx)" using ending_rule_matches [OF built _ assms(2)] x by auto
    moreover obtain res where "first_match P rs ctx = Inr res"
        "case res of
           Some rule \<Rightarrow> rule \<in> set rs \<and> rule_states h g rule \<subseteq> walk_states h g (InboundTag ctx) rs
         | None \<Rightarrow> reached_states g (g_def g) \<subseteq> walk_states h g (InboundTag ctx) rs"
      using Cons.IH Cons.prems by auto
    ultimately show ?thesis using x False by (intro exI [of _ res]) (auto split: option.splits)
  qed
qed simp

lemma dns_InboundTag [simp]: "InboundTag (ContextWithDNSClient L ctx) = InboundTag ctx"
  by (simp add: ContextWithDNSClient_def)

lemma pickRouteInternal_states:
  assumes "rules_ok P r" "InboundTag ctx \<noteq> ''''"
  shows "case pickRouteInternal P L r ctx of
      Inr (rule, ctx') \<Rightarrow> rule \<in> set (rules r) \<and> rule_states h g rule \<subseteq> walk_states h g (InboundTag ctx) (rules r)
    | Inl err \<Rightarrow> err = ErrNoClue \<and> reached_states g (g_def g) \<subseteq> walk_states h g (InboundTag ctx) (rules r)"
proof -
  have built: "\<forall>rule \<in> set (rules r). BuildCondition P (rule_Config rule) = Inr (rule_Condition rule)"
    using assms(1) by (simp add: rules_ok_def)
  let ?c1 = "if domainStrategy r = IpOnDemand \<and> \<not> SkipDNSResolve ctx then ContextWithDNSClient L ctx else ctx"
  let ?c2 = "ContextWithDNSClient L ?c1"
  have tags: "InboundTag ?c1 = InboundTag ctx" "InboundTag ?c2 = InboundTag ctx" by simp_all
  obtain r1 where 1: "first_match P (rules r) ?c1 = Inr r1"
      "case r1 of Some rule \<Rightarrow> rule \<in> set (rules r) \<and> rule_states h g rule \<subseteq> walk_states h g (InboundTag ctx) (rules r)
        | None \<Rightarrow> reached_states g (g_def g) \<subseteq> walk_states h g (InboundTag ctx) (rules r)"
    using first_match_states [OF built, of ?c1, where h = h and g = g] assms(2) unfolding tags by blast
  obtain r2 where 2: "first_match P (rules r) ?c2 = Inr r2"
      "case r2 of Some rule \<Rightarrow> rule \<in> set (rules r) \<and> rule_states h g rule \<subseteq> walk_states h g (InboundTag ctx) (rules r)
        | None \<Rightarrow> reached_states g (g_def g) \<subseteq> walk_states h g (InboundTag ctx) (rules r)"
    using first_match_states [OF built, of ?c2, where h = h and g = g] assms(2) unfolding tags by blast
  show ?thesis
    unfolding pickRouteInternal_def Let_def 1(1) 2(1)
    using 1(2) 2(2) by (cases r1; cases r2) simp_all
qed

text \<open>The outbound of a connection that was not forced, by its inbound tag.\<close>

definition inbound_tag :: "session \<Rightarrow> string" where
  "inbound_tag s = (case ses_Inbound s of None \<Rightarrow> '''' | Some i \<Rightarrow> in_Tag i)"

lemma routing_view_tag: "routing_view c = Inr ctx \<Longrightarrow> InboundTag ctx = GetInboundTag c"
  by (auto simp: routing_view_def split: sum.splits)

lemma AsRoutingContext_tag: "AsRoutingContext s = Inr c \<Longrightarrow> GetInboundTag c = inbound_tag s"
  by (auto simp: AsRoutingContext_def GetInboundTag_def inbound_tag_def split: if_splits)

lemma dispatch_to_cases:
  assumes "dispatch_to mgr inTag n found s = Dispatched h s' d"
  shows "s' = set_last (\<lambda>ob. ob\<lparr>ob_Tag := handler_tag h\<rparr>) s" "found = Some h \<or> found = None \<and> defaultHandler mgr = Some h"
  using assms by (auto simp: dispatch_to_def split: option.splits)

lemma routedDispatch_states:
  assumes ok: "router_ok P r" "registry_ok mgr" "\<And>k. env_ok mgr (w k)" and script: "script r = None"
    and forced: "GetForcedOutboundTagFromContext s = ''''" and tag: "inbound_tag s \<noteq> ''''"
    and dispatched: "routedDispatch P L w r mgr s = (Dispatched h s' d, r')"
  shows "reached_states (now_graph r mgr) (Some h) \<subseteq> walk_states (objects r) (now_graph r mgr) (inbound_tag s) (rules r)
    \<and> s' = set_last (\<lambda>ob. ob\<lparr>ob_Tag := handler_tag h\<rparr>) s \<and> h \<in> set (ListHandlers mgr)"
proof -
  let ?g = "now_graph r mgr" and ?W = "walk_states (objects r) (now_graph r mgr) (inbound_tag s) (rules r)"
  obtain c where c: "AsRoutingContext s = Inr c"
    using dispatched by (cases "AsRoutingContext s") (simp_all add: routedDispatch_def)
  obtain ctx where ctx: "routing_view c = Inr ctx"
    using dispatched c forced by (cases "routing_view c") (simp_all add: routedDispatch_def Let_def)
  have t: "InboundTag ctx = inbound_tag s" "InboundTag ctx \<noteq> ''''"
    using routing_view_tag [OF ctx] AsRoutingContext_tag [OF c] tag by simp_all
  obtain res r1 where res: "PickRoute P L w r ctx = (res, r1)" by fastforce
  have ro: "rules_ok P r" using ok(1) by (simp add: router_ok_def)
  have listed: "x \<in> set (ListHandlers mgr)" if "GetHandler mgr tg = Some x \<or> defaultHandler mgr = Some x" for tg x
    using that ok(2) GetHandler_listed [of mgr tg x] by (auto simp: registry_ok_def)
  note int = pickRouteInternal_states [OF ro t(2), where L = L and h = "objects r" and g = ?g, unfolded t(1)]
  have states: "(case res of
      Inr route \<Rightarrow> reached_states ?g (GetHandler mgr (outboundTag route)) \<subseteq> ?W
    | Inl err \<Rightarrow> err \<noteq> ErrRouteDropped \<longrightarrow> reached_states ?g (defaultHandler mgr) \<subseteq> ?W)"
  proof (cases "pickRouteInternal P L r ctx")
    case (Inl err)
    then show ?thesis using int res script by (auto simp: PickRoute_def now_graph_fields [OF ok(2)])
  next
    case (Inr rc)
    obtain rule ctx' where rc: "rc = (rule, ctx')" by fastforce
    have rule: "rule \<in> set (rules r)" "rule_states (objects r) ?g rule \<subseteq> ?W" using int Inr rc by simp_all
    obtain x r2 where x: "pickTag w r rule = (x, r2)" by fastforce
    have "case x of Inr tag \<Rightarrow> reached_states ?g (GetHandler mgr tag) \<subseteq> ?W
        | Inl err \<Rightarrow> err \<noteq> ErrRouteDropped \<longrightarrow> reached_states ?g (defaultHandler mgr) \<subseteq> ?W"
      using pickTag_states [OF ok rule(1) x] rule(2) by (cases x) auto
    then show ?thesis using res script Inr rc x by (cases x) (auto simp: PickRoute_def)
  qed
  show ?thesis
  proof (cases res)
    case (Inr route)
    then obtain x where x: "GetHandler mgr (outboundTag route) = Some x"
        "dispatch_to mgr (GetInboundTag c) 2 (Some x) s = Dispatched h s' d"
      using dispatched c ctx forced res by (cases "GetHandler mgr (outboundTag route)") (simp_all add: routedDispatch_def Let_def)
    then show ?thesis using dispatch_to_cases [OF x(2)] states Inr listed [of "outboundTag route" x] by auto
  next
    case (Inl err)
    then have e: "err \<noteq> ErrRouteDropped" "dispatch_to mgr (GetInboundTag c) 0 None s = Dispatched h s' d"
      using dispatched c ctx forced res by (simp_all add: routedDispatch_def Let_def split: if_splits)
    then show ?thesis using dispatch_to_cases [OF e(2)] states Inl listed [of "''''" h] by auto
  qed
qed

section \<open>A checked routing has no loop\<close>

text \<open>Routers that differ in what picks change: the strategies' state, the guards' counters and the webhook calls.\<close>

definition same_routing :: "('d, 'i) Router \<Rightarrow> ('d, 'i) Router \<Rightarrow> bool" where
  "same_routing r r' \<longleftrightarrow> same_shape (objects r) (objects r') \<and> rules r' = rules r \<and> balancers r' = balancers r \<and> script r' = script r
     \<and> peers r' = peers r \<and> next_ref r' = next_ref r \<and> closed_hooks r' = closed_hooks r \<and> next_hook r' = next_hook r"

lemma same_routing_ok: "router_ok P r \<Longrightarrow> same_routing r r' \<Longrightarrow> router_ok P r'"
  unfolding same_routing_def by (rule router_ok_agree) (auto intro: agree_shape)

lemma same_routing_graph: "same_routing r r' \<Longrightarrow> loop_graph r' mgr = loop_graph r mgr"
  by (simp add: same_routing_def loop_graph_def)

lemma level_states_shape:
  assumes "same_shape h h'"
  shows "level_states g (h' b) = level_states g (h b)"
proof -
  have "override_of g (h' b) = override_of g (h b)"
    by (simp add: override_of_def override_Get_def same_shape_fields [OF assms] split: option.split)
  then show ?thesis by (simp only: level_states_def level_handlers_def same_shape_fields [OF assms])
qed

lemma rule_states_shape:
  assumes "same_shape h h'"
  shows "rule_states h' g rule = rule_states h g rule"
proof -
  have "chain_succs h' m u = chain_succs h m u" for m u
    using assms by (simp add: chain_succs_def same_shape_fields)
  then show ?thesis
    by (auto simp: rule_states_def chain_states_def level_states_shape [OF assms] same_shape_fields [OF assms] split: option.split)
qed

lemma walk_states_shape: "same_shape h h' \<Longrightarrow> walk_states h' g s rs = walk_states h g s rs"
  by (induction rs) (simp_all add: rule_states_shape)

text \<open>
  A connection with session \<open>s\<close> is dispatched, arrives at a loopback and is handed back to the
  dispatcher with session \<open>s'\<close>, whatever other picks do meanwhile.
\<close>

definition fed_back :: "('d, 'i) platform \<Rightarrow> ('d, 'i) Router \<Rightarrow> Manager \<Rightarrow> session \<Rightarrow> session \<Rightarrow> bool" where
  "fed_back P r mgr s s' \<longleftrightarrow>
     (\<exists>r1 L w h s1 d r2 lo s2 inbound sniffing dest s3 r3 fdns sniffed.
        same_routing r r1 \<and> (\<forall>k. env_ok mgr (w k)) \<and> routedDispatch P L w r1 mgr s = (Dispatched h s1 d, r2)
        \<and> arrives mgr h s1 lo s2 \<and> (\<exists>v. view lo = Some v \<and> LoopbackInbound v = Some inbound)
        \<and> Loopback_Process inbound sniffing s2 r2 = (Inr (dest, s3), r3) \<and> DispatchLink P fdns sniffed dest s3 = Inr s')"

lemma arrives_leads:
  assumes "arrives mgr h s lo s'" "registry_ok mgr" "h \<in> set (ListHandlers mgr)"
  shows "lo \<in> set (ListHandlers mgr) \<and> (\<forall>v t. view lo = Some v \<longrightarrow> LoopbackInbound v = Some t \<longrightarrow> (\<exists>ts. leads (taggedHandler mgr) h ts t))"
  using assms
proof (induction rule: arrives.induct)
  case (here h v s)
  then show ?case by (auto intro: leads.loopback)
next
  case (dials h v h' s dst lo s')
  have ih: "lo \<in> set (ListHandlers mgr)" "\<And>v t. view lo = Some v \<Longrightarrow> LoopbackInbound v = Some t \<Longrightarrow> \<exists>ts. leads (taggedHandler mgr) h' ts t"
    using dials.IH dials.prems(1) GetHandler_listed [OF dials.hyps(4)] by blast+
  have "\<exists>ts. leads (taggedHandler mgr) h ts t" if "view lo = Some w" "LoopbackInbound w = Some t" for w t
    using ih(2) [OF that] leads.dial [OF dials.hyps(1-3) dials.hyps(4) [unfolded GetHandler_def]] by blast
  then show ?case using ih(1) by blast
qed

lemma loop_states_mem:
  "x \<in> set hs \<Longrightarrow> view x = Some v \<Longrightarrow> LoopbackInbound v = Some t \<Longrightarrow> t \<in> set (loop_states hs)"
  by (force simp: loop_states_def)

lemma set_last_fields [simp]:
  "ses_Inbound (set_last f s) = ses_Inbound s" "ses_Content (set_last f s) = ses_Content s" "ses_Loopbacks (set_last f s) = ses_Loopbacks s"
  by (simp_all add: set_last_def)

lemma DispatchLink_fields:
  assumes "DispatchLink P fdns sniffed dest s = Inr s'"
  shows "ses_Inbound s' = ses_Inbound s" "ses_Loopbacks s' = ses_Loopbacks s"
    "\<And>c. ses_Content s = Some c \<Longrightarrow> \<exists>c'. ses_Content s' = Some c' \<and> ct_Attributes c' = ct_Attributes c"
proof -
  let ?s1 = "set_last (\<lambda>ob. ob\<lparr>OriginalTarget := dest, Target := dest\<rparr>) (if ses_Outbounds s = [] then s\<lparr>ses_Outbounds := [new_Outbound]\<rparr> else s)"
  let ?c = "case ses_Content ?s1 of None \<Rightarrow> new_Content | Some c \<Rightarrow> c"
  have same: "ses_Inbound ?s1 = ses_Inbound s" "ses_Loopbacks ?s1 = ses_Loopbacks s" "ses_Content ?s1 = ses_Content s"
    by (simp_all split: if_split)
  have sn: "ses_Inbound y = ses_Inbound x \<and> ses_Loopbacks y = ses_Loopbacks x \<and> ses_Content y = ses_Content x"
    if "apply_sniffed P fdns result request dest x = Inr y" for result request x y
    using that unfolding apply_sniffed_def Let_def by (auto split: sum.splits bool.splits if_splits)
  have "s' = ?s1\<lparr>ses_Content := Some ?c\<rparr> \<or> (\<exists>result. apply_sniffed P fdns result (ct_SniffingRequest ?c) dest
      (?s1\<lparr>ses_Content := Some ?c\<rparr>\<lparr>ses_Content := Some (?c\<lparr>ct_Protocol := sr_Protocol result\<rparr>)\<rparr>) = Inr s')"
    using assms unfolding DispatchLink_def Let_def by (cases sniffed) (auto split: if_splits)
  then have "ses_Inbound s' = ses_Inbound s \<and> ses_Loopbacks s' = ses_Loopbacks s \<and> (\<exists>c'. ses_Content s' = Some c' \<and> ct_Attributes c' = ct_Attributes ?c)" (is "?C")
  proof (elim disjE exE)
    fix result
    assume "apply_sniffed P fdns result (ct_SniffingRequest ?c) dest
      (?s1\<lparr>ses_Content := Some ?c\<rparr>\<lparr>ses_Content := Some (?c\<lparr>ct_Protocol := sr_Protocol result\<rparr>)\<rparr>) = Inr s'"
    from sn [OF this] show ?C by (simp add: same del: set_last_fields)
  qed (simp add: same del: set_last_fields)
  then show "ses_Inbound s' = ses_Inbound s" "ses_Loopbacks s' = ses_Loopbacks s"
    "\<And>c. ses_Content s = Some c \<Longrightarrow> \<exists>c'. ses_Content s' = Some c' \<and> ct_Attributes c' = ct_Attributes c"
    unfolding same by simp_all
qed

lemma fed_back_tag:
  assumes "fed_back P r mgr s s'"
  obtains r1 L w h s1 d r2 lo inbound v where "same_routing r r1" "\<And>k. env_ok mgr (w k)"
    "routedDispatch P L w r1 mgr s = (Dispatched h s1 d, r2)" "\<exists>s2. arrives mgr h s1 lo s2"
    "view lo = Some v" "LoopbackInbound v = Some inbound" "inbound_tag s' = inbound" "GetForcedOutboundTagFromContext s' = ''''"
proof -
  obtain r1 L w h s1 d r2 lo s2 inbound sniffing dest s3 r3 fdns sniffed v where f:
      "same_routing r r1" "\<forall>k. env_ok mgr (w k)" "routedDispatch P L w r1 mgr s = (Dispatched h s1 d, r2)"
      "arrives mgr h s1 lo s2" "view lo = Some v" "LoopbackInbound v = Some inbound"
      "Loopback_Process inbound sniffing s2 r2 = (Inr (dest, s3), r3)" "DispatchLink P fdns sniffed dest s3 = Inr s'"
    using assms unfolding fed_back_def by blast
  have s3: "inbound_tag s3 = inbound" "\<exists>c. ses_Content s3 = Some c \<and> ct_Attributes c = None"
    using f(7) by (auto simp: Loopback_Process_def Let_def inbound_tag_def new_Content_def split: if_splits)
  have "inbound_tag s' = inbound" using DispatchLink_fields(1) [OF f(8)] s3(1) by (simp add: inbound_tag_def)
  moreover have "GetForcedOutboundTagFromContext s' = ''''"
    using DispatchLink_fields(3) [OF f(8)] s3(2) by (auto simp: GetForcedOutboundTagFromContext_def Attribute_def)
  ultimately show ?thesis using that [of r1 w L h s1 d r2 lo v inbound] f by blast
qed

lemma routedDispatch_listed:
  assumes "registry_ok mgr" "routedDispatch P L w r mgr s = (Dispatched h s' d, r')"
  shows "h \<in> set (ListHandlers mgr)"
proof -
  have "\<exists>inTag n found s1. dispatch_to mgr inTag n found s1 = Dispatched h s' d \<and> (found = None \<or> (\<exists>t. GetHandler mgr t = found))"
    using assms(2) unfolding routedDispatch_def Let_def
    by (auto split: sum.splits if_splits option.splits prod.splits)
  then obtain inTag n found s1 where f: "dispatch_to mgr inTag n found s1 = Dispatched h s' d"
      "found = None \<or> (\<exists>t. GetHandler mgr t = found)"
    by blast
  then show ?thesis
    using dispatch_to_cases(2) [OF f(1)] GetHandler_listed assms(1) by (auto simp: registry_ok_def)
qed

lemma fed_back_state:
  assumes "registry_ok mgr" "fed_back P r mgr s s'"
  shows "inbound_tag s' \<in> set (loop_states (ListHandlers mgr)) \<and> GetForcedOutboundTagFromContext s' = ''''"
  using assms(2)
proof (rule fed_back_tag)
  fix r1 L w h s1 d r2 lo inbound v
  assume f: "routedDispatch P L w r1 mgr s = (Dispatched h s1 d, r2)" "\<exists>s2. arrives mgr h s1 lo s2" "view lo = Some v"
    "LoopbackInbound v = Some inbound" "inbound_tag s' = inbound" "GetForcedOutboundTagFromContext s' = ''''"
  have "h \<in> set (ListHandlers mgr)" by (rule routedDispatch_listed [OF assms(1) f(1)])
  then have "lo \<in> set (ListHandlers mgr)" using arrives_leads [OF _ assms(1)] f(2) by blast
  then show ?thesis using loop_states_mem [OF _ f(3,4)] f(5,6) by blast
qed

lemma fed_back_move:
  assumes ok: "router_ok P r" "registry_ok mgr" "script r = None" and s: "inbound_tag s \<in> set (loop_states (ListHandlers mgr))"
      "inbound_tag s \<noteq> ''''" "GetForcedOutboundTagFromContext s = ''''" and f: "fed_back P r mgr s s'"
  shows "(inbound_tag s, inbound_tag s') \<in> moves (objects r) (loop_graph r mgr) (ListHandlers mgr)"
  using f
proof (rule fed_back_tag)
  fix r1 L w h s1 d r2 lo inbound v
  assume a: "same_routing r r1" "\<And>k. env_ok mgr (w k)" "routedDispatch P L w r1 mgr s = (Dispatched h s1 d, r2)" "\<exists>s2. arrives mgr h s1 lo s2"
    "view lo = Some v" "LoopbackInbound v = Some inbound" "inbound_tag s' = inbound"
  have sc: "script r1 = None" "rules r1 = rules r" "same_shape (objects r) (objects r1)" using a(1) ok(3) by (simp_all add: same_routing_def)
  have rd: "reached_states (now_graph r mgr) (Some h) \<subseteq> walk_states (objects r1) (now_graph r mgr) (inbound_tag s) (rules r)"
      "h \<in> set (ListHandlers mgr)"
    using routedDispatch_states [OF same_routing_ok [OF ok(1) a(1)] ok(2) a(2) sc(1) s(3,2) a(3)]
    unfolding same_routing_graph [OF a(1)] sc(2) by blast+
  obtain ts where "leads (taggedHandler mgr) h ts inbound" using arrives_leads [OF _ ok(2) rd(2)] a(4-6) by blast
  then have "inbound \<in> reached_states (now_graph r mgr) (Some h)"
    using LoopbackReached_iff [of h "taggedHandler mgr" inbound] by (auto simp: reached_states_def now_graph_fields [OF ok(2)])
  then have "inbound \<in> walk_states (objects r) (now_graph r mgr) (inbound_tag s) (rules r)"
    using rd(1) unfolding walk_states_shape [OF sc(3)] by blast
  then show ?thesis using s(1) a(7) by (simp add: moves_def) (simp add: loop_graph_def)
qed

lemma router_rules_known:
  assumes "router_ok P r"
  shows "rules_known (objects r) (balancers r) (rules r)"
proof -
  have m: "map_ok (objects r) (next_ref r) (balancers r)" using assms by (simp add: router_ok_def maps_ok_def)
  have "\<exists>t. map_of (balancers r) t = Some b" if "b \<in> snd ` set (balancers r)" for b
    using that m by (auto simp: map_ok_def)
  then show ?thesis using assms m by (auto simp: rules_known_def map_ok_def router_ok_def rules_ok_def)
qed


definition loop_manager :: Manager where
  "loop_manager = snd (add_locked (snd (add_locked New_Manager (loopback_handler ''lo'' ''in''))) (sample_handler ''out'' ''''))"

definition loop_config :: "string list \<Rightarrow> (nat, nat) Config" where
  "loop_config inbounds =
     \<lparr>cfg_DomainStrategy = AsIs,
      cfg_Rule = [sample_rule\<lparr>TargetTag := Tag ''lo'', RuleTag := ''a'', rr_InboundTag := [''x'']\<rparr>,
                  sample_rule\<lparr>TargetTag := Tag ''out'', RuleTag := ''b'', rr_InboundTag := inbounds, rr_PortList := None\<rparr>],
      cfg_BalancingRule = []\<rparr>"

definition loop_router :: "(nat, nat) Router" where
  "loop_router =
     snd (the (Router_Init sample_platform (\<lambda>_. None) (\<lambda>_. True) (Some loop_manager) (loop_config [''in'']) None sample_heap))"

definition loop_env :: env where
  "loop_env = \<lparr>Select = Some (select_tags (map fst (taggedHandler loop_manager))), Observation = (\<lambda>_. NoObservatory), drawn = 0,
     weighted_pick = (\<lambda>_ _. ''''), weighted_active = (\<lambda>_ _. True), weighted_targets = (\<lambda>_ _. [])\<rparr>"

definition loop_session :: session where
  "loop_session =
     \<lparr>ses_Inbound = Some (new_Inbound\<lparr>in_Tag := ''x''\<rparr>),
      ses_Outbounds = [new_Outbound\<lparr>Target := TCPDestination (Some (domainAddress ''a'')) 80\<rparr>], ses_Content = None, ses_Loopbacks = []\<rparr>"

lemma loop_router_init: "router_init sample_platform loop_router"
proof -
  have "map_option fst (Router_Init sample_platform (\<lambda>_. None) (\<lambda>_. True) (Some loop_manager) (loop_config [''in'']) None sample_heap)
      = Some None"
    by code_simp
  then have "Router_Init sample_platform (\<lambda>_. None) (\<lambda>_. True) (Some loop_manager) (loop_config [''in'']) None sample_heap
      = Some (None, loop_router)"
    unfolding loop_router_def by auto
  then show ?thesis unfolding router_init_def by blast
qed

lemma loop_manager_ok: "registry_ok loop_manager"
  unfolding loop_manager_def by (intro registry_add) (simp add: registry_ok_def New_Manager_def)

lemma loop_checked:
  "script loop_router = None" "loopbackLoops (objects loop_router) (loop_graph loop_router loop_manager) (ListHandlers loop_manager) = Some None"
  "set (loop_states (ListHandlers loop_manager)) = {''in''}"
  by code_simp+

lemma loop_fed_back: "\<exists>s'. fed_back sample_platform loop_router loop_manager loop_session s'"
proof -
  let ?lo = "loopback_handler ''lo'' ''in''" and ?D = "routedDispatch sample_platform (\<lambda>_. Inl ErrNoClue) (\<lambda>_. loop_env) loop_router loop_manager loop_session"
  have "case fst ?D of
      Dispatched h s1 d \<Rightarrow> h = ?lo \<and> (case fst (Loopback_Process ''in'' no_sniffing s1 loop_router) of
         Inr (dest, s3) \<Rightarrow> is_ok (DispatchLink sample_platform None None dest s3) | Inl err \<Rightarrow> False)
    | _ \<Rightarrow> False"
    by code_simp
  then obtain s1 d dest s3 s' where 1: "fst ?D = Dispatched ?lo s1 d" "fst (Loopback_Process ''in'' no_sniffing s1 loop_router) = Inr (dest, s3)"
      "DispatchLink sample_platform None None dest s3 = Inr s'"
    by (auto split: outcome.splits sum.splits elim!: is_ok.elims)
  have 2: "Loopback_Process ''in'' no_sniffing s1 (snd ?D) = (Inr (dest, s3), snd ?D)"
    using 1(2) by (auto simp: Loopback_Process_def Let_def split: if_splits)
  have "same_routing loop_router loop_router" by (simp add: same_routing_def same_shape_refl)
  moreover have "env_ok loop_manager loop_env" by (simp add: env_ok_def loop_env_def)
  moreover have "arrives loop_manager ?lo s1 ?lo s1" by (rule arrives.here [of _ "\<lparr>DialerProxy = '''', LoopbackInbound = Some ''in''\<rparr>"]) (simp_all add: loopback_handler_def)
  ultimately show ?thesis
    unfolding fed_back_def using 1 2
    by (intro exI [of _ s'] exI [of _ loop_router] exI [of _ "\<lambda>_. Inl ErrNoClue"] exI [of _ "\<lambda>_. loop_env"] exI [of _ ?lo] exI [of _ s1]
        exI [of _ d] exI [of _ "snd ?D"] exI [of _ "''in''"] exI [of _ no_sniffing] exI [of _ dest] exI [of _ s3] exI [of _ None])
      (auto simp: loopback_handler_def prod_eq_iff)
qed


section \<open>The guard of the loopback outbound\<close>

lemma arrives_session:
  assumes "arrives mgr h s lo s'" "registry_ok mgr" "ses_Outbounds s \<noteq> [] \<Longrightarrow> ob_Tag (last (ses_Outbounds s)) = handler_tag h"
  shows "ses_Loopbacks s' = ses_Loopbacks s \<and> (ses_Outbounds s' \<noteq> [] \<longrightarrow> ob_Tag (last (ses_Outbounds s')) = handler_tag lo)"
  using assms
proof (induction rule: arrives.induct)
  case (dials h v h' s dst lo s')
  have "handler_tag h' = DialerProxy v"
    using dials.hyps(4) dials.prems(1) by (auto simp: GetHandler_def registry_ok_def dest!: map_of_SomeD)
  then show ?case using dials.IH dials.prems(1) by (simp add: redirect_def)
qed simp

lemma forced_loopbacks: "ses_Loopbacks (SetForcedOutboundTagToContext s t) = ses_Loopbacks s"
  by (simp add: SetForcedOutboundTagToContext_def)

lemma fed_back_loopbacks:
  assumes "registry_ok mgr" "fed_back P r mgr s s'"
  shows "\<exists>lo \<in> set (ListHandlers mgr). (\<exists>v t. view lo = Some v \<and> LoopbackInbound v = Some t)
    \<and> handler_tag lo \<notin> set (ses_Loopbacks s) \<and> ses_Loopbacks s' = ses_Loopbacks s @ [handler_tag lo]"
proof -
  obtain r1 L w h s1 d r2 lo s2 inbound sniffing dest s3 r3 fdns sniffed v where f:
      "routedDispatch P L w r1 mgr s = (Dispatched h s1 d, r2)"
      "arrives mgr h s1 lo s2" "view lo = Some v" "LoopbackInbound v = Some inbound"
      "Loopback_Process inbound sniffing s2 r2 = (Inr (dest, s3), r3)" "DispatchLink P fdns sniffed dest s3 = Inr s'"
    using assms(2) unfolding fed_back_def by blast
  have "\<exists>inTag n found s0. dispatch_to mgr inTag n found s0 = Dispatched h s1 d \<and> ses_Loopbacks s0 = ses_Loopbacks s"
    using f(1) unfolding routedDispatch_def Let_def
    by (auto split: sum.splits if_splits option.splits prod.splits) (metis forced_loopbacks)+
  then obtain inTag n found s0 where s0: "dispatch_to mgr inTag n found s0 = Dispatched h s1 d" "ses_Loopbacks s0 = ses_Loopbacks s" by blast
  have s1: "ses_Loopbacks s1 = ses_Loopbacks s" "ob_Tag (last (ses_Outbounds s1)) = handler_tag h"
    unfolding dispatch_to_cases(1) [OF s0(1)] by (simp_all add: set_last_def s0(2))
  have "h \<in> set (ListHandlers mgr)" by (rule routedDispatch_listed [OF assms(1) f(1)])
  then have lo: "lo \<in> set (ListHandlers mgr)" using arrives_leads [OF f(2) assms(1)] by blast
  have s2: "ses_Loopbacks s2 = ses_Loopbacks s" "ses_Outbounds s2 \<noteq> [] \<longrightarrow> ob_Tag (last (ses_Outbounds s2)) = handler_tag lo"
    using arrives_session [OF f(2) assms(1)] s1 by simp_all
  have "handler_tag lo \<notin> set (ses_Loopbacks s)" "ses_Loopbacks s3 = ses_Loopbacks s @ [handler_tag lo]"
    using f(5) s2 by (auto simp: Loopback_Process_def Let_def split: if_splits)
  then show ?thesis using lo f(3,4) DispatchLink_fields(2) [OF f(6)] by auto
qed



section \<open>The empty inbound tag\<close>

definition empty_manager :: Manager where
  "empty_manager = snd (add_locked (snd (add_locked New_Manager (loopback_handler ''lo'' ''''))) (sample_handler ''out'' ''''))"

definition empty_router :: "(nat, nat) Router" where
  "empty_router =
     snd (the (Router_Init sample_platform (\<lambda>_. None) (\<lambda>_. True) (Some empty_manager) (loop_config ['''']) None sample_heap))"

definition fed_once :: session where
  "fed_once = loop_session\<lparr>ses_Inbound := Some new_Inbound, ses_Loopbacks := [''lo'']\<rparr>"


end
