(* ===== verification/Spec2Isabelle.thy ===== *)
theory Spec2Isabelle
  imports Multi_Buffer Address_Parser Mux_Frame Loop_Freedom
begin

text \<open>
  A verification library for Xray-core, a proxy platform written in Go.  An instance accepts
  connections on inbounds, decides with a router to which outbound each of them goes, and carries the
  bytes of both directions through buffers, pipes and multiplexed connections whose messages name
  addresses in a few binary formats.  The library models the byte and address layer, the Mux framing,
  and the whole path of a routing decision, including the checks that keep that path free of loops.

  \<^bold>\<open>Conventions.\<close>  Go values are modelled with their width where it matters (bytes, ports and
  counters are words), slices as lists, maps as association lists or functions, pointers that are
  shared and mutated as references into a heap.  A Go error is a value of \<open>go_error\<close>; a panic is the
  value \<open>GoPanic\<close>, so every index out of range and every nil dereference that the source can reach is a
  branch of the model.  A result type \<open>'a res\<close> is an error or a value.  A function that runs a loop
  under fuel returns \<open>None\<close> when the fuel is used up, and a lemma shows that this does not happen with
  the fuel the definition passes.  What is not part of the sources (clocks, random draws, the resolver,
  geodata lookups, the content of pooled memory) is an argument.

  \<^bold>\<open>Bytes and addresses.\<close>
  \<^item> \<open>Go_Prelude\<close>: errors, results, big-endian integers, byte strings, decimal and hexadecimal numbers.
  \<^item> \<open>Go_Net\<close>: the parts of Go's \<open>net\<close> and \<open>strings\<close> packages that the sources call.
  \<^item> \<open>Net_Address\<close> (\<open>common/net\<close>): addresses, ports, port lists, networks, destinations, their parsers and
    printers.  \<open>ParseDestination\<close> inverts \<open>String\<close>; the loop of \<open>PortList.Ports\<close> ends exactly when no
    range reaches the largest number.
  \<^item> \<open>Buf\<close> (\<open>common/buf/buffer.go\<close>): one buffer with its backing array, window and ownership; every
    method with its panics.  The well-formedness invariant is kept by every operation.
  \<^item> \<open>Multi_Buffer\<close> (\<open>common/buf/multi_buffer.go\<close>): sequences of buffers.  Splitting, merging and
    compacting keep the content, and the container is a queue of bytes: the locale \<open>byte_queue\<close> states
    the contract, and is interpreted for it.
  \<^item> \<open>Address_Parser\<close> (\<open>common/protocol/address.go\<close>, \<open>headers.go\<close>, \<open>common/serial\<close>): reading and writing of
    an address and a port for every configuration of the parser, with a round trip for all of them.
  \<^item> \<open>Mux_Frame\<close> (\<open>common/mux/frame.go\<close>): the metadata of a frame, encoder and decoder, their round trip.

  \<^bold>\<open>Routing.\<close>
  \<^item> \<open>Tarjan\<close>, \<open>Graph_Cycle\<close>, \<open>Loop_Check\<close>: the graph algorithms that the sources implement several times
    (Tarjan's components, the breadth-first search for a shortest cycle, the search in a graph with one
    edge per vertex), proved once.  The locale \<open>finite_graph\<close> is interpreted for the balancer graph and
    for the graph of inbound tags.
  \<^item> \<open>Router_Strategy\<close> (\<open>app/router/strategy_*.go\<close>): round robin, random, least ping and least load, each
    an interpretation of \<open>balancing_strategy\<close>: a pick is a candidate.
  \<^item> \<open>Router_Chain\<close> (\<open>balancing.go\<close>, \<open>fallback_chain.go\<close>, \<open>balancing_override.go\<close>): balancers, members and
    fallbacks, the check of a balancer map, the walk along a chain at run time, and what the control
    plane reports.  The walk is bounded by the number of balancers plus one; on a checked map it ends
    before.
  \<^item> \<open>Router_Rules\<close> (\<open>condition.go\<close>, \<open>config.go\<close>): the matchers and the conditions built from a rule.
  \<^item> \<open>Outbound_Manager\<close> (\<open>app/proxyman/outbound\<close>, \<open>features/outbound/loops.go\<close>): the registry of handlers as
    a state machine, selection by prefix with its cache, and the checks of dialer proxies.
  \<^item> \<open>Router_Loops\<close> (\<open>app/router/loops.go\<close>): the graph of inbound tags that loopback outbounds feed, the
    search for a cycle, and the check of what balancers with members need observed.
  \<^item> \<open>Routing\<close> (\<open>router.go\<close>): the router as a state machine: reloading, removing, overriding, picking, closing,
    with webhook notifiers as numbered resources.
  \<^item> \<open>Dispatch\<close> (\<open>common/session\<close>, \<open>features/routing/session\<close>, \<open>app/dispatcher\<close>, \<open>proxy/loopback\<close>): the
    session of a connection, the view of it that rules read, the dispatcher, and the loopback outbound.
  \<^item> \<open>Loop_Freedom\<close>: the composition.  A step \<open>fed_back\<close> is a connection that the dispatcher routes, that a
    handler dials through its proxies, and that a loopback hands to the dispatcher again.  In a routing
    that the check accepted there are at most as many such steps as there are inbound tags; and the
    loopback's own guard bounds them by the number of loopbacks in any routing.

  \<^bold>\<open>Fuel.\<close>  Breadth-first searches get as much fuel as there are vertices, because each round removes a
  new vertex from the queue; Tarjan's search gets the number of vertices for its depth, because a
  vertex is entered once; the walk along dialer proxies gets one hop more than there are handlers,
  which the source does as well; chains of balancers get one level more than there are balancers,
  again as in the source.  Loops over bytes are structural, or have a termination proof.

  \<^bold>\<open>Concurrency.\<close>  Locks are modelled as atomic steps: an operation that holds the lock is one step of
  its component's relation, and what it does outside the lock is a separate step (a pick reads its
  rule, then resolves its balancer after any number of other steps).

  \<^bold>\<open>Not modelled.\<close>  Encryption, TLS and hash functions (libraries the sources call); sockets and their
  options, the transports and the tunnel device, whose behaviour is that of the operating system or of
  a remote peer; the text of the configuration and its translation in \<open>infra/conf\<close>; geodata files; the
  Lua routing script, which is an argument of the router; what a webhook notifier posts; statistics and
  logging, which do not influence what is proved.  The manifest lists these parts one by one.
\<close>

end
